(* ===== verification/Tetris_Prelude.thy ===== *)
theory Tetris_Prelude
  imports Main "HOL-Library.Word"
begin

unbundle bit_operations_syntax

text \<open>
  Shared vocabulary of the development: the C integer types, the Linux error numbers the
  sources return negated, pointers with their addresses, little-endian stores and loads, the
  byte sum, updates of byte arrays, and the three interfaces that most owners of the port
  share: a codec (what is stored is read back), an invariant kept by every operation, and a
  first error that is latched for the rest of the owner's life.
\<close>

section \<open>Types and constants of the sources\<close>

type_synonym u8 = "8 word"
type_synonym u16 = "16 word"
type_synonym u32 = "32 word"
type_synonym u64 = "64 word"
type_synonym bytes = "u8 list"

text \<open>The numeric values of \<^verbatim>\<open>include/uapi/asm-generic/errno*.h\<close>.\<close>

abbreviation EPERM :: int where "EPERM \<equiv> 1"
abbreviation ENOENT :: int where "ENOENT \<equiv> 2"
abbreviation EIO :: int where "EIO \<equiv> 5"
abbreviation ENXIO :: int where "ENXIO \<equiv> 6"
abbreviation E2BIG :: int where "E2BIG \<equiv> 7"
abbreviation EAGAIN :: int where "EAGAIN \<equiv> 11"
abbreviation ENOMEM :: int where "ENOMEM \<equiv> 12"
abbreviation EBUSY :: int where "EBUSY \<equiv> 16"
abbreviation ENODEV :: int where "ENODEV \<equiv> 19"
abbreviation EINVAL :: int where "EINVAL \<equiv> 22"
abbreviation ENOSPC :: int where "ENOSPC \<equiv> 28"
abbreviation ERANGE :: int where "ERANGE \<equiv> 34"
abbreviation EPROTO :: int where "EPROTO \<equiv> 71"
abbreviation EBADMSG :: int where "EBADMSG \<equiv> 74"
abbreviation EOVERFLOW :: int where "EOVERFLOW \<equiv> 75"
abbreviation EMSGSIZE :: int where "EMSGSIZE \<equiv> 90"
abbreviation EPROTONOSUPPORT :: int where "EPROTONOSUPPORT \<equiv> 93"
abbreviation EOPNOTSUPP :: int where "EOPNOTSUPP \<equiv> 95"
abbreviation ENOTCONN :: int where "ENOTCONN \<equiv> 107"
abbreviation ESHUTDOWN :: int where "ESHUTDOWN \<equiv> 108"
abbreviation ETIMEDOUT :: int where "ETIMEDOUT \<equiv> 110"
abbreviation EHOSTDOWN :: int where "EHOSTDOWN \<equiv> 112"
abbreviation EALREADY :: int where "EALREADY \<equiv> 114"
abbreviation ESTALE :: int where "ESTALE \<equiv> 116"
abbreviation EKEYREJECTED :: int where "EKEYREJECTED \<equiv> 129"

named_theorems le_simps \<open>little-endian loads of little-endian stores\<close>
named_theorems blit_simps \<open>lengths and elements of updated byte arrays\<close>

named_theorems ladder \<open>a chain of early error returns succeeds exactly when every guard does\<close>

lemma ladder_fail [ladder]:
  "e \<noteq> 0 \<Longrightarrow> (if c then (e, x) else y) = (0 :: int, z) \<longleftrightarrow> \<not> c \<and> y = (0, z)"
  "e \<noteq> 0 \<Longrightarrow> (if c then e else r) = (0 :: int) \<longleftrightarrow> \<not> c \<and> r = 0"
  by auto

section \<open>Pointers\<close>

text \<open>
  A C pointer argument is \<open>Null\<close>, or an address together with what it points to. Output
  parameters are returned with their new contents, so that ``the output is untouched'' is an
  equation between pointers.
\<close>

datatype 'a ptr = Null | At (address_at: u64) (contents: 'a)

fun address :: "'a ptr \<Rightarrow> u64" where
  "address Null = 0"
| "address (At a _) = a"

fun store :: "'a ptr \<Rightarrow> 'a \<Rightarrow> 'a ptr" where
  "store Null _ = Null"
| "store (At a _) x = At a x"

text \<open>The range test \<^verbatim>\<open>overlaps\<close> of the GNSS sources, on wrapping 64-bit addresses.\<close>

lemma contents_store: "p \<noteq> Null \<Longrightarrow> contents (store p x) = x"
  by (cases p) simp_all

definition overlaps :: "'a ptr \<Rightarrow> nat \<Rightarrow> 'b ptr \<Rightarrow> nat \<Rightarrow> bool" where
  "overlaps first first_size second second_size =
     (let a = address first; b = address second
      in if a \<le> b then unat (b - a) < first_size else unat (a - b) < second_size)"

definition range_of :: "'a ptr \<Rightarrow> nat \<Rightarrow> nat set" where
  "range_of p n = {unat (address p) ..< unat (address p) + n}"

lemma overlaps_iff:
  assumes "0 < n" and "0 < m"
  shows "overlaps p n q m \<longleftrightarrow> range_of p n \<inter> range_of q m \<noteq> {}"
proof (cases "address p \<le> address q")
  case True
  then have le: "unat (address p) \<le> unat (address q)"
    by (simp add: word_le_nat_alt)
  have d: "unat (address q - address p) = unat (address q) - unat (address p)"
    using True by (rule unat_sub)
  have "range_of p n \<inter> range_of q m \<noteq> {} \<longleftrightarrow> unat (address q) < unat (address p) + n"
    using le assms by (auto simp: range_of_def intro!: exI [of _ "unat (address q)"])
  then show ?thesis
    using True le d by (auto simp: overlaps_def Let_def)
next
  case False
  then have le: "unat (address q) \<le> unat (address p)" "address q \<le> address p"
    by (simp_all add: word_le_nat_alt)
  have d: "unat (address p - address q) = unat (address p) - unat (address q)"
    using le(2) by (rule unat_sub)
  have "range_of p n \<inter> range_of q m \<noteq> {} \<longleftrightarrow> unat (address p) < unat (address q) + m"
    using le assms by (auto simp: range_of_def intro!: exI [of _ "unat (address p)"])
  then show ?thesis
    using False le d by (auto simp: overlaps_def Let_def)
qed

lemma overlaps_commute: "0 < n \<Longrightarrow> 0 < m \<Longrightarrow> overlaps p n q m = overlaps q m p n"
  by (simp add: overlaps_iff Int_commute)

section \<open>Little-endian loads and stores\<close>

text \<open>A pointer into a byte array is a suffix of it: \<^verbatim>\<open>p + k\<close> is \<open>drop k p\<close>.\<close>

definition le16 :: "bytes \<Rightarrow> u16" where
  "le16 p = ucast (p ! 0) OR push_bit 8 (ucast (p ! 1))"

definition le32 :: "bytes \<Rightarrow> u32" where
  "le32 p = ucast (p ! 0) OR push_bit 8 (ucast (p ! 1)) OR
            push_bit 16 (ucast (p ! 2)) OR push_bit 24 (ucast (p ! 3))"

definition put16 :: "u16 \<Rightarrow> bytes" where
  "put16 v = [ucast v, ucast (drop_bit 8 v)]"

definition put32 :: "u32 \<Rightarrow> bytes" where
  "put32 v = [ucast v, ucast (drop_bit 8 v), ucast (drop_bit 16 v), ucast (drop_bit 24 v)]"

lemma length_put16 [simp]: "length (put16 v) = 2"
  by (simp add: put16_def)

lemma length_put32 [simp]: "length (put32 v) = 4"
  by (simp add: put32_def)

lemma bit_u8_ge [simp]: "8 \<le> n \<Longrightarrow> \<not> bit (b :: u8) n"
  using bit_imp_le_length [of b n] by auto

lemma bit_u8_less: "bit (b :: u8) n \<Longrightarrow> n < 8"
  using bit_imp_le_length [of b n] by simp

lemma le16_put16 [le_simps, simp]: "le16 (put16 v @ rest) = v"
  by (rule bit_word_eqI)
    (auto simp: le16_def put16_def bit_simps nth_append not_le)

lemma le32_put32 [le_simps, simp]: "le32 (put32 v @ rest) = v"
proof (rule bit_word_eqI)
  fix n
  assume n: "n < LENGTH(32)"
  then consider "n < 8" | "8 \<le> n" "n < 16" | "16 \<le> n" "n < 24" | "24 \<le> n" "n < 32"
    by fastforce
  then show "bit (le32 (put32 v @ rest)) n \<longleftrightarrow> bit v n"
    by cases (auto simp: le32_def put32_def bit_simps nth_append)
qed

lemma put16_le16: "put16 (le16 [a, b]) = [a, b]"
  by (auto simp: le16_def put16_def bit_simps intro!: bit_word_eqI)

lemma put32_le32: "put32 (le32 [a, b, c, d]) = [a, b, c, d]"
  by (auto simp: le32_def put32_def bit_simps intro!: bit_word_eqI)

lemma le16_nth: "le16 p = le16 [p ! 0, p ! 1]"
  by (simp add: le16_def)

lemma le32_nth: "le32 p = le32 [p ! 0, p ! 1, p ! 2, p ! 3]"
  by (simp add: le32_def)

lemma put16_le16_drop:
  assumes "k + 2 \<le> length p"
  shows "put16 (le16 (drop k p)) = [p ! k, p ! Suc k]"
  using assms by (simp add: le16_nth [of "drop k p"] put16_le16)

text \<open>The low twelve bits of a length field.\<close>

lemma unat_and_fff: "unat (w AND 0xfff :: u16) = unat w mod 4096"
proof -
  have "w AND 0xfff = take_bit 12 w"
    by (simp add: take_bit_eq_mask mask_eq_exp_minus_1)
  then show ?thesis
    by (simp add: take_bit_eq_mod unat_mod_distrib)
qed

section \<open>Byte arrays\<close>

text \<open>
  \<open>blit xs k ys\<close> is \<open>xs\<close> after \<^verbatim>\<open>memcpy(xs + k, ys, length ys)\<close>; \<open>zeroed n\<close> is the
  array \<^verbatim>\<open>memset\<close> or the volatile loops \<^verbatim>\<open>erase\<close>/\<^verbatim>\<open>forget\<close> leave behind.
\<close>

definition blit :: "'a list \<Rightarrow> nat \<Rightarrow> 'a list \<Rightarrow> 'a list" where
  "blit xs k ys = take k xs @ ys @ drop (k + length ys) xs"

definition zeroed :: "nat \<Rightarrow> bytes" where
  "zeroed n = replicate n 0"

lemma length_blit [blit_simps, simp]:
  "k + length ys \<le> length xs \<Longrightarrow> length (blit xs k ys) = length xs"
  by (simp add: blit_def)

lemma nth_blit [blit_simps]:
  assumes "k + length ys \<le> length xs" and "i < length xs"
  shows "blit xs k ys ! i = (if k \<le> i \<and> i < k + length ys then ys ! (i - k) else xs ! i)"
  using assms by (auto simp: blit_def nth_append)

lemma blit_Nil [simp]: "blit xs k [] = xs"
  by (simp add: blit_def)

lemma take_blit_prefix: "k \<le> length xs \<Longrightarrow> take (k + length ys) (blit xs k ys) = take k xs @ ys"
  by (simp add: blit_def)

lemma take_blit_before: "m \<le> k \<Longrightarrow> k \<le> length xs \<Longrightarrow> take m (blit xs k ys) = take m xs"
  by (simp add: blit_def min_def)

lemma blit_blit_adjacent:
  "m = k + length ys \<Longrightarrow> k \<le> length xs \<Longrightarrow> blit (blit xs k ys) m zs = blit xs k (ys @ zs)"
  by (simp add: blit_def min_def add.commute add.left_commute)

lemma update_two_blit: "Suc k < length xs \<Longrightarrow> xs[k := a, Suc k := b] = blit xs k [a, b]"
  by (rule nth_equalityI) (auto simp: nth_blit nth_list_update nth_Cons')

lemma blit_close:
  assumes "k = length h" and "k + 2 \<le> length f"
  shows "(blit f 0 h)[k := a, k + 1 := b] = h @ [a, b] @ drop (k + 2) f"
proof -
  have "(blit f 0 h)[k := a, Suc k := b] = blit (blit f 0 h) k [a, b]"
    using assms by (intro update_two_blit) simp
  also have "\<dots> = blit f 0 (h @ [a, b])"
    using assms by (intro blit_blit_adjacent) simp_all
  finally show ?thesis using assms(1) by (simp add: blit_def)
qed

lemma take_drop_blit:
  "k + length ys \<le> length xs \<Longrightarrow> j \<le> length ys \<Longrightarrow>
   take (length ys - j) (drop (k + j) (blit xs k ys)) = drop j ys"
  by (simp add: blit_def)

lemma length_zeroed [simp]: "length (zeroed n) = n"
  by (simp add: zeroed_def)

lemma nth_zeroed [simp]: "i < n \<Longrightarrow> zeroed n ! i = 0"
  by (simp add: zeroed_def)

lemma zeroed_add: "zeroed (m + n) = zeroed m @ zeroed n"
  by (simp add: zeroed_def replicate_add)

text \<open>A store into a concatenation goes to the part that holds its range.\<close>

lemma blit_append_right: "length xs \<le> k \<Longrightarrow> blit (xs @ ys) k zs = xs @ blit ys (k - length xs) zs"
  by (simp add: blit_def)

lemma blit_append_left: "k + length zs \<le> length xs \<Longrightarrow> blit (xs @ ys) k zs = blit xs k zs @ ys"
  by (simp add: blit_def)

lemma blit_Cons: "0 < k \<Longrightarrow> blit (x # xs) k zs = x # blit xs (k - 1) zs"
  by (cases k) (simp_all add: blit_def)

lemma blit_whole: "length zs = length xs \<Longrightarrow> blit xs 0 zs = zs"
  by (simp add: blit_def)

lemma update_blit: "k < length xs \<Longrightarrow> xs[k := a] = blit xs k [a]"
  by (simp add: blit_def upd_conv_take_nth_drop)

text \<open>
  The frame checksum: bytes are added in a 32-bit accumulator which is truncated to 16 bits
  at the end. Truncation commutes with addition, so adding in 16 bits from the start, as one
  of the encoders does, gives the same sum.
\<close>

definition sum32 :: "bytes \<Rightarrow> u32" where
  "sum32 bs = fold (\<lambda>b s. s + ucast b) bs 0"

definition sum_bytes :: "bytes \<Rightarrow> u16" where
  "sum_bytes bs = ucast (sum32 bs)"

lemma take_bit_add_take_bit:
  assumes "m \<le> n"
  shows "take_bit m (take_bit n a + take_bit n b) = take_bit m (a + b :: int)"
proof -
  have "take_bit m (take_bit n a + take_bit n b) =
      take_bit m (take_bit m (take_bit n a) + take_bit m (take_bit n b))"
    by (rule take_bit_add [symmetric])
  also have "\<dots> = take_bit m (take_bit m a + take_bit m b)"
    using assms by simp
  finally show ?thesis by (simp add: take_bit_add)
qed

lemma ucast_add_16_32: "(ucast (a + b :: u32) :: u16) = ucast a + ucast b"
  by transfer (simp add: take_bit_add_take_bit)

lemma ucast_8_32_16: "(ucast (ucast (a :: u8) :: u32) :: u16) = ucast a"
  by (rule bit_word_eqI) (auto simp: bit_simps)

lemma sum_bytes_fold16: "sum_bytes bs = fold (\<lambda>b s. s + ucast b) bs 0"
proof -
  have "ucast (fold (\<lambda>b s. s + ucast b) bs (a :: u32)) =
      fold (\<lambda>b s. s + ucast b) bs (ucast a :: u16)" for a
    by (induction bs arbitrary: a) (simp_all add: ucast_add_16_32 ucast_8_32_16)
  from this [of 0] show ?thesis
    by (simp add: sum_bytes_def sum32_def)
qed

section \<open>Rounding and powers of two\<close>

definition round_up :: "nat \<Rightarrow> nat \<Rightarrow> nat" where
  "round_up a c = (c + a - 1) div a * a"

lemma round_up_props:
  assumes "0 < a"
  shows "c \<le> round_up a c" and "round_up a c < c + a" and "a dvd round_up a c"
proof -
  have "(c + a - 1) div a * a + (c + a - 1) mod a = c + a - 1" by simp
  moreover have "(c + a - 1) mod a < a" using assms by simp
  ultimately show "c \<le> round_up a c" "round_up a c < c + a"
    using assms unfolding round_up_def by linarith+
qed (simp add: round_up_def)

lemma unat_power_of_2: "n < LENGTH('a) \<Longrightarrow> unat (2 ^ n :: 'a :: len word) = 2 ^ n"
proof -
  assume "n < LENGTH('a)"
  then have "(2 :: nat) ^ n < 2 ^ LENGTH('a)" by (intro power_strict_increasing) auto
  then have "unat (of_nat (2 ^ n) :: 'a word) = 2 ^ n"
    unfolding unsigned_of_nat by (simp only: take_bit_nat_eq_self of_nat_id)
  then show ?thesis by simp
qed

lemma unat_add_small:
  fixes a b :: u64
  shows "unat a + unat b < 2 ^ 64 \<Longrightarrow> unat (a + b) = unat a + unat b"
  by (simp add: unat_add_lem [THEN iffD1])

lemma unat_ucast_32_64 [simp]: "unat (ucast (w :: u32) :: u64) = unat w"
  using unsigned_less [of w, where ?'a = nat] by (simp add: unsigned_ucast_eq take_bit_nat_eq_self)

section \<open>Interfaces\<close>

subsection \<open>Codecs\<close>

locale codec =
  fixes enc :: "'a \<Rightarrow> 'b" and dec :: "'b \<Rightarrow> 'a"
  assumes dec_enc: "dec (enc x) = x"
begin

lemma enc_eq_iff: "enc x = enc y \<longleftrightarrow> x = y"
  by (metis dec_enc)

lemma map_dec_enc: "map dec (map enc xs) = xs"
  by (induction xs) (simp_all add: dec_enc)

end

text \<open>A codec onto byte runs of one width: every run of that width is the code of one value.\<close>

locale fixed_codec = codec enc dec
  for enc :: "'a \<Rightarrow> 'c list" and dec :: "'c list \<Rightarrow> 'a" +
  fixes width :: nat
  assumes width_pos: "0 < width"
    and length_enc: "length (enc x) = width"
    and enc_dec: "length y = width \<Longrightarrow> enc (dec y) = y"
begin

lemma dec_eq_iff: "length y = width \<Longrightarrow> length z = width \<Longrightarrow> dec y = dec z \<longleftrightarrow> y = z"
  by (metis enc_dec)

lemma enc_not_Nil: "enc x \<noteq> []"
  using width_pos length_enc [of x] by auto

lemma concat_enc_eq_iff: "concat (map enc xs) = concat (map enc ys) \<longleftrightarrow> xs = ys"
proof (induction xs arbitrary: ys)
  case Nil
  show ?case by (cases ys) (simp_all add: enc_not_Nil)
next
  case (Cons x xs)
  then show ?case
    by (cases ys) (simp_all add: enc_not_Nil length_enc enc_eq_iff)
qed

end

lemma length_2_conv: "length xs = 2 \<longleftrightarrow> (\<exists>a b. xs = [a, b])"
  by (auto simp: numeral_2_eq_2 length_Suc_conv)

lemma length_4_conv: "length xs = 4 \<longleftrightarrow> (\<exists>a b c d. xs = [a, b, c, d])"
  by (auto simp: numeral_eq_Suc length_Suc_conv)

interpretation halfword: fixed_codec put16 le16 2
  using le16_put16 [where rest = "[]"]
  by unfold_locales (auto simp: length_2_conv put16_le16)

interpretation word32: fixed_codec put32 le32 4
  using le32_put32 [where rest = "[]"]
  by unfold_locales (auto simp: length_4_conv put32_le32)

text \<open>64-bit loads and stores.\<close>

definition get_le64 :: "bytes \<Rightarrow> u64" where
  "get_le64 p = ucast (le32 p) OR push_bit 32 (ucast (le32 (drop 4 p)))"

definition put_le64 :: "u64 \<Rightarrow> bytes" where
  "put_le64 v = put32 (ucast v) @ put32 (ucast (drop_bit 32 v))"

lemma le32_take: "4 \<le> length p \<Longrightarrow> le32 p = v \<longleftrightarrow> take 4 p = put32 v"
proof -
  assume l: "4 \<le> length p"
  have "le32 p = le32 (take 4 p)" using l by (simp add: le32_def)
  then show ?thesis using l word32.enc_dec [of "take 4 p"] word32.dec_enc [of v] by auto
qed

lemma length_put_le64 [simp]: "length (put_le64 v) = 8"
  by (simp add: put_le64_def)

lemma ucast_32_64_split: "(ucast (ucast v :: u32) :: u64) OR push_bit 32 (ucast (ucast (drop_bit 32 v) :: u32)) = v"
  by (rule bit_word_eqI) (auto simp: bit_simps)

lemma low_high_32:
  fixes a b :: u32
  shows "ucast (ucast a OR push_bit 32 (ucast b) :: u64) = a"
    and "ucast (drop_bit 32 (ucast a OR push_bit 32 (ucast b) :: u64)) = b"
proof -
  have high: "\<not> bit a (32 + n)" for n using bit_imp_le_length [of a "32 + n"] by auto
  show "ucast (ucast a OR push_bit 32 (ucast b) :: u64) = a"
    by (rule bit_word_eqI) (auto simp: bit_simps)
  show "ucast (drop_bit 32 (ucast a OR push_bit 32 (ucast b) :: u64)) = b"
    by (rule bit_word_eqI) (auto simp: bit_simps high)
qed

lemma get_put_le64: "get_le64 (put_le64 v) = v"
  using le32_put32 [of "ucast v" "put32 (ucast (drop_bit 32 v))"] le32_put32 [of "ucast (drop_bit 32 v)" "[]"]
  by (simp add: get_le64_def put_le64_def ucast_32_64_split)

lemma put_get_le64:
  assumes "length y = 8"
  shows "put_le64 (get_le64 y) = y"
proof -
  have "y = take 4 y @ drop 4 y" by simp
  moreover have "take 4 y = put32 (le32 y)" using assms le32_take [of y "le32 y"] by simp
  moreover have "drop 4 y = put32 (le32 (drop 4 y))" using assms le32_take [of "drop 4 y" "le32 (drop 4 y)"] by simp
  ultimately show ?thesis unfolding put_le64_def get_le64_def low_high_32 by metis
qed

interpretation word64: fixed_codec put_le64 get_le64 8
  by unfold_locales (simp_all add: get_put_le64 put_get_le64)

lemma le64_take:
  assumes "8 \<le> length p"
  shows "get_le64 p = v \<longleftrightarrow> take 8 p = put_le64 v"
proof -
  have "get_le64 p = get_le64 (take 8 p)" using assms by (simp add: get_le64_def le32_def)
  then show ?thesis using assms word64.enc_dec [of "take 8 p"] word64.dec_enc [of v] by auto
qed

subsection \<open>Owners: operations on a state\<close>

text \<open>
  An owner is driven by a sequence of operations; each returns the new state and a status.
\<close>

fun run_ops :: "('op \<Rightarrow> 's \<Rightarrow> 's \<times> 'r) \<Rightarrow> 'op list \<Rightarrow> 's \<Rightarrow> 's \<times> 'r list" where
  "run_ops step [] s = (s, [])"
| "run_ops step (x # xs) s =
     (let (t, r) = step x s; (u, rs) = run_ops step xs t in (u, r # rs))"

lemma fst_run_ops_Cons [simp]:
  "fst (run_ops step (x # xs) s) = fst (run_ops step xs (fst (step x s)))"
  by (simp add: Let_def split: prod.splits)

lemma snd_run_ops_Cons [simp]:
  "snd (run_ops step (x # xs) s) = snd (step x s) # snd (run_ops step xs (fst (step x s)))"
  by (simp add: Let_def split: prod.splits)

lemma run_ops_append:
  "fst (run_ops step (xs @ ys) s) = fst (run_ops step ys (fst (run_ops step xs s)))"
  by (induction xs arbitrary: s) (simp_all del: run_ops.simps(2))

declare run_ops.simps(2) [simp del]

locale invariant_owner =
  fixes step :: "'op \<Rightarrow> 's \<Rightarrow> 's \<times> 'r" and inv :: "'s \<Rightarrow> bool"
  assumes inv_step: "inv s \<Longrightarrow> inv (fst (step x s))"
begin

lemma inv_run: "inv s \<Longrightarrow> inv (fst (run_ops step xs s))"
  by (induction xs arbitrary: s) (simp_all add: inv_step)

end

text \<open>An owner that refines an abstract one: statuses agree and the abstraction commutes.\<close>

locale refined_owner = invariant_owner step inv
  for step :: "'op \<Rightarrow> 's \<Rightarrow> 's \<times> 'r" and inv :: "'s \<Rightarrow> bool" +
  fixes spec :: "'op \<Rightarrow> 'a \<Rightarrow> 'a \<times> 'r" and abs_state :: "'s \<Rightarrow> 'a"
  assumes refines_step: "inv s \<Longrightarrow> spec x (abs_state s) = (abs_state (fst (step x s)), snd (step x s))"
begin

lemma refines_run: "inv s \<Longrightarrow> run_ops spec xs (abs_state s) =
    (abs_state (fst (run_ops step xs s)), snd (run_ops step xs s))"
proof (induction xs arbitrary: s)
  case Nil
  then show ?case by simp
next
  case (Cons x xs)
  from refines_step [OF Cons.prems, of x] Cons.IH [OF inv_step [OF Cons.prems, of x]] show ?case
    by (intro prod_eqI) (simp_all del: run_ops.simps)
qed

end

locale latched_owner =
  fixes step :: "'op \<Rightarrow> 's \<Rightarrow> 's \<times> int" and failed :: "'s \<Rightarrow> bool" and err :: "'s \<Rightarrow> int"
  assumes failed_step: "failed s \<Longrightarrow> failed (fst (step x s))"
    and err_step: "failed s \<Longrightarrow> err (fst (step x s)) = err s"
begin

lemma failed_run: "failed s \<Longrightarrow> failed (fst (run_ops step xs s))"
  by (induction xs arbitrary: s) (simp_all add: failed_step)

lemma err_run: "failed s \<Longrightarrow> err (fst (run_ops step xs s)) = err s"
  by (induction xs arbitrary: s) (simp_all add: failed_step err_step)

end

locale reporting_owner = latched_owner +
  assumes reports: "failed s \<Longrightarrow> snd (step x s) = err s"
begin

lemma reports_run: "failed s \<Longrightarrow> r \<in> set (snd (run_ops step xs s)) \<Longrightarrow> r = err s"
proof (induction xs arbitrary: s)
  case Nil
  then show ?case by simp
next
  case (Cons x xs)
  then show ?case
    using Cons.IH [OF failed_step [OF Cons.prems(1)]] by (auto simp: err_step reports)
qed

end

end
