(* ===== verification/Mvcd_Wire.thy ===== *)
theory Mvcd_Wire
  imports Tetris_Prelude
begin

text \<open>
  The wire format of the MVCD download protocol,
  \<^verbatim>\<open>patches/gnss-navigation-audit/dsp-download/wire.c\<close>: the encoder of the 116-byte bootstrap
  frame and the decoder of acknowledgements. \<open>mvcd_frame\<close> is the abstract frame format; the
  encoder is proved to produce it and the decoder to accept exactly it.
\<close>

unbundle bit_operations_syntax

section \<open>Constants and data\<close>

definition B41_MVCD_BOOTSTRAP_SIZE :: nat where "B41_MVCD_BOOTSTRAP_SIZE = 106"
definition B41_MVCD_BOOTSTRAP_FRAME_SIZE :: nat where "B41_MVCD_BOOTSTRAP_FRAME_SIZE = 116"
definition B41_MVCD_ACK_PAYLOAD_MAX :: nat where "B41_MVCD_ACK_PAYLOAD_MAX = 1014"

lemmas mvcd_sizes [simp] = B41_MVCD_BOOTSTRAP_SIZE_def B41_MVCD_BOOTSTRAP_FRAME_SIZE_def
  B41_MVCD_ACK_PAYLOAD_MAX_def

abbreviation B41_MVCD_OK :: int where "B41_MVCD_OK \<equiv> 0"
abbreviation B41_MVCD_ARGUMENT :: int where "B41_MVCD_ARGUMENT \<equiv> -1"
abbreviation B41_MVCD_CAPACITY :: int where "B41_MVCD_CAPACITY \<equiv> -2"
abbreviation B41_MVCD_FORMAT :: int where "B41_MVCD_FORMAT \<equiv> -3"
abbreviation B41_MVCD_CHECKSUM :: int where "B41_MVCD_CHECKSUM \<equiv> -4"
abbreviation B41_MVCD_UNEXPECTED_ACK :: int where "B41_MVCD_UNEXPECTED_ACK \<equiv> -5"

text \<open>An \<^verbatim>\<open>enum b41_mvcd_ack_kind\<close> argument can hold any 32-bit value; two are named.\<close>

type_synonym b41_mvcd_ack_kind = u32

abbreviation B41_MVCD_BOOTSTRAP_ACK :: b41_mvcd_ack_kind where "B41_MVCD_BOOTSTRAP_ACK \<equiv> 0x31"
abbreviation B41_MVCD_FRAGMENT_ACK :: b41_mvcd_ack_kind where "B41_MVCD_FRAGMENT_ACK \<equiv> 0x32"

record b41_mvcd_ack =
  ack_sequence :: u16
  ack_bootstrap_auxiliary :: u16
  ack_payload_size :: u16
  ack_length_high_nibble :: u8
  ack_has_bootstrap_auxiliary :: u8

section \<open>The encoder of the bootstrap frame\<close>

definition b41_mvcd_encode_bootstrap ::
  "bytes ptr \<Rightarrow> nat \<Rightarrow> bytes ptr \<Rightarrow> nat \<Rightarrow> nat ptr \<Rightarrow> int \<times> bytes ptr \<times> nat ptr" where
  "b41_mvcd_encode_bootstrap payload payload_size frame capacity written =
    (if payload = Null \<or> frame = Null \<or> written = Null then (B41_MVCD_ARGUMENT, frame, written)
     else if payload_size \<noteq> B41_MVCD_BOOTSTRAP_SIZE then (B41_MVCD_FORMAT, frame, written)
     else if capacity < B41_MVCD_BOOTSTRAP_FRAME_SIZE then (B41_MVCD_CAPACITY, frame, written)
     else if overlaps payload payload_size frame B41_MVCD_BOOTSTRAP_FRAME_SIZE \<or>
             overlaps written 8 payload payload_size \<or>
             overlaps written 8 frame B41_MVCD_BOOTSTRAP_FRAME_SIZE
     then (B41_MVCD_ARGUMENT, frame, written)
     else if le16 (contents payload) \<noteq> 0x1a \<or> le16 (drop 2 (contents payload)) \<noteq> 0
     then (B41_MVCD_FORMAT, frame, written)
     else let f = (contents frame)[0 := 0xaa, 1 := 0xf0];
              f = blit f 2 (put16 (of_nat (B41_MVCD_BOOTSTRAP_SIZE + 4)));
              f = f[4 := 8, 5 := 0xfe];
              f = blit f 6 (take payload_size (contents payload));
              f = blit f (6 + payload_size)
                    (put16 (sum_bytes (take (payload_size + 4) (drop 2 f))));
              f = f[8 + payload_size := 0xaa, 9 + payload_size := 0x0f]
          in (B41_MVCD_OK, store frame f, store written B41_MVCD_BOOTSTRAP_FRAME_SIZE))"

section \<open>The decoder of acknowledgements\<close>

definition b41_mvcd_decode_ack ::
  "bytes ptr \<Rightarrow> nat \<Rightarrow> b41_mvcd_ack_kind \<Rightarrow> u16 \<Rightarrow> b41_mvcd_ack ptr \<Rightarrow> int \<times> b41_mvcd_ack ptr" where
  "b41_mvcd_decode_ack frame frame_size expected_kind expected_sequence ack =
    (if frame = Null \<or> ack = Null \<or>
        (expected_kind \<noteq> B41_MVCD_BOOTSTRAP_ACK \<and> expected_kind \<noteq> B41_MVCD_FRAGMENT_ACK)
     then (B41_MVCD_ARGUMENT, ack)
     else if frame_size < 10 \<or> frame_size > B41_MVCD_ACK_PAYLOAD_MAX + 10
     then (B41_MVCD_FORMAT, ack)
     else if overlaps frame frame_size ack 8 then (B41_MVCD_ARGUMENT, ack)
     else let p = contents frame in
       if p ! 0 \<noteq> 0xaa \<or> p ! 1 \<noteq> 0xf0 \<or> p ! 5 \<noteq> 0xfe then (B41_MVCD_FORMAT, ack)
       else let encoded_length = le16 (drop 2 p) in
         if unat (encoded_length AND 0xfff) < 4 then (B41_MVCD_FORMAT, ack)
         else let payload_size = unat (encoded_length AND 0xfff) - 4 in
           if payload_size > B41_MVCD_ACK_PAYLOAD_MAX \<or> frame_size \<noteq> payload_size + 10
           then (B41_MVCD_FORMAT, ack)
           else let minimum = (if expected_kind = B41_MVCD_BOOTSTRAP_ACK then 4 else 2) in
             if payload_size < minimum \<or> p ! (frame_size - 2) \<noteq> 0xaa \<or> p ! (frame_size - 1) \<noteq> 0x0f
             then (B41_MVCD_FORMAT, ack)
             else if le16 (drop (6 + payload_size) p) \<noteq> sum_bytes (take (payload_size + 4) (drop 2 p))
             then (B41_MVCD_CHECKSUM, ack)
             else if p ! 4 \<noteq> ucast expected_kind \<or> le16 (drop 6 p) \<noteq> expected_sequence
             then (B41_MVCD_UNEXPECTED_ACK, ack)
             else let decoded = \<lparr> ack_sequence = le16 (drop 6 p), ack_bootstrap_auxiliary = 0,
                        ack_payload_size = of_nat payload_size,
                        ack_length_high_nibble = ucast (drop_bit 12 encoded_length),
                        ack_has_bootstrap_auxiliary = 0 \<rparr>;
                      decoded = (if expected_kind = B41_MVCD_BOOTSTRAP_ACK
                        then decoded\<lparr> ack_bootstrap_auxiliary := le16 (drop 8 p),
                                      ack_has_bootstrap_auxiliary := 1 \<rparr>
                        else decoded)
               in (B41_MVCD_OK, store ack decoded))"

section \<open>The frame format\<close>

text \<open>
  Start marker \<^verbatim>\<open>AA F0\<close>; a little-endian length whose low twelve bits count the payload and
  four header bytes; the command; \<^verbatim>\<open>FE\<close>; the payload; the byte sum of everything from the
  length to the end of the payload; end marker \<^verbatim>\<open>AA 0F\<close>.
\<close>

definition mvcd_body :: "u16 \<Rightarrow> u8 \<Rightarrow> bytes \<Rightarrow> bytes" where
  "mvcd_body len command payload = put16 len @ [command, 0xfe] @ payload"

definition mvcd_frame :: "u16 \<Rightarrow> u8 \<Rightarrow> bytes \<Rightarrow> bytes" where
  "mvcd_frame len command payload =
     [0xaa, 0xf0] @ mvcd_body len command payload @
     put16 (sum_bytes (mvcd_body len command payload)) @ [0xaa, 0x0f]"

definition ack_minimum :: "b41_mvcd_ack_kind \<Rightarrow> nat" where
  "ack_minimum kind = (if kind = B41_MVCD_BOOTSTRAP_ACK then 4 else 2)"

definition ack_of :: "b41_mvcd_ack_kind \<Rightarrow> u16 \<Rightarrow> bytes \<Rightarrow> b41_mvcd_ack" where
  "ack_of kind len payload =
     \<lparr> ack_sequence = le16 payload,
       ack_bootstrap_auxiliary = (if kind = B41_MVCD_BOOTSTRAP_ACK then le16 (drop 2 payload) else 0),
       ack_payload_size = of_nat (length payload),
       ack_length_high_nibble = ucast (drop_bit 12 len),
       ack_has_bootstrap_auxiliary = (if kind = B41_MVCD_BOOTSTRAP_ACK then 1 else 0) \<rparr>"

lemma length_mvcd_body [simp]: "length (mvcd_body len command payload) = length payload + 4"
  by (simp add: mvcd_body_def)

lemma length_mvcd_frame [simp]: "length (mvcd_frame len command payload) = length payload + 10"
  by (simp add: mvcd_frame_def)

lemma drop_four: "k + 4 \<le> length p \<Longrightarrow>
    drop k p = [p ! k, p ! (k + 1), p ! (k + 2), p ! (k + 3)] @ drop (k + 4) p"
  by (simp add: Cons_nth_drop_Suc [symmetric] eval_nat_numeral)

text \<open>A frame-sized array is its markers, header, payload and checksum.\<close>

lemma drop_2_parts: "6 \<le> length p \<Longrightarrow> drop 2 p = [p ! 2, p ! 3, p ! 4, p ! 5] @ drop 6 p"
  using drop_four [of 2 p] by simp

lemma frame_parts:
  assumes "length p = n + 10"
  shows "p = [p ! 0, p ! 1] @ [p ! 2, p ! 3, p ! 4, p ! 5] @ take n (drop 6 p) @
             [p ! (n + 6), p ! (n + 7), p ! (n + 8), p ! (n + 9)]"
proof -
  have "p = p ! 0 # p ! 1 # drop 2 p"
    using assms by (cases p; cases "tl p") (auto simp: numeral_2_eq_2)
  moreover have "drop 2 p = [p ! 2, p ! 3, p ! 4, p ! 5] @ drop 6 p"
    using assms by (intro drop_2_parts) simp
  moreover have "drop 6 p = take n (drop 6 p) @ drop (n + 6) p"
    by (metis add.commute append_take_drop_id drop_drop)
  moreover have "drop (n + 6) p = [p ! (n + 6), p ! (n + 7), p ! (n + 8), p ! (n + 9)]"
    using drop_four [of "n + 6" p] assms by (simp add: ac_simps)
  ultimately show ?thesis by (metis append.assoc append_Cons append_Nil)
qed

lemma body_parts:
  assumes "length p = n + 10"
  shows "take (n + 4) (drop 2 p) = [p ! 2, p ! 3, p ! 4, p ! 5] @ take n (drop 6 p)"
  using drop_2_parts [of p] assms by (simp add: eval_nat_numeral)

text \<open>Reading the fields of a frame back.\<close>

lemma mvcd_frame_markers:
  "mvcd_frame len c pl ! 0 = 0xaa" "mvcd_frame len c pl ! Suc 0 = 0xf0"
  "mvcd_frame len c pl ! 4 = c" "mvcd_frame len c pl ! 5 = 0xfe"
  "mvcd_frame len c pl ! (length pl + 8) = 0xaa"
  "mvcd_frame len c pl ! (length pl + 9) = 0x0f"
  "mvcd_frame len c pl ! (8 + length pl) = 0xaa"
  "mvcd_frame len c pl ! (9 + length pl) = 0x0f"
  by (simp_all add: mvcd_frame_def mvcd_body_def put16_def nth_append nth_Cons')

lemma mvcd_frame_drops:
  "drop 2 (mvcd_frame len c pl) =
     mvcd_body len c pl @ put16 (sum_bytes (mvcd_body len c pl)) @ [0xaa, 0x0f]"
  "drop 6 (mvcd_frame len c pl) =
     pl @ put16 (sum_bytes (mvcd_body len c pl)) @ [0xaa, 0x0f]"
  "drop 8 (mvcd_frame len c pl) =
     drop 2 (pl @ put16 (sum_bytes (mvcd_body len c pl)) @ [0xaa, 0x0f])"
  "drop (length pl + 6) (mvcd_frame len c pl) =
     put16 (sum_bytes (mvcd_body len c pl)) @ [0xaa, 0x0f]"
proof -
  have six: "drop 6 (mvcd_frame len c pl) =
     pl @ put16 (sum_bytes (mvcd_body len c pl)) @ [0xaa, 0x0f]" for pl
    by (simp add: mvcd_frame_def mvcd_body_def put16_def)
  then show "drop 6 (mvcd_frame len c pl) =
     pl @ put16 (sum_bytes (mvcd_body len c pl)) @ [0xaa, 0x0f]" .
  show "drop 2 (mvcd_frame len c pl) =
     mvcd_body len c pl @ put16 (sum_bytes (mvcd_body len c pl)) @ [0xaa, 0x0f]"
    by (simp add: mvcd_frame_def)
  show "drop 8 (mvcd_frame len c pl) =
     drop 2 (pl @ put16 (sum_bytes (mvcd_body len c pl)) @ [0xaa, 0x0f])"
    by (simp flip: six)
  show "drop (length pl + 6) (mvcd_frame len c pl) =
     put16 (sum_bytes (mvcd_body len c pl)) @ [0xaa, 0x0f]"
    using arg_cong [OF six, of "drop (length pl)" pl] by (simp add: add.commute)
qed

lemma le16_append: "2 \<le> length p \<Longrightarrow> le16 (p @ q) = le16 p"
  by (cases p) (auto simp: le16_def nth_append)

lemma mvcd_frame_fields:
  "le16 (drop 2 (mvcd_frame len c pl)) = len"
  "2 \<le> length pl \<Longrightarrow> le16 (drop 6 (mvcd_frame len c pl)) = le16 pl"
  "4 \<le> length pl \<Longrightarrow> le16 (drop 8 (mvcd_frame len c pl)) = le16 (drop 2 pl)"
  "le16 (drop (length pl + 6) (mvcd_frame len c pl)) = sum_bytes (mvcd_body len c pl)"
  "take (length pl + 4) (drop 2 (mvcd_frame len c pl)) = mvcd_body len c pl"
  by (simp_all add: mvcd_frame_drops le16_append) (simp add: mvcd_body_def)

text \<open>An array with the right markers, marker byte and checksum is a frame.\<close>

lemma mvcd_frame_recognised:
  assumes "length p = n + 10"
    and "p ! 0 = 0xaa" "p ! 1 = 0xf0" "p ! 5 = 0xfe"
    and "p ! (n + 8) = 0xaa" "p ! (n + 9) = 0x0f"
    and "le16 (drop (n + 6) p) = sum_bytes (take (n + 4) (drop 2 p))"
  shows "p = mvcd_frame (le16 (drop 2 p)) (p ! 4) (take n (drop 6 p))"
proof -
  have len: "put16 (le16 (drop 2 p)) = [p ! 2, p ! 3]"
    using put16_le16_drop [of 2 p] assms(1) by (simp add: eval_nat_numeral)
  then have body: "mvcd_body (le16 (drop 2 p)) (p ! 4) (take n (drop 6 p)) = take (n + 4) (drop 2 p)"
    using body_parts [OF assms(1)] assms(4) by (simp add: mvcd_body_def)
  have "put16 (le16 (drop (n + 6) p)) = [p ! (n + 6), p ! (n + 7)]"
    using put16_le16_drop [of "n + 6" p] assms(1) by (simp add: eval_nat_numeral)
  then show ?thesis
    using frame_parts [OF assms(1)] assms body body_parts [OF assms(1)]
    by (simp add: mvcd_frame_def)
qed

section \<open>Properties\<close>

lemma decode_ack_ladder:
  "b41_mvcd_decode_ack (At a p) m kind seq (At b old) = (B41_MVCD_OK, At b d) \<longleftrightarrow>
     (kind = B41_MVCD_BOOTSTRAP_ACK \<or> kind = B41_MVCD_FRAGMENT_ACK) \<and>
     \<not> overlaps (At a p) m (At b old) 8 \<and>
     p ! 0 = 0xaa \<and> p ! 1 = 0xf0 \<and> p ! 5 = 0xfe \<and>
     4 \<le> unat (le16 (drop 2 p) AND 0xfff) \<and>
     m = unat (le16 (drop 2 p) AND 0xfff) - 4 + 10 \<and>
     unat (le16 (drop 2 p) AND 0xfff) - 4 \<le> 1014 \<and>
     ack_minimum kind \<le> unat (le16 (drop 2 p) AND 0xfff) - 4 \<and>
     p ! (m - 2) = 0xaa \<and> p ! (m - 1) = 0x0f \<and>
     le16 (drop (6 + (unat (le16 (drop 2 p) AND 0xfff) - 4)) p) =
       sum_bytes (take (unat (le16 (drop 2 p) AND 0xfff) - 4 + 4) (drop 2 p)) \<and>
     p ! 4 = ucast kind \<and> le16 (drop 6 p) = seq \<and>
     d = \<lparr> ack_sequence = le16 (drop 6 p),
           ack_bootstrap_auxiliary = (if kind = B41_MVCD_BOOTSTRAP_ACK then le16 (drop 8 p) else 0),
           ack_payload_size = of_nat (unat (le16 (drop 2 p) AND 0xfff) - 4),
           ack_length_high_nibble = ucast (drop_bit 12 (le16 (drop 2 p))),
           ack_has_bootstrap_auxiliary = (if kind = B41_MVCD_BOOTSTRAP_ACK then 1 else 0) \<rparr>"
  unfolding b41_mvcd_decode_ack_def Let_def
  by (simp add: ladder ack_minimum_def not_less eq_commute [of _ d] split del: if_split) auto

lemma le16_take: "k + 2 \<le> m \<Longrightarrow> m \<le> length p \<Longrightarrow> le16 (drop k (take m p)) = le16 (drop k p)"
  by (simp add: le16_def)

text \<open>The decoder reads nothing behind the frame.\<close>

lemma decode_ack_take:
  assumes "m \<le> length p"
  shows "b41_mvcd_decode_ack (At a p) m kind seq (At b old) = (B41_MVCD_OK, At b d) \<longleftrightarrow>
    b41_mvcd_decode_ack (At a (take m p)) m kind seq (At b old) = (B41_MVCD_OK, At b d)"
proof (cases "10 \<le> m")
  case True
  let ?n = "unat (le16 (drop 2 p) AND 0xfff)"
  have len: "le16 (drop 2 (take m p)) = le16 (drop 2 p)" "le16 (drop 6 (take m p)) = le16 (drop 6 p)"
    "le16 (drop 8 (take m p)) = le16 (drop 8 p)"
    using True assms by (simp_all add: le16_take)
  have bytes: "take m p ! i = p ! i" if "i < m" for i using that by simp
  have over: "overlaps (At a (take m p)) m (At b old) 8 = overlaps (At a p) m (At b old) 8"
    by (simp add: overlaps_def)
  have sum: "le16 (drop (6 + (?n - 4)) (take m p)) = le16 (drop (6 + (?n - 4)) p)"
    "take (?n - 4 + 4) (drop 2 (take m p)) = take (?n - 4 + 4) (drop 2 p)" if "m = ?n - 4 + 10"
    using that assms le16_take [of "6 + (?n - 4)" m p] by (simp_all add: drop_take min_def)
  have pos: "0 < m" "1 < m" "5 < m" "4 < m" "m - 2 < m" "m - 1 < m" using True by simp_all
  show ?thesis
    unfolding decode_ack_ladder len over bytes [OF pos(1)] bytes [OF pos(2)] bytes [OF pos(3)] bytes [OF pos(4)]
      bytes [OF pos(5)] bytes [OF pos(6)]
    by (cases "m = ?n - 4 + 10") (use sum in metis, blast)
next
  case False
  then show ?thesis by (simp add: b41_mvcd_decode_ack_def)
qed

lemma decode_ack_iff:
  "b41_mvcd_decode_ack (At a p) (length p) kind seq (At b old) = (B41_MVCD_OK, At b d) \<longleftrightarrow>
     (kind = B41_MVCD_BOOTSTRAP_ACK \<or> kind = B41_MVCD_FRAGMENT_ACK) \<and>
     \<not> overlaps (At a p) (length p) (At b old) 8 \<and>
     (\<exists>len payload. p = mvcd_frame len (ucast kind) payload \<and>
        unat (len AND 0xfff) = length payload + 4 \<and>
        ack_minimum kind \<le> length payload \<and> length payload \<le> 1014 \<and>
        le16 payload = seq \<and> d = ack_of kind len payload)"
  (is "?dec \<longleftrightarrow> ?rhs")
proof
  assume dec: ?dec
  define len where "len = le16 (drop 2 p)"
  define n where "n = unat (len AND 0xfff) - 4"
  let ?pl = "take n (drop 6 p)"
  note ok = dec [unfolded decode_ack_ladder, folded len_def, folded n_def]
  from ok have kind: "kind = B41_MVCD_BOOTSTRAP_ACK \<or> kind = B41_MVCD_FRAGMENT_ACK"
    and apart: "\<not> overlaps (At a p) (length p) (At b old) 8"
    and marks: "p ! 0 = 0xaa" "p ! 1 = 0xf0" "p ! 5 = 0xfe"
    and four: "4 \<le> unat (len AND 0xfff)"
    and size: "length p = n + 10" "n \<le> 1014" "ack_minimum kind \<le> n"
    and tail: "p ! (length p - 2) = 0xaa" "p ! (length p - 1) = 0x0f"
    and sum: "le16 (drop (6 + n) p) = sum_bytes (take (n + 4) (drop 2 p))"
    and expect: "p ! 4 = ucast kind" "le16 (drop 6 p) = seq"
    by - (elim conjE, assumption)+
  have "p ! (n + 8) = 0xaa" "p ! (n + 9) = 0x0f"
    using tail unfolding size(1) by (simp_all add: add.commute)
  then have frame: "p = mvcd_frame len (p ! 4) ?pl"
    using mvcd_frame_recognised [of p n, folded len_def] size(1) marks sum
    by (simp add: add.commute [of 6])
  have npl: "length ?pl = n" using size(1) by simp
  have min: "2 \<le> n" using size(3) by (simp add: ack_minimum_def split: if_splits)
  have seq: "le16 ?pl = le16 (drop 6 p)"
    using min npl mvcd_frame_fields(2) [of ?pl len "p ! 4"] frame by metis
  moreover have "kind = B41_MVCD_BOOTSTRAP_ACK \<Longrightarrow> le16 (drop 2 ?pl) = le16 (drop 8 p)"
    using size(3) npl mvcd_frame_fields(3) [of ?pl len "p ! 4"] frame
    by (metis ack_minimum_def)
  ultimately have d: "d = ack_of kind len ?pl"
    using ok npl unfolding ack_of_def by simp
  then show ?rhs
  proof (intro conjI exI [of _ len] exI [of _ ?pl])
    show "p = mvcd_frame len (ucast kind) ?pl"
      using frame expect(1) by simp
    show "unat (len AND 0xfff) = length ?pl + 4"
      using four npl n_def by simp
  qed (use kind apart size npl expect(2) seq in simp_all)
next
  assume ?rhs
  then obtain len payload where *: "p = mvcd_frame len (ucast kind) payload"
    "unat (len AND 0xfff) = length payload + 4" "ack_minimum kind \<le> length payload"
    "length payload \<le> 1014" "le16 payload = seq" "d = ack_of kind len payload"
    and kind: "kind = B41_MVCD_BOOTSTRAP_ACK \<or> kind = B41_MVCD_FRAGMENT_ACK"
    and apart: "\<not> overlaps (At a p) (length p) (At b old) 8"
    by blast
  have min: "2 \<le> length payload" "kind = B41_MVCD_BOOTSTRAP_ACK \<Longrightarrow> 4 \<le> length payload"
    using *(3) by (auto simp: ack_minimum_def split: if_splits)
  show ?dec
    unfolding decode_ack_ladder
    using kind apart min *(2-6) unfolding *(1)
    by (intro conjI) (simp_all add: mvcd_frame_markers mvcd_frame_fields ack_of_def
        add.commute [of 6])
qed

text \<open>
  C8. The acknowledgement decoder is exact: with distinct storage it accepts a byte array as
  the expected acknowledgement exactly when the array is a frame of that command, with a
  consistent length, a payload of at least two bytes (four for the bootstrap) and at most
  1014, and the expected sequence number in front; and then it returns the fields of that
  frame. Nothing else is accepted, and nothing that has this form is refused.
\<close>

theorem decode_ack_exact:
  "b41_mvcd_decode_ack (At a p) (length p) kind seq (At b old) = (B41_MVCD_OK, At b d) \<longleftrightarrow>
     (kind = B41_MVCD_BOOTSTRAP_ACK \<or> kind = B41_MVCD_FRAGMENT_ACK) \<and>
     \<not> overlaps (At a p) (length p) (At b old) 8 \<and>
     (\<exists>len payload. p = mvcd_frame len (ucast kind) payload \<and>
        unat (len AND 0xfff) = length payload + 4 \<and>
        ack_minimum kind \<le> length payload \<and> length payload \<le> 1014 \<and>
        le16 payload = seq \<and> d = ack_of kind len payload)"
  by (rule decode_ack_iff)

text \<open>The stores of the encoder, in their order, lay down one contiguous frame.\<close>

lemma encode_stores:
  assumes "length p = 106" and "116 \<le> length f"
  defines "g \<equiv> blit ((blit (f[0 := 0xaa, 1 := 0xf0]) 2 (put16 110))[4 := 8, 5 := 0xfe]) 6 p"
  shows "(blit g 112 (put16 (sum_bytes (take 110 (drop 2 g)))))[114 := 0xaa, 115 := 0x0f] =
    mvcd_frame 110 8 p @ drop 116 f"
proof -
  let ?h = "[0xaa, 0xf0] @ mvcd_body 110 8 p"
  have "f[0 := 0xaa, 1 := 0xf0] = blit f 0 [0xaa, 0xf0]"
    using assms update_two_blit [of 0 f] by simp
  then have "blit (f[0 := 0xaa, 1 := 0xf0]) 2 (put16 110) = blit f 0 ([0xaa, 0xf0] @ put16 110)"
    using blit_blit_adjacent [of 2 0 "[0xaa, 0xf0]" f "put16 110"] by simp
  moreover have "(blit f 0 ([0xaa, 0xf0] @ put16 110))[4 := 8, 5 := 0xfe] =
      blit (blit f 0 ([0xaa, 0xf0] @ put16 110)) 4 [8, 0xfe]"
    using assms update_two_blit [of 4 "blit f 0 ([0xaa, 0xf0] @ put16 110)"] by simp
  ultimately have g: "g = blit f 0 ?h"
    using blit_blit_adjacent [of 4 0 "[0xaa, 0xf0] @ put16 110" f "[8, 0xfe]"]
      blit_blit_adjacent [of 6 0 "([0xaa, 0xf0] @ put16 110) @ [8, 0xfe]" f p]
    by (simp add: g_def mvcd_body_def)
  then have "take 110 (drop 2 g) = mvcd_body 110 8 p"
    using assms(1) by (simp add: blit_def)
  moreover have "blit g 112 (put16 s) = blit f 0 (?h @ put16 s)" for s
    using g assms(1) blit_blit_adjacent [of 112 0 ?h f "put16 s"] by simp
  moreover have "(blit f 0 (?h @ put16 s))[114 := 0xaa, 115 := 0x0f] =
      blit f 0 (?h @ put16 s @ [0xaa, 0x0f])" for s
    using assms(1,2) update_two_blit [of 114 "blit f 0 (?h @ put16 s)"]
      blit_blit_adjacent [of 114 0 "?h @ put16 s" f "[0xaa, 0x0f]"] by simp
  ultimately show ?thesis
    using assms(1) by (simp add: mvcd_frame_def blit_def)
qed

lemma encode_bootstrap_result:
  assumes "length p = 106" and "116 \<le> length f"
  shows "b41_mvcd_encode_bootstrap (At a p) (length p) (At b f) (length f) (At c w) =
    (if overlaps (At a p) 106 (At b f) 116 \<or> overlaps (At c w) 8 (At a p) 106 \<or>
        overlaps (At c w) 8 (At b f) 116
     then (B41_MVCD_ARGUMENT, At b f, At c w)
     else if le16 p \<noteq> 0x1a \<or> le16 (drop 2 p) \<noteq> 0 then (B41_MVCD_FORMAT, At b f, At c w)
     else (B41_MVCD_OK, At b (mvcd_frame 110 8 p @ drop 116 f), At c 116))"
  using assms(2) encode_stores [OF assms] unfolding b41_mvcd_encode_bootstrap_def assms(1)
  by (simp add: Let_def assms(1))

lemma encode_bootstrap_ok:
  assumes "b41_mvcd_encode_bootstrap p n (At b f) cap (At c w) = (0, fr, wr)" and "length f = 116"
  shows "\<exists>g. fr = At b g \<and> length g = 116 \<and> wr = At c 116"
  using assms
  by (auto simp: b41_mvcd_encode_bootstrap_def Let_def split: if_splits)



end
