(* ===== verification/Gnss_Bridge.thy ===== *)
theory Gnss_Bridge
  imports Mvcd_Wire
begin

text \<open>
  The packaged tool \<^verbatim>\<open>nothing-tetris-gnss-bridge.c\<close>: the escaping frame encoder, the fixed
  post-initialisation frame, its self test, and the recorder that writes the frame into a new
  regular file. \<open>nav_wire\<close> is the abstract escaped frame that the decoder in
  \<open>Nav_Packet\<close> is proved against as well.
\<close>

unbundle bit_operations_syntax

section \<open>Escaped frames\<close>

text \<open>
  Between the markers \<^verbatim>\<open>AA F0\<close> and \<^verbatim>\<open>AA 0F\<close> a body byte \<^verbatim>\<open>AA\<close> is sent as \<^verbatim>\<open>DE DF\<close> and
  \<^verbatim>\<open>DE\<close> as \<^verbatim>\<open>DE E0\<close>; so \<^verbatim>\<open>AA\<close> never occurs inside the frame.
\<close>

definition escape :: "u8 \<Rightarrow> bytes" where
  "escape b = (if b = 0xaa then [0xde, 0xdf] else if b = 0xde then [0xde, 0xe0] else [b])"

definition escaped :: "bytes \<Rightarrow> bytes" where
  "escaped body = concat (map escape body)"

definition nav_body :: "u16 \<Rightarrow> u8 \<Rightarrow> bytes \<Rightarrow> bytes" where
  "nav_body len command payload =
     mvcd_body len command payload @ put16 (sum_bytes (mvcd_body len command payload))"

definition nav_wire :: "u16 \<Rightarrow> u8 \<Rightarrow> bytes \<Rightarrow> bytes" where
  "nav_wire len command payload = [0xaa, 0xf0] @ escaped (nav_body len command payload) @ [0xaa, 0x0f]"

lemma escaped_simps [simp]:
  "escaped [] = []" "escaped (b # bs) = escape b @ escaped bs"
  "escaped (xs @ ys) = escaped xs @ escaped ys"
  by (simp_all add: escaped_def)

lemma length_nav_body [simp]: "length (nav_body len c pl) = length pl + 6"
  by (simp add: nav_body_def)

lemma length_escape: "1 \<le> length (escape b)" "length (escape b) \<le> 2"
  by (simp_all add: escape_def)

lemma length_escaped: "length body \<le> length (escaped body)" "length (escaped body) \<le> 2 * length body"
proof (induction body)
  case (Cons b body)
  {
    case 1
    then show ?case using Cons.IH(1) length_escape(1) [of b] by simp
  next
    case 2
    then show ?case using Cons.IH(2) length_escape(2) [of b] by simp
  }
qed simp_all

lemma marker_not_escaped: "0xaa \<notin> set (escaped body)"
  by (induction body) (auto simp: escape_def)

section \<open>The encoder\<close>

definition append_escaped :: "u8 \<Rightarrow> bytes \<Rightarrow> nat \<Rightarrow> nat \<Rightarrow> int \<times> bytes \<times> nat" where
  "append_escaped byte frame capacity used =
    (if byte = 0xaa \<or> byte = 0xde then
       if used + 2 > capacity then (-1, frame, used)
       else (0, frame[used := 0xde, used + 1 := (if byte = 0xaa then 0xdf else 0xe0)], used + 2)
     else if used = capacity then (-1, frame, used)
     else (0, frame[used := byte], used + 1))"

fun append_all :: "bytes \<Rightarrow> bytes \<Rightarrow> nat \<Rightarrow> nat \<Rightarrow> int \<times> bytes \<times> nat" where
  "append_all [] frame capacity used = (0, frame, used)"
| "append_all (b # bs) frame capacity used =
     (let (r, frame', used') = append_escaped b frame capacity used
      in if r \<noteq> 0 then (-1, frame', used') else append_all bs frame' capacity used')"

definition encode_frame ::
  "u16 \<Rightarrow> bytes ptr \<Rightarrow> nat \<Rightarrow> bytes ptr \<Rightarrow> nat \<Rightarrow> nat ptr \<Rightarrow> int \<times> bytes ptr \<times> nat ptr" where
  "encode_frame command payload payload_size frame capacity frame_size =
    (if payload = Null \<or> frame = Null \<or> frame_size = Null \<or> payload_size = 0 \<or>
        payload_size > 32 - 6 \<or> capacity < 4
     then (-1, frame, frame_size)
     else let body = put16 (of_nat (payload_size + 4)) @ put16 command @
                     take payload_size (contents payload);
              checksum = fold (\<lambda>b s. s + ucast b) body (0 :: u16);
              body = body @ put16 checksum;
              f = (contents frame)[0 := 0xaa, 1 := 0xf0];
              (r, f, used) = append_all body f capacity 2
          in if r \<noteq> 0 then (-1, store frame f, frame_size)
             else if used + 2 > capacity then (-1, store frame f, frame_size)
             else (0, store frame (f[used := 0xaa, used + 1 := 0x0f]), store frame_size (used + 2)))"

definition post_init_payload :: bytes where
  "post_init_payload = [0x32, 0x00, 0x00, 0x01, 0x00]"

definition expected_post_init_frame :: bytes where
  "expected_post_init_frame = [0xaa, 0xf0, 0x09, 0x00, 0x05, 0xfe, 0x32, 0x00,
     0x00, 0x01, 0x00, 0x3f, 0x01, 0xaa, 0x0f]"

definition FRAME_CAPACITY :: nat where "FRAME_CAPACITY = 64"

definition build_post_init_frame :: "bytes ptr \<Rightarrow> nat \<Rightarrow> nat ptr \<Rightarrow> int \<times> bytes ptr \<times> nat ptr" where
  "build_post_init_frame frame capacity frame_size =
     encode_frame 0xfe05 (At 0 post_init_payload) (length post_init_payload) frame capacity frame_size"

text \<open>The stack buffer \<open>junk\<close> holds whatever was there before.\<close>

definition self_test :: "bytes \<Rightarrow> int" where
  "self_test junk =
    (let (r, frame, frame_size) = build_post_init_frame (At 0 junk) FRAME_CAPACITY (At 0 0)
     in if r \<noteq> 0 \<or> contents frame_size \<noteq> length expected_post_init_frame \<or>
           take (contents frame_size) (contents frame) \<noteq> expected_post_init_frame
        then 1 else 0)"

section \<open>The recorder\<close>

text \<open>
  The results of the successive \<^verbatim>\<open>write\<close> calls are an input: \<open>Inl e\<close> fails with \<^verbatim>\<open>errno\<close> \<open>e\<close>,
  \<open>Inr n\<close> writes \<open>n\<close> bytes, of what is left at most. When the list is used up the call never
  returns (\<open>None\<close>): the source retries an interrupted call without a bound.
\<close>

abbreviation EINTR :: int where "EINTR \<equiv> 4"

fun write_all :: "(int + nat) list \<Rightarrow> bytes \<Rightarrow> bytes \<Rightarrow> (int \<times> bytes) option" where
  "write_all rs file [] = Some (0, file)"
| "write_all [] file (d # ds) = None"
| "write_all (Inl e # rs) file (d # ds) =
     (if e = EINTR then write_all rs file (d # ds) else Some (-1, file))"
| "write_all (Inr n # rs) file (d # ds) =
     (if n = 0 then Some (-1, file)
      else write_all rs (file @ take n (d # ds)) (drop n (d # ds)))"

text \<open>The outcomes of the system calls of one run of \<^verbatim>\<open>record_frame\<close>.\<close>

record recorder_env =
  open_ok :: bool      \<comment> \<open>the exclusive create succeeds\<close>
  fstat_ok :: bool
  is_regular :: bool
  writes :: "(int + nat) list"
  fsync_ok :: bool
  close_ok :: bool

text \<open>The result, and what the path holds afterwards: \<open>None\<close> when there is no file.\<close>

definition record_frame ::
  "recorder_env \<Rightarrow> bytes \<Rightarrow> string ptr \<Rightarrow> bytes option \<Rightarrow> (int \<times> bytes option) option" where
  "record_frame env junk path old =
    (if path = Null \<or> take 1 (contents path) \<noteq> ''/'' \<or> take 5 (contents path) = ''/dev/''
     then Some (1, old)
     else let (r, frame, frame_size) = build_post_init_frame (At 0 junk) FRAME_CAPACITY (At 0 0) in
       if r \<noteq> 0 then Some (1, old)
       else if old \<noteq> None \<or> \<not> open_ok env then Some (1, old)
       else if \<not> fstat_ok env \<or> \<not> is_regular env then Some (1, None)
       else case write_all (writes env) [] (take (contents frame_size) (contents frame)) of
          None \<Rightarrow> None
        | Some (w, file) \<Rightarrow>
            let result = (if w \<noteq> 0 \<or> \<not> fsync_ok env then 1 else 0);
                result = (if \<not> close_ok env \<and> result = 0 then 1 else result)
            in Some (result, if result \<noteq> 0 then None else Some file))"

definition main :: "recorder_env \<Rightarrow> bytes \<Rightarrow> string list \<Rightarrow> bytes option \<Rightarrow> (int \<times> bytes option) option" where
  "main env junk argv old =
    (if length argv = 2 \<and> argv ! 1 = ''--self-test'' then Some (self_test junk, old)
     else if length argv = 3 \<and> argv ! 1 = ''--record-post-init''
     then record_frame env junk (At 0 (argv ! 2)) old
     else Some (2, old))"

section \<open>What the encoder writes\<close>

lemma append_escaped_spec:
  assumes "capacity = length frame" and "used \<le> capacity"
  shows "append_escaped b frame capacity used =
    (if used + length (escape b) \<le> capacity
     then (0, blit frame used (escape b), used + length (escape b)) else (-1, frame, used))"
  using assms
  by (auto simp: append_escaped_def escape_def update_two_blit upd_conv_take_nth_drop blit_def)

lemma append_all_spec:
  assumes "capacity = length frame" and "used \<le> capacity"
  shows "append_all body frame capacity used =
      (0, blit frame used (escaped body), used + length (escaped body))
    \<and> used + length (escaped body) \<le> capacity
    \<or> fst (append_all body frame capacity used) = -1 \<and> used + length (escaped body) > capacity"
  using assms
proof (induction body arbitrary: frame used)
  case (Cons b body)
  show ?case
  proof (cases "used + length (escape b) \<le> capacity")
    case True
    then have "append_all (b # body) frame capacity used =
        append_all body (blit frame used (escape b)) capacity (used + length (escape b))"
      using Cons.prems by (simp add: append_escaped_spec)
    then show ?thesis
      using Cons.IH [of "blit frame used (escape b)" "used + length (escape b)"] True Cons.prems
      by (simp add: blit_blit_adjacent [OF refl] add.assoc)
  next
    case False
    then show ?thesis using Cons.prems by (simp add: append_escaped_spec)
  qed
qed simp

lemma put16_FE: "put16 (0xfe00 OR ucast (c :: u8)) = [c, 0xfe]"
proof -
  have "ucast (ucast c :: u16) = c" "drop_bit 8 (ucast c :: u16) = 0"
    by (auto intro!: bit_word_eqI simp: bit_simps)
  moreover have zero: "(0xfe00 :: u8) = 0" by simp
  have "(0xfe00 :: u8) OR c = c" unfolding zero by simp
  ultimately show ?thesis
    by (simp add: put16_def unsigned_or_eq drop_bit_or)
qed

lemma encode_frame_body:
  "put16 len @ put16 (0xfe00 OR ucast c) @ payload = mvcd_body len c payload"
  by (simp add: mvcd_body_def put16_FE)

lemma encode_frame_nav_body:
  "mvcd_body len c payload @ put16 (fold (\<lambda>b s. s + ucast b) (mvcd_body len c payload) 0) =
    nav_body len c payload"
  by (simp add: nav_body_def sum_bytes_fold16)

lemma length_nav_wire:
  "length (nav_wire len c payload) = length (escaped (nav_body len c payload)) + 4"
  "10 \<le> length (nav_wire len c payload)"
  using length_escaped(1) [of "nav_body len c payload"] by (simp_all add: nav_wire_def)

text \<open>
  With a payload of 1 to 26 bytes and a command whose high byte is \<^verbatim>\<open>FE\<close>, the encoder succeeds
  exactly when the escaped frame fits into the buffer; what lies behind the frame is untouched.
\<close>

lemma encode_frame_result:
  assumes "1 \<le> length payload" and "length payload \<le> 26"
  shows "let wire = nav_wire (of_nat (length payload + 4)) c payload;
             result = encode_frame (0xfe00 OR ucast c) (At a payload) (length payload)
               (At b f) (length f) (At d n)
         in if length wire \<le> length f
            then result = (0, At b (wire @ drop (length wire) f), At d (length wire))
            else \<exists>g. result = (-1, At b g, At d n)"
proof (cases "length f < 4")
  case True
  then show ?thesis
    using length_nav_wire(2) [of "of_nat (length payload + 4)" c payload] by (simp add: encode_frame_def)
next
  case False
  let ?len = "of_nat (length payload + 4) :: u16"
  let ?e = "escaped (nav_body ?len c payload)"
  let ?f = "blit f 0 [0xaa, 0xf0]"
  have upd: "f[0 := 0xaa, 1 := 0xf0] = ?f"
    using False update_two_blit [of 0 f] by simp
  have res: "encode_frame (0xfe00 OR ucast c) (At a payload) (length payload) (At b f) (length f) (At d n) =
    (let (r, g, used) = append_all (nav_body ?len c payload) ?f (length f) 2
     in if r \<noteq> 0 then (-1, At b g, At d n)
        else if used + 2 > length f then (-1, At b g, At d n)
        else (0, At b (g[used := 0xaa, used + 1 := 0x0f]), At d (used + 2)))"
    using assms(1,2) False
    unfolding encode_frame_def ptr.sel store.simps upd take_all [OF order_refl]
      encode_frame_body Let_def encode_frame_nav_body
    by (subst if_not_P) auto
  have tail: "(blit f 0 ([0xaa, 0xf0] @ ?e))[length ?e + 2 := 0xaa, length ?e + 2 + 1 := 0x0f] =
      nav_wire ?len c payload @ drop (length ?e + 4) f" if "length ?e + 4 \<le> length f"
    using that blit_close [of "length ?e + 2" "[0xaa, 0xf0] @ ?e" f]
    by (simp add: nav_wire_def eval_nat_numeral)
  from append_all_spec [of "length f" ?f 2 "nav_body ?len c payload"] False
  consider "append_all (nav_body ?len c payload) ?f (length f) 2 =
        (0, blit f 0 ([0xaa, 0xf0] @ ?e), length ?e + 2)" "length ?e + 2 \<le> length f"
    | "fst (append_all (nav_body ?len c payload) ?f (length f) 2) = -1" "length f < length ?e + 2"
    by (auto simp: blit_blit_adjacent)
  then show ?thesis
    unfolding Let_def res [unfolded Let_def] length_nav_wire(1)
    by cases (use tail in \<open>auto simp only: case_prod_unfold fst_conv snd_conv simp_thms split: if_split\<close>)
qed

text \<open>The same with the command as a 16-bit number, and the one frame the tool produces.\<close>

lemma build_post_init_frame_result:
  assumes "length f = 64"
  shows "build_post_init_frame (At b f) FRAME_CAPACITY (At d n) =
    (0, At b (expected_post_init_frame @ drop 15 f), At d 15)"
proof -
  have wire: "nav_wire 9 5 post_init_payload = expected_post_init_frame"
    by (simp add: nav_wire_def nav_body_def mvcd_body_def put16_def sum_bytes_def sum32_def
        post_init_payload_def expected_post_init_frame_def escape_def)
  have "0xfe00 OR ucast (5 :: u8) = (0xfe05 :: u16)" by simp
  then show ?thesis
    using encode_frame_result [of post_init_payload 5 0 b f d n] wire assms
    by (simp add: build_post_init_frame_def FRAME_CAPACITY_def post_init_payload_def
        expected_post_init_frame_def eval_nat_numeral)
qed

section \<open>The recorder\<close>

lemma write_all_success: "write_all rs out ds = Some (0, new) \<Longrightarrow> new = out @ ds"
  by (induction rs out ds rule: write_all.induct) (auto split: if_splits)

lemma write_all_status: "write_all rs out ds = Some (r, new) \<Longrightarrow> r = 0 \<or> r = -1"
  by (induction rs out ds rule: write_all.induct) (auto split: if_splits)

text \<open>Interruptions apart, every call writes a byte or ends the loop.\<close>

lemma write_all_returns:
  "length ds \<le> length (filter (\<lambda>r. r \<noteq> Inl EINTR) rs) \<Longrightarrow> write_all rs out ds \<noteq> None"
proof (induction rs out ds rule: write_all.induct)
  case (4 n rs out d ds)
  show ?case
  proof (cases "n = 0")
    case False
    then have "length (drop n (d # ds)) \<le> length (filter (\<lambda>r. r \<noteq> Inl EINTR) rs)"
      using 4(2) by (cases n) auto
    then show ?thesis using 4(1) False by simp
  qed simp
qed (auto split: if_splits)



text \<open>The self test of the tool passes on every stack.\<close>

lemma self_test_passes: "length junk = 64 \<Longrightarrow> self_test junk = 0"
  by (simp add: self_test_def build_post_init_frame_result expected_post_init_frame_def)

end
