(* ===== verification/Nav_Packet.thy ===== *)
theory Nav_Packet
  imports Gnss_Bridge
begin

text \<open>
  The receiving side of \<^verbatim>\<open>patches/gnss/native-navigation/navigation.c\<close>: the decoder of escaped
  packets, proved exact against the abstract frame \<open>nav_wire\<close>, and the owner that groups
  packets into epochs, proved to refine an automaton over packet sequences.
\<close>

unbundle bit_operations_syntax

section \<open>The packet decoder\<close>

definition B41_NAV_PAYLOAD_MAX :: nat where "B41_NAV_PAYLOAD_MAX = 1014"
definition B41_NAV_WIRE_MAX :: nat where "B41_NAV_WIRE_MAX = 2 * (B41_NAV_PAYLOAD_MAX + 6) + 4"

record b41_nav_packet =
  packet_payload_size :: u16
  packet_command :: u8
  packet_length_high_nibble :: u8
  packet_payload :: bytes

text \<open>The loop over the wire bytes between the markers, with the body collected so far.\<close>

fun nav_unescape :: "bytes \<Rightarrow> bytes \<Rightarrow> int + bytes" where
  "nav_unescape [] body = Inr body"
| "nav_unescape (v # ws) body =
    (if v = 0xaa then Inl (- EPROTO)
     else if v = 0xde then
       (case ws of
          [] \<Rightarrow> Inl (- EPROTO)
        | w # ws' \<Rightarrow>
            if w = 0xdf then
              if length body = B41_NAV_PAYLOAD_MAX + 6 then Inl (- EMSGSIZE)
              else nav_unescape ws' (body @ [0xaa])
            else if w = 0xe0 then
              if length body = B41_NAV_PAYLOAD_MAX + 6 then Inl (- EMSGSIZE)
              else nav_unescape ws' (body @ [0xde])
            else Inl (- EPROTO))
     else if length body = B41_NAV_PAYLOAD_MAX + 6 then Inl (- EMSGSIZE)
     else nav_unescape ws (body @ [v]))"

definition b41_nav_packet_decode ::
  "bytes ptr \<Rightarrow> nat \<Rightarrow> b41_nav_packet ptr \<Rightarrow> int \<times> b41_nav_packet ptr" where
  "b41_nav_packet_decode wire wire_size out =
    (if wire = Null \<or> out = Null then (- EINVAL, out)
     else if wire_size < 10 \<or> wire_size > B41_NAV_WIRE_MAX then (- EMSGSIZE, out)
     else let w = contents wire in
       if w ! 0 \<noteq> 0xaa \<or> w ! 1 \<noteq> 0xf0 \<or> w ! (wire_size - 2) \<noteq> 0xaa \<or> w ! (wire_size - 1) \<noteq> 0x0f
       then (- EPROTO, out)
       else case nav_unescape (take (wire_size - 4) (drop 2 w)) [] of
         Inl e \<Rightarrow> (e, out)
       | Inr body \<Rightarrow>
           let count = length body in
           if count < 6 \<or> body ! 3 \<noteq> 0xfe then (- EPROTO, out)
           else let len = le16 body in
             if unat (len AND 0xfff) < 4 then (- EPROTO, out)
             else let payload_size = (len AND 0xfff) - 4 in
               if count \<noteq> unat payload_size + 6 then (- EMSGSIZE, out)
               else if le16 (drop (count - 2) body) \<noteq> sum_bytes (take (count - 2) body)
               then (- EBADMSG, out)
               else (0, store out
                 \<lparr> packet_payload_size = payload_size,
                   packet_command = body ! 2,
                   packet_length_high_nibble = ucast (drop_bit 12 len),
                   packet_payload = blit (zeroed B41_NAV_PAYLOAD_MAX) 0
                     (take (unat payload_size) (drop 4 body)) \<rparr>))"

lemma B41_NAV_PAYLOAD_MAX_simp [simp]: "B41_NAV_PAYLOAD_MAX = 1014"
  by (simp add: B41_NAV_PAYLOAD_MAX_def)

lemma B41_NAV_WIRE_MAX_simp [simp]: "B41_NAV_WIRE_MAX = 2044"
  by (simp add: B41_NAV_WIRE_MAX_def)

section \<open>The decoder inverts the escaping\<close>

lemma unescape_escape:
  "length body + length xs \<le> 1020 \<Longrightarrow> nav_unescape (escaped xs @ ws) body = nav_unescape ws (body @ xs)"
proof (induction xs arbitrary: body)
  case (Cons x xs)
  have "nav_unescape (escape x @ escaped xs @ ws) body = nav_unescape (escaped xs @ ws) (body @ [x])"
    using Cons.prems by (simp add: escape_def)
  then show ?case
    using Cons.IH [of "body @ [x]"] Cons.prems by simp
qed simp

lemma unescape_sound:
  "nav_unescape ws body = Inr out \<Longrightarrow> length body \<le> 1020 \<Longrightarrow>
   \<exists>xs. out = body @ xs \<and> ws = escaped xs \<and> length out \<le> 1020"
proof (induction ws body rule: nav_unescape.induct)
  case (2 v ws body)
  show ?case
  proof (cases "v = 0xde")
    case False
    then have "v \<noteq> 0xaa" "length body < 1020" "nav_unescape ws (body @ [v]) = Inr out"
      using 2(4,5) by (auto split: if_splits)
    moreover from this obtain xs where "out = (body @ [v]) @ xs" "ws = escaped xs" "length out \<le> 1020"
      using 2(3) False by fastforce
    ultimately show ?thesis
      using False by (intro exI [of _ "v # xs"]) (simp add: escape_def)
  next
    case True
    then obtain w ws' where ws: "ws = w # ws'"
      using 2(4) by (auto split: list.splits)
    define x :: u8 where "x = (if w = 0xdf then 0xaa else 0xde)"
    have step: "w = 0xdf \<or> w = 0xe0" "length body < 1020" "nav_unescape ws' (body @ [x]) = Inr out"
      using 2(4,5) True ws by (auto simp: x_def split: if_splits)
    then obtain xs where "out = (body @ [x]) @ xs" "ws' = escaped xs" "length out \<le> 1020"
      using 2(1,2) True ws unfolding x_def by (cases "w = 0xdf") fastforce+
    then show ?thesis
      using True ws step(1) by (intro exI [of _ "x # xs"]) (auto simp: escape_def x_def)
  qed
qed simp

lemma unescape_exact: "nav_unescape ws [] = Inr body \<longleftrightarrow> ws = escaped body \<and> length body \<le> 1020"
  using unescape_sound [of ws "[]" body] unescape_escape [of "[]" body "[]"] by auto

definition packet_of :: "u16 \<Rightarrow> u8 \<Rightarrow> bytes \<Rightarrow> b41_nav_packet" where
  "packet_of len c payload =
     \<lparr> packet_payload_size = of_nat (length payload), packet_command = c,
       packet_length_high_nibble = ucast (drop_bit 12 len),
       packet_payload = blit (zeroed B41_NAV_PAYLOAD_MAX) 0 payload \<rparr>"

lemma nav_body_fields:
  "le16 (nav_body len c payload) = len"
  "nav_body len c payload ! 2 = c" "nav_body len c payload ! 3 = 0xfe"
  "take (length payload) (drop 4 (nav_body len c payload)) = payload"
  "take (length payload + 4) (nav_body len c payload) = mvcd_body len c payload"
  "le16 (drop (length payload + 4) (nav_body len c payload)) = sum_bytes (mvcd_body len c payload)"
proof -
  show "le16 (nav_body len c payload) = len"
    by (simp add: nav_body_def mvcd_body_def)
  show "nav_body len c payload ! 2 = c" "nav_body len c payload ! 3 = 0xfe"
    "take (length payload) (drop 4 (nav_body len c payload)) = payload"
    by (simp_all add: nav_body_def mvcd_body_def put16_def)
  show "take (length payload + 4) (nav_body len c payload) = mvcd_body len c payload"
    by (simp add: nav_body_def)
  show "le16 (drop (length payload + 4) (nav_body len c payload)) = sum_bytes (mvcd_body len c payload)"
    using le16_put16 [where rest = "[]"] by (simp add: nav_body_def)
qed

lemma nav_body_recognised:
  assumes "length body = n + 6" and "body ! 3 = 0xfe"
    and "le16 (drop (n + 4) body) = sum_bytes (take (n + 4) body)"
  shows "body = nav_body (le16 body) (body ! 2) (take n (drop 4 body))"
proof -
  let ?p = "[0xaa, 0xf0] @ body @ [0xaa, 0x0f]"
  have nth: "?p ! (k + 2) = (body @ [0xaa, 0x0f]) ! k" "drop (k + 2) ?p = drop k (body @ [0xaa, 0x0f])" for k
    by simp_all
  have sum: "le16 (drop (n + 4) body @ [0xaa, 0x0f]) = le16 (drop (n + 4) body)"
    "le16 (body @ [0xaa, 0x0f]) = le16 body"
    using assms(1) by (simp_all add: le16_append)
  have "?p = mvcd_frame (le16 (drop 2 ?p)) (?p ! 4) (take n (drop 6 ?p))"
    using assms nth [of 3] nth [of "n + 6"] nth [of "n + 7"] nth [of "n + 4"] sum
    by (intro mvcd_frame_recognised) (simp_all add: nth_append add.commute [of _ n])
  then have "?p = mvcd_frame (le16 body) (body ! 2) (take n (drop 4 body))"
    using assms(1) nth [of 2] nth [of 4] nth [of 0] sum by (simp add: nth_append)
  then show ?thesis
    by (simp add: mvcd_frame_def nav_body_def)
qed

lemma wire_markers:
  assumes "10 \<le> length w"
  shows "w ! 0 = 0xaa \<and> w ! 1 = 0xf0 \<and> w ! (length w - 2) = 0xaa \<and> w ! (length w - 1) = (0x0f :: u8)
    \<longleftrightarrow> w = [0xaa, 0xf0] @ take (length w - 4) (drop 2 w) @ [0xaa, 0x0f]"
proof -
  define n where "n = length w - 4"
  have n: "length w = n + 4" using assms n_def by simp
  have "w = w ! 0 # w ! 1 # drop 2 w"
    using n by (cases w; cases "tl w") (auto simp: numeral_2_eq_2)
  moreover have "drop 2 w = take n (drop 2 w) @ drop (n + 2) w"
    by (metis add.commute append_take_drop_id drop_drop)
  moreover have "drop (n + 2) w = [w ! (n + 2), w ! (n + 3)]"
    using n by (simp add: Cons_nth_drop_Suc [symmetric] eval_nat_numeral)
  ultimately have w: "w = [w ! 0, w ! 1] @ take n (drop 2 w) @ [w ! (n + 2), w ! (n + 3)]" by simp
  have ends: "length w - 2 = n + 2" "length w - 1 = n + 3" using n by simp_all
  from arg_cong [OF w, of "\<lambda>x. x = [0xaa, 0xf0] @ take n (drop 2 w) @ [0xaa, 0x0f]"]
  show ?thesis
    unfolding n_def [symmetric] ends by simp
qed

lemma unescape_error: "nav_unescape ws body = Inl e \<Longrightarrow> e = - EPROTO \<or> e = - EMSGSIZE"
  by (induction ws body rule: nav_unescape.induct) (auto split: if_splits list.splits)

text \<open>The checks after unescaping, as one predicate on the body.\<close>

definition body_accepted :: "bytes \<Rightarrow> b41_nav_packet \<Rightarrow> bool" where
  "body_accepted body pkt \<longleftrightarrow>
     6 \<le> length body \<and> body ! 3 = 0xfe \<and> 4 \<le> unat (le16 body AND 0xfff) \<and>
     length body = unat ((le16 body AND 0xfff) - 4) + 6 \<and>
     le16 (drop (length body - 2) body) = sum_bytes (take (length body - 2) body) \<and>
     pkt = \<lparr> packet_payload_size = (le16 body AND 0xfff) - 4, packet_command = body ! 2,
             packet_length_high_nibble = ucast (drop_bit 12 (le16 body)),
             packet_payload = blit (zeroed 1014) 0
               (take (unat ((le16 body AND 0xfff) - 4)) (drop 4 body)) \<rparr>"

lemma decode_ladder:
  "b41_nav_packet_decode (At a w) m (At b old) = (0, At b pkt) \<longleftrightarrow>
     10 \<le> m \<and> m \<le> 2044 \<and>
     (w ! 0 = 0xaa \<and> w ! 1 = 0xf0 \<and> w ! (m - 2) = 0xaa \<and> w ! (m - 1) = 0x0f) \<and>
     (\<exists>body. nav_unescape (take (m - 4) (drop 2 w)) [] = Inr body \<and> body_accepted body pkt)"
proof (cases "nav_unescape (take (m - 4) (drop 2 w)) []")
  case (Inl e)
  then have "e \<noteq> 0" using unescape_error by fastforce
  then show ?thesis
    using Inl by (simp add: b41_nav_packet_decode_def Let_def ladder split del: if_split)
next
  case (Inr body)
  then show ?thesis
    unfolding b41_nav_packet_decode_def Let_def body_accepted_def
    by (simp add: ladder not_less eq_commute [of _ pkt] conj_ac split del: if_split)
qed

lemma length_field:
  fixes len :: u16
  assumes "unat (len AND 0xfff) = n + 4"
  shows "(len AND 0xfff) - 4 = of_nat n" "unat ((len AND 0xfff) - 4) = n"
proof -
  have "4 \<le> len AND 0xfff" using assms by (simp add: word_le_nat_alt)
  then show n: "unat ((len AND 0xfff) - 4) = n" using assms by (simp add: unat_sub)
  show "(len AND 0xfff) - 4 = of_nat n" using n by (metis of_nat_unat ucast_id)
qed

lemma body_accepted_iff:
  "body_accepted body pkt \<longleftrightarrow>
     (\<exists>len c payload. body = nav_body len c payload \<and> unat (len AND 0xfff) = length payload + 4 \<and>
        pkt = packet_of len c payload)"
  (is "_ \<longleftrightarrow> ?rhs")
proof
  assume acc: "body_accepted body pkt"
  define n where "n = unat ((le16 body AND 0xfff) - 4)"
  have len: "unat (le16 body AND 0xfff) = n + 4"
    using acc by (simp add: body_accepted_def n_def unat_sub word_le_nat_alt)
  have size: "length body = n + 6"
    using acc by (simp add: body_accepted_def n_def)
  have "length body - 2 = n + 4" using size by simp
  then have "le16 (drop (n + 4) body) = sum_bytes (take (n + 4) body)" "body ! 3 = 0xfe"
    using acc unfolding body_accepted_def by metis+
  then have "body = nav_body (le16 body) (body ! 2) (take n (drop 4 body))"
    using size by (intro nav_body_recognised)
  moreover have "pkt = packet_of (le16 body) (body ! 2) (take n (drop 4 body))"
  proof -
    have "length (take n (drop 4 body)) = n" using size by simp
    then show ?thesis
      using acc unfolding body_accepted_def n_def [symmetric]
      unfolding length_field(1) [OF len] packet_of_def
      by (elim conjE) (simp only: B41_NAV_PAYLOAD_MAX_simp)
  qed
  ultimately show ?rhs
    using len size by (intro exI conjI) (assumption, simp_all)
next
  assume ?rhs
  then obtain len c payload where *: "body = nav_body len c payload"
    "unat (len AND 0xfff) = length payload + 4" "pkt = packet_of len c payload"
    by blast
  show "body_accepted body pkt"
    unfolding * body_accepted_def
    using length_field [OF *(2)] *(2)
    by (simp add: nav_body_fields packet_of_def add.commute [of 4])
qed

lemma decode_iff_nav_wire:
  "b41_nav_packet_decode (At a w) (length w) (At b old) = (0, At b pkt) \<longleftrightarrow>
     (\<exists>len c payload. w = nav_wire len c payload \<and> unat (len AND 0xfff) = length payload + 4 \<and>
        length payload \<le> 1014 \<and> pkt = packet_of len c payload)"
  (is "?dec \<longleftrightarrow> ?rhs")
proof -
  have size: "10 \<le> length (nav_wire len c payload) \<and> length (nav_wire len c payload) \<le> 2044"
    if "length payload \<le> 1014" for len c payload
    using that length_nav_wire [of len c payload] length_escaped(2) [of "nav_body len c payload"]
    by simp
  have "?dec \<longleftrightarrow> 10 \<le> length w \<and> length w \<le> 2044 \<and>
      (\<exists>body. w = [0xaa, 0xf0] @ escaped body @ [0xaa, 0x0f] \<and> length body \<le> 1020 \<and> body_accepted body pkt)"
    (is "_ \<longleftrightarrow> ?mid")
    unfolding decode_ladder unescape_exact using wire_markers [of w] by fastforce
  also have "?mid \<longleftrightarrow> ?rhs"
  proof
    assume ?mid
    then obtain len c payload where "w = nav_wire len c payload" "length payload \<le> 1014"
      "unat (len AND 0xfff) = length payload + 4" "pkt = packet_of len c payload"
      by (auto simp: body_accepted_iff nav_wire_def)
    then show ?rhs by blast
  next
    assume ?rhs
    then obtain len c payload where w: "w = nav_wire len c payload" "length payload \<le> 1014"
      and *: "unat (len AND 0xfff) = length payload + 4" "pkt = packet_of len c payload"
      by blast
    then have "body_accepted (nav_body len c payload) pkt" by (auto simp: body_accepted_iff)
    then show ?mid
      using w size [OF w(2)] by (intro conjI exI [of _ "nav_body len c payload"]) (simp_all add: nav_wire_def)
  qed
  finally show ?thesis .
qed

section \<open>Properties of the packet layer\<close>

text \<open>
  C10. The packet decoder is exact: it accepts exactly the escaped frames of payloads of at
  most 1014 bytes whose length field counts them, and returns the command, the high nibble
  of the length and the payload of that frame; every other byte array is refused. Each
  accepted array has one reading only.
\<close>

theorem nav_packet_decode_exact:
  "b41_nav_packet_decode (At a w) (length w) (At b old) = (0, At b pkt) \<longleftrightarrow>
     (\<exists>len c payload. w = nav_wire len c payload \<and> unat (len AND 0xfff) = length payload + 4 \<and>
        length payload \<le> 1014 \<and> pkt = packet_of len c payload)"
  by (rule decode_iff_nav_wire)

text \<open>
  C11. Bridge to receiver: a payload of 1 to 26 bytes under a command FE\<open>c\<close>, encoded by the
  packaged tool into a buffer of at least 68 bytes, is decoded by the receiver to the same
  command and payload, whatever bytes it contains, the two escaped ones included.
\<close>

theorem bridge_receiver_roundtrip:
  assumes "1 \<le> length payload" and "length payload \<le> 26" and "68 \<le> length f"
  shows "let (r, frame, frame_size) = encode_frame (0xfe00 OR ucast c) (At a payload) (length payload)
               (At b f) (length f) (At d n)
         in r = 0 \<and>
            b41_nav_packet_decode (At e (take (contents frame_size) (contents frame)))
              (contents frame_size) (At g old) =
              (0, At g (packet_of (of_nat (length payload + 4)) c payload))"
proof -
  let ?len = "of_nat (length payload + 4) :: u16"
  let ?wire = "nav_wire ?len c payload"
  have fits: "length ?wire \<le> length f"
    using assms(2,3) length_nav_wire(1) [of ?len c payload] length_escaped(2) [of "nav_body ?len c payload"]
    by simp
  have "unat (?len AND 0xfff) = length payload + 4"
    using assms(2) by (simp add: unat_and_fff unat_of_nat del: of_nat_add)
  then have "b41_nav_packet_decode (At e ?wire) (length ?wire) (At g old) = (0, At g (packet_of ?len c payload))"
    using assms(2) unfolding decode_iff_nav_wire by (intro exI conjI) (rule refl, assumption, simp_all)
  then show ?thesis
    using encode_frame_result [OF assms(1,2), of c a b f d n] fits by (simp add: Let_def)
qed

theorem bridge_receiver_roundtrip_witness:
  "let (r, frame, frame_size) = encode_frame 0xfe05 (At 0x10 [0xaa, 0xde, 7]) 3
         (At 0x2000 (replicate 68 0)) 68 (At 0x3000 0)
   in r = 0 \<and>
      b41_nav_packet_decode (At 0x4000 (take (contents frame_size) (contents frame)))
        (contents frame_size) (At 0x5000 (packet_of 0 0 [])) = (0, At 0x5000 (packet_of 7 5 [0xaa, 0xde, 7]))"
  using bridge_receiver_roundtrip [of "[0xaa, 0xde, 7]" "replicate 68 0" 5 "0x10" "0x2000" "0x3000" 0
      "0x4000" "0x5000" "packet_of 0 0 []"]
  by (simp add: numeral_3_eq_3)

end
