(* ===== verification/Nav_Epoch.thy ===== *)
theory Nav_Epoch
  imports Nav_Packet
begin

text \<open>
  The epoch owner of \<^verbatim>\<open>patches/gnss/native-navigation/navigation.c\<close>: a nav_header packet opens a
  group, record packets fill it under one shared index, an end packet completes it. The owner
  is proved to refine an automaton on packet sequences, to keep its records well formed, and
  to hold on to its first error.
\<close>

unbundle bit_operations_syntax

section \<open>Data\<close>

definition half_le :: "bytes \<Rightarrow> u32" where
  "half_le p = push_bit 16 (ucast (le16 p)) OR ucast (le16 (drop 2 p))"

definition half_be :: "bytes \<Rightarrow> u32" where
  "half_be p = push_bit 24 (ucast (p ! 2)) OR push_bit 16 (ucast (p ! 3)) OR
               push_bit 8 (ucast (p ! 0)) OR ucast (p ! 1)"

record b41_nav_record41 =
  r41_bytes :: "u8 \<times> u8 \<times> u8 \<times> u8"
  r41_words :: "u32 list"

record b41_nav_record4d =
  r4d_prefix24 :: u32
  r4d_bytes :: "u8 \<times> u8 \<times> u8 \<times> u8"
  r4d_words :: "u32 list"

text \<open>The union of the two decoded forms; it keeps its zero bytes under other commands.\<close>

datatype nav_decoded = Undecoded | Fe41 b41_nav_record41 | Fe4d b41_nav_record4d

record b41_nav_record =
  rec_command :: u8
  rec_index :: u8
  rec_size :: u8
  rec_wire :: bytes
  rec_decoded :: nav_decoded

record b41_nav_epoch_end =
  end_byte0 :: u8
  end_byte9 :: u8
  end_word1 :: u32
  end_word5 :: u32

record b41_nav_epoch =
  nav_begin_ns :: u64
  nav_end_ns :: u64
  nav_header :: bytes
  nav_header_word0 :: u32
  nav_header_word4 :: u32
  nav_header_field8_9_44 :: u32
  nav_count :: u8
  nav_records :: "b41_nav_record list"
  nav_end :: b41_nav_epoch_end

record b41_nav_epoch_owner =
  nav_deadline_ns :: u64
  nav_last_ns :: u64
  nav_first_error :: int
  nav_active :: u32
  nav_pending :: b41_nav_epoch

definition B41_NAV_RECORD_MAX :: nat where [simp]: "B41_NAV_RECORD_MAX = 115"
definition B41_NAV_EPOCH_RECORDS :: nat where [simp]: "B41_NAV_EPOCH_RECORDS = 20"

definition zero_record :: b41_nav_record where
  "zero_record = \<lparr> rec_command = 0, rec_index = 0, rec_size = 0,
     rec_wire = zeroed B41_NAV_RECORD_MAX, rec_decoded = Undecoded \<rparr>"

definition zero_epoch :: b41_nav_epoch where
  "zero_epoch = \<lparr> nav_begin_ns = 0, nav_end_ns = 0, nav_header = zeroed 66, nav_header_word0 = 0, nav_header_word4 = 0,
     nav_header_field8_9_44 = 0, nav_count = 0, nav_records = replicate B41_NAV_EPOCH_RECORDS zero_record,
     nav_end = \<lparr> end_byte0 = 0, end_byte9 = 0, end_word1 = 0, end_word5 = 0 \<rparr> \<rparr>"

definition zero_owner :: b41_nav_epoch_owner where
  "zero_owner = \<lparr> nav_deadline_ns = 0, nav_last_ns = 0, nav_first_error = 0, nav_active = 0, nav_pending = zero_epoch \<rparr>"

text \<open>The sizes of the three structures under the LP64 layout.\<close>

definition sizeof_owner :: nat where [simp]: "sizeof_owner = 3496"
definition sizeof_packet :: nat where [simp]: "sizeof_packet = 1018"
definition sizeof_epoch :: nat where [simp]: "sizeof_epoch = 3472"

section \<open>Operations\<close>

definition nav_fail :: "b41_nav_epoch_owner \<Rightarrow> int \<Rightarrow> int \<times> b41_nav_epoch_owner" where
  "nav_fail owner error =
     (let owner = (if nav_first_error owner = 0 then owner\<lparr> nav_first_error := error \<rparr> else owner)
      in (nav_first_error owner, owner))"

definition b41_nav_epoch_init ::
  "b41_nav_epoch_owner ptr \<Rightarrow> u64 \<Rightarrow> u64 \<Rightarrow> int \<times> b41_nav_epoch_owner ptr" where
  "b41_nav_epoch_init owner now deadline =
    (if owner = Null then (- EINVAL, owner)
     else let s = contents owner in
       if nav_first_error s \<noteq> 0 then (nav_first_error s, owner)
       else if nav_deadline_ns s \<noteq> 0 \<or> nav_active s \<noteq> 0 then (- EALREADY, owner)
       else if now \<ge> deadline then (- ETIMEDOUT, owner)
       else (0, store owner (zero_owner\<lparr> nav_deadline_ns := deadline, nav_last_ns := now \<rparr>)))"

text \<open>Payload size and record limit of each command, from the switch statement.\<close>

definition command_limits :: "u8 \<Rightarrow> (nat \<times> nat) option" where
  "command_limits c =
    (if c = 0x2c then Some (66, 0) else if c = 0x4c then Some (10, 0)
     else if c = 0x2b then Some (46, 11) else if c = 0x3b then Some (14, 12)
     else if c = 0x41 then Some (32, 11) else if c = 0x4b then Some (47, 15)
     else if c = 0x4d then Some (47, 20) else if c = 0x5c then Some (113, 17)
     else if c = 0x91 then Some (115, 11) else None)"

definition open_epoch :: "bytes \<Rightarrow> u64 \<Rightarrow> b41_nav_epoch" where
  "open_epoch p now = zero_epoch\<lparr> nav_header := blit (zeroed 66) 0 (take 66 p),
     nav_header_word0 := half_le p, nav_header_word4 := half_le (drop 4 p),
     nav_header_field8_9_44 := push_bit 2 (ucast (p ! 8)) OR push_bit 10 (ucast (p ! 9)) OR
                           ucast (p ! 44 AND 3),
     nav_begin_ns := now \<rparr>"

definition close_epoch :: "b41_nav_epoch \<Rightarrow> bytes \<Rightarrow> u64 \<Rightarrow> b41_nav_epoch" where
  "close_epoch e p now = e\<lparr> nav_end := \<lparr> end_byte0 = p ! 0, end_byte9 = p ! 9,
       end_word1 = half_le (drop 1 p), end_word5 = half_le (drop 5 p) \<rparr>, nav_end_ns := now \<rparr>"

definition decode_record :: "u8 \<Rightarrow> bytes \<Rightarrow> nav_decoded \<Rightarrow> nav_decoded" where
  "decode_record c p old =
    (if c = 0x41 then
       Fe41 \<lparr> r41_bytes = (p ! 0, p ! 1, p ! 2, p ! 3),
              r41_words = map (\<lambda>i. half_be (drop (4 + 4 * i) p)) [0..<7] \<rparr>
     else if c = 0x4d then
       Fe4d \<lparr> r4d_prefix24 = push_bit 16 (ucast (p ! 0)) OR ucast (p ! 1) OR push_bit 8 (ucast (p ! 2)),
              r4d_bytes = (p ! 3, p ! 4, p ! 5, p ! 6),
              r4d_words = map (\<lambda>i. half_le (drop (7 + 4 * i) p)) [0..<10] \<rparr>
     else old)"

definition fill_record :: "b41_nav_record \<Rightarrow> u8 \<Rightarrow> u8 \<Rightarrow> nat \<Rightarrow> bytes \<Rightarrow> b41_nav_record" where
  "fill_record r c index sz p =
    r\<lparr> rec_command := c, rec_index := index, rec_size := of_nat sz,
       rec_wire := blit (rec_wire r) 0 (take sz p), rec_decoded := decode_record c p (rec_decoded r) \<rparr>"

definition append_record :: "b41_nav_epoch \<Rightarrow> u8 \<Rightarrow> nat \<Rightarrow> bytes \<Rightarrow> b41_nav_epoch" where
  "append_record e c sz p =
    (let n = unat (nav_count e); r = fill_record (nav_records e ! n) c (nav_count e) sz p
     in e\<lparr> nav_records := (nav_records e)[n := r], nav_count := nav_count e + 1 \<rparr>)"

definition b41_nav_epoch_accept ::
  "b41_nav_epoch_owner ptr \<Rightarrow> b41_nav_packet ptr \<Rightarrow> u64 \<Rightarrow> b41_nav_epoch ptr \<Rightarrow>
   int \<times> b41_nav_epoch_owner ptr \<times> b41_nav_epoch ptr" where
  "b41_nav_epoch_accept owner packet now complete =
    (if owner = Null \<or> packet = Null \<or> complete = Null \<or>
        overlaps owner sizeof_owner packet sizeof_packet \<or>
        overlaps owner sizeof_owner complete sizeof_epoch
     then (- EINVAL, owner, complete)
     else let s = contents owner; q = contents packet; c = packet_command q; p = packet_payload q;
              fails = (\<lambda>t error. let (r, t) = nav_fail t error in (r, store owner t, complete)) in
       if nav_first_error s \<noteq> 0 then (nav_first_error s, owner, complete)
       else if now < nav_last_ns s then fails s (- ESTALE)
       else if now \<ge> nav_deadline_ns s then fails s (- ETIMEDOUT)
       else case command_limits c of
         None \<Rightarrow> fails s (- EOPNOTSUPP)
       | Some (sz, maximum) \<Rightarrow>
           if unat (packet_payload_size q) \<noteq> sz then fails s (- EMSGSIZE)
           else if (if c = 0x2c then nav_active s \<noteq> 0 else nav_active s \<noteq> 1) then fails s (- EPROTO)
           else let s = s\<lparr> nav_last_ns := now \<rparr> in
             if c = 0x2c then
               (0, store owner (s\<lparr> nav_pending := open_epoch p now, nav_active := 1 \<rparr>), complete)
             else if c = 0x4c then
               let e = close_epoch (nav_pending s) p now
               in (1, store owner (s\<lparr> nav_pending := e, nav_active := 0 \<rparr>), store complete e)
             else let e = nav_pending s; n = unat (nav_count e) in
               if n \<ge> maximum \<or> n \<ge> B41_NAV_EPOCH_RECORDS then fails s (- EOVERFLOW)
               else (0, store owner (s\<lparr> nav_pending := append_record e c sz p \<rparr>), complete))"

section \<open>The grouping automaton\<close>

type_synonym nav_item = "u8 \<times> bytes"

datatype nav_group = Idle | Open bytes "nav_item list"
datatype nav_verdict = Refused int | Grouped nav_group | Completed bytes "nav_item list" bytes

fun group_step :: "nav_group \<Rightarrow> nav_item \<Rightarrow> nav_verdict" where
  "group_step g (c, p) =
    (case command_limits c of
       None \<Rightarrow> Refused (- EOPNOTSUPP)
     | Some (sz, maximum) \<Rightarrow>
         if length p \<noteq> sz then Refused (- EMSGSIZE)
         else case g of
           Idle \<Rightarrow> if c = 0x2c then Grouped (Open p []) else Refused (- EPROTO)
         | Open h rs \<Rightarrow>
             if c = 0x2c then Refused (- EPROTO)
             else if c = 0x4c then Completed h rs p
             else if length rs \<ge> maximum then Refused (- EOVERFLOW)
             else Grouped (Open h (rs @ [(c, p)])))"

definition packet_item :: "b41_nav_packet \<Rightarrow> nav_item" where
  "packet_item q = (packet_command q, take (unat (packet_payload_size q)) (packet_payload q))"

definition record_item :: "b41_nav_record \<Rightarrow> nav_item" where
  "record_item r = (rec_command r, take (unat (rec_size r)) (rec_wire r))"

definition epoch_items :: "b41_nav_epoch \<Rightarrow> nav_item list" where
  "epoch_items e = map record_item (take (unat (nav_count e)) (nav_records e))"

definition owner_group :: "b41_nav_epoch_owner \<Rightarrow> nav_group" where
  "owner_group s = (if nav_active s = 0 then Idle
     else Open (nav_header (nav_pending s)) (epoch_items (nav_pending s)))"

section \<open>The invariant\<close>

text \<open>
  A filled record carries its position, a known record command and the size of that command,
  and its decoded form is the decoding of its own wire bytes.
\<close>

definition record_ok :: "nat \<Rightarrow> b41_nav_record \<Rightarrow> bool" where
  "record_ok i r \<longleftrightarrow> length (rec_wire r) = 115 \<and> unat (rec_index r) = i \<and>
     (\<exists>maximum. command_limits (rec_command r) = Some (unat (rec_size r), maximum) \<and> i < maximum) \<and>
     rec_decoded r = decode_record (rec_command r) (rec_wire r) Undecoded"

definition epoch_ok :: "b41_nav_epoch \<Rightarrow> bool" where
  "epoch_ok e \<longleftrightarrow> length (nav_header e) = 66 \<and> length (nav_records e) = 20 \<and> unat (nav_count e) \<le> 20 \<and>
     (\<forall>i < unat (nav_count e). record_ok i (nav_records e ! i)) \<and>
     (\<forall>i < 20. unat (nav_count e) \<le> i \<longrightarrow> nav_records e ! i = zero_record)"

definition owner_ok :: "b41_nav_epoch_owner \<Rightarrow> bool" where
  "owner_ok s \<longleftrightarrow> (nav_active s = 0 \<or> nav_active s = 1) \<and> epoch_ok (nav_pending s) \<and>
     (nav_active s = 1 \<longrightarrow> nav_begin_ns (nav_pending s) \<le> nav_last_ns s)"

lemma command_limits_bounds:
  "command_limits c = Some (sz, maximum) \<Longrightarrow> 10 \<le> sz \<and> sz \<le> 115 \<and> maximum \<le> 20 \<and>
     (maximum = 0 \<longleftrightarrow> c = 0x2c \<or> c = 0x4c)"
  by (auto simp: command_limits_def split: if_splits)

lemma command_limits_header: "command_limits 0x2c = Some (66, 0)" "command_limits 0x4c = Some (10, 0)"
  by (simp_all add: command_limits_def)

lemma decode_record_take:
  assumes "command_limits c = Some (sz, maximum)"
    and "take sz p = take sz w" and "sz \<le> length p" and "sz \<le> length w"
  shows "decode_record c p old = decode_record c w old"
proof -
  have nth: "p ! i = w ! i" if "i < sz" for i
    using assms(2) that by (metis nth_take)
  show ?thesis
  proof (cases "c = 0x41 \<or> c = 0x4d")
    case True
    then have "sz = 32 \<and> c = 0x41 \<or> sz = 47 \<and> c = 0x4d"
      using assms(1) by (auto simp: command_limits_def)
    then show ?thesis
      using assms(3,4) nth
      by (auto simp: decode_record_def half_be_def half_le_def le16_def)
  qed (simp add: decode_record_def)
qed

lemma epoch_ok_zero: "epoch_ok zero_epoch"
  by (simp add: epoch_ok_def zero_epoch_def)

lemma owner_ok_zero: "owner_ok zero_owner"
  by (simp add: owner_ok_def zero_owner_def epoch_ok_zero)

lemma epoch_ok_open: "66 \<le> length p \<Longrightarrow> epoch_ok (open_epoch p now)"
  using epoch_ok_zero by (simp add: epoch_ok_def open_epoch_def)

lemma epoch_items_open: "epoch_items (open_epoch p now) = []"
  by (simp add: epoch_items_def open_epoch_def zero_epoch_def)

lemma append_record_ok:
  assumes e: "epoch_ok e" and c: "command_limits c = Some (sz, maximum)"
    and n: "unat (nav_count e) < maximum" and p: "sz \<le> length p"
  shows "epoch_ok (append_record e c sz p)"
    and "epoch_items (append_record e c sz p) = epoch_items e @ [(c, take sz p)]"
    and "nav_header (append_record e c sz p) = nav_header e"
    and "nav_begin_ns (append_record e c sz p) = nav_begin_ns e"
proof -
  let ?n = "unat (nav_count e)"
  let ?r = "fill_record (nav_records e ! ?n) c (nav_count e) sz p"
  let ?e = "append_record e c sz p"
  have bounds: "sz \<le> 115" "maximum \<le> 20" using command_limits_bounds [OF c] by simp_all
  have slot: "nav_records e ! ?n = zero_record" "length (nav_records e) = 20" "?n < 20"
    using e n bounds(2) by (simp_all add: epoch_ok_def)
  have r: "?r = \<lparr> rec_command = c, rec_index = nav_count e, rec_size = of_nat sz,
      rec_wire = take sz p @ drop sz (zeroed 115), rec_decoded = decode_record c p Undecoded \<rparr>"
    using p unfolding slot(1) by (simp add: fill_record_def zero_record_def blit_def min_def)
  have size: "unat (of_nat sz :: u8) = sz" using bounds(1) by (simp add: unat_of_nat)
  have "decode_record c p Undecoded = decode_record c (take sz p @ drop sz (zeroed 115)) Undecoded"
    using p bounds(1) by (intro decode_record_take [OF c]) simp_all
  then have rok: "record_ok ?n ?r"
    using c n p bounds(1) size unfolding r record_ok_def by simp
  have suc: "unat (nav_count e + 1) = Suc ?n"
    using slot(3) by (simp add: unat_word_ariths)
  show "epoch_ok ?e"
    using e rok slot(2,3) suc
    by (auto simp: epoch_ok_def append_record_def Let_def nth_list_update less_Suc_eq)
  have "take (Suc ?n) ((nav_records e)[?n := ?r]) = take ?n (nav_records e) @ [?r]"
    using slot by (simp add: take_Suc_conv_app_nth)
  then show "epoch_items ?e = epoch_items e @ [(c, take sz p)]"
    using p size suc r by (simp add: epoch_items_def append_record_def Let_def record_item_def)
qed (simp_all add: append_record_def Let_def)

section \<open>Properties\<close>

lemma accept_frame:
  assumes "\<not> overlaps (At a s) sizeof_owner (At b q) sizeof_packet"
    and "\<not> overlaps (At a s) sizeof_owner (At k old) sizeof_epoch"
    and "nav_first_error s = 0" and "nav_last_ns s \<le> now" and "now < nav_deadline_ns s"
    and "command_limits (packet_command q) = Some (sz, maximum)"
    and "unat (packet_payload_size q) = sz"
  shows "b41_nav_epoch_accept (At a s) (At b q) now (At k old) =
    (let c = packet_command q; p = packet_payload q; t = s\<lparr> nav_last_ns := now \<rparr>;
         n = unat (nav_count (nav_pending s)) in
     if (if c = 0x2c then nav_active s \<noteq> 0 else nav_active s \<noteq> 1)
     then (- EPROTO, At a (s\<lparr> nav_first_error := - EPROTO \<rparr>), At k old)
     else if c = 0x2c then (0, At a (t\<lparr> nav_pending := open_epoch p now, nav_active := 1 \<rparr>), At k old)
     else if c = 0x4c then let e = close_epoch (nav_pending s) p now
       in (1, At a (t\<lparr> nav_pending := e, nav_active := 0 \<rparr>), At k e)
     else if n \<ge> maximum \<or> n \<ge> 20 then (- EOVERFLOW, At a (t\<lparr> nav_first_error := - EOVERFLOW \<rparr>), At k old)
     else (0, At a (t\<lparr> nav_pending := append_record (nav_pending s) c sz p \<rparr>), At k old))"
proof -
  have time: "\<not> now < nav_last_ns s" "\<not> nav_deadline_ns s \<le> now"
    using assms(4,5) by (simp_all add: not_less not_le)
  show ?thesis
    using assms(1-3,6,7)
    by (simp add: b41_nav_epoch_accept_def Let_def nav_fail_def time split del: if_split cong: if_cong)
qed

definition refines_verdict ::
  "nav_verdict \<Rightarrow> int \<Rightarrow> b41_nav_epoch_owner \<Rightarrow> b41_nav_epoch ptr \<Rightarrow> b41_nav_epoch ptr \<Rightarrow> bool" where
  "refines_verdict v r t old out =
    (owner_ok t \<and>
     (case v of
        Refused e \<Rightarrow> r = e \<and> nav_first_error t = e \<and> out = old
      | Grouped g \<Rightarrow> r = 0 \<and> nav_first_error t = 0 \<and> owner_group t = g \<and> out = old
      | Completed h rs p \<Rightarrow> r = 1 \<and> nav_first_error t = 0 \<and> owner_group t = Idle \<and>
          epoch_ok (contents out) \<and> nav_header (contents out) = h \<and> epoch_items (contents out) = rs \<and>
          nav_end (contents out) = \<lparr> end_byte0 = p ! 0, end_byte9 = p ! 9,
            end_word1 = half_le (drop 1 p), end_word5 = half_le (drop 5 p) \<rparr>))"

lemma owner_ok_fields:
  "owner_ok (s\<lparr> nav_first_error := e \<rparr>) = owner_ok s"
  "owner_ok s \<Longrightarrow> nav_last_ns s \<le> now \<Longrightarrow> owner_ok (s\<lparr> nav_last_ns := now \<rparr>)"
  by (auto simp: owner_ok_def)

lemma close_epoch_fields [simp]:
  "epoch_ok (close_epoch e p now) = epoch_ok e" "nav_header (close_epoch e p now) = nav_header e"
  "epoch_items (close_epoch e p now) = epoch_items e"
  "nav_end (close_epoch e p now) = \<lparr> end_byte0 = p ! 0, end_byte9 = p ! 9,
     end_word1 = half_le (drop 1 p), end_word5 = half_le (drop 5 p) \<rparr>"
  by (simp_all add: close_epoch_def epoch_ok_def epoch_items_def)

lemma length_epoch_items: "epoch_ok e \<Longrightarrow> length (epoch_items e) = unat (nav_count e)"
  by (simp add: epoch_items_def epoch_ok_def)

text \<open>The branches behind the size check.\<close>

lemma accept_sized_refines:
  assumes "owner_ok s" and "nav_first_error s = 0"
    and "nav_last_ns s \<le> now" and "now < nav_deadline_ns s"
    and "\<not> overlaps (At a s) sizeof_owner (At b q) sizeof_packet"
    and "\<not> overlaps (At a s) sizeof_owner (At k old) sizeof_epoch"
    and "length (packet_payload q) = 1014"
    and c: "command_limits (packet_command q) = Some (sz, maximum)"
    and sz: "unat (packet_payload_size q) = sz"
  shows "case b41_nav_epoch_accept (At a s) (At b q) now (At k old) of (r, t, out) \<Rightarrow>
    refines_verdict (group_step (owner_group s) (packet_item q)) r (contents t) (At k old) out"
proof -
  let ?c = "packet_command q" and ?p = "packet_payload q" and ?e = "nav_pending s"
  note bounds = command_limits_bounds [OF c]
  have item: "length (take sz ?p) = sz" "packet_item q = (?c, take sz ?p)"
    using sz bounds assms(7) by (simp_all add: packet_item_def)
  note run = accept_frame [OF assms(5,6,2,3,4) c sz]
  have e: "epoch_ok ?e" "nav_active s = 0 \<or> nav_active s = 1"
    "nav_active s = 1 \<Longrightarrow> nav_begin_ns ?e \<le> nav_last_ns s"
    using assms(1) by (auto simp: owner_ok_def)
  have t: "owner_ok (s\<lparr> nav_last_ns := now \<rparr>)" using owner_ok_fields(2) assms(1,3) by blast
  consider "?c = 0x2c" | "?c = 0x4c" | "?c \<noteq> 0x2c" "?c \<noteq> 0x4c" by blast
  then show ?thesis
  proof cases
    case 1
    then have sz66: "sz = 66" using c by (simp add: command_limits_def)
    then have "owner_ok (s\<lparr> nav_last_ns := now, nav_pending := open_epoch ?p now, nav_active := 1 \<rparr>)"
      using epoch_ok_open [of ?p now] assms(7) by (simp add: owner_ok_def open_epoch_def)
    moreover have "nav_header (open_epoch ?p now) = take 66 ?p"
      using assms(7) by (simp add: open_epoch_def blit_def)
    ultimately show ?thesis
      using 1 e item sz66 assms(1,2) c
      unfolding run
      by (simp add: Let_def refines_verdict_def owner_group_def owner_ok_fields epoch_items_open command_limits_header)
  next
    case 2
    then have sz10: "sz = 10" using c by (simp add: command_limits_def)
    have "owner_ok (s\<lparr> nav_last_ns := now, nav_pending := close_epoch ?e ?p now, nav_active := 0 \<rparr>)"
      using e by (simp add: owner_ok_def)
    moreover have "half_le (drop 1 (take 10 ?p)) = half_le (drop 1 ?p)"
      "half_le (drop 5 (take 10 ?p)) = half_le (drop 5 ?p)"
      using assms(7) by (simp_all add: half_le_def le16_def)
    ultimately show ?thesis
      using 2 e item sz10 assms(1,2) c
      unfolding run
      by (auto simp add: Let_def refines_verdict_def owner_group_def owner_ok_fields command_limits_header)
  next
    case 3
    show ?thesis
    proof (cases "nav_active s = 1 \<and> unat (nav_count ?e) < maximum")
      case True
      have p: "sz \<le> length ?p" using bounds assms(7) by simp
      note app = append_record_ok [OF e(1) c _ p]
      have "owner_ok (s\<lparr> nav_last_ns := now, nav_pending := append_record ?e ?c sz ?p \<rparr>)"
        using app True e assms(3) by (auto simp: owner_ok_def)
      then show ?thesis
        using 3 True bounds item c app e assms(2) unfolding run
        by (simp add: Let_def refines_verdict_def owner_group_def length_epoch_items)
    next
      case False
      then show ?thesis
        using 3 bounds item c e t assms(1,2) unfolding run
        by (auto simp add: Let_def refines_verdict_def owner_group_def length_epoch_items owner_ok_fields)
    qed
  qed
qed

lemma nav_step_refines:
  assumes "owner_ok s" and "nav_first_error s = 0"
    and "nav_last_ns s \<le> now" and "now < nav_deadline_ns s"
    and "\<not> overlaps (At a s) sizeof_owner (At b q) sizeof_packet"
    and "\<not> overlaps (At a s) sizeof_owner (At k old) sizeof_epoch"
    and "length (packet_payload q) = 1014"
  shows "case b41_nav_epoch_accept (At a s) (At b q) now (At k old) of (r, t, out) \<Rightarrow>
    refines_verdict (group_step (owner_group s) (packet_item q)) r (contents t) (At k old) out"
proof -
  let ?c = "packet_command q" and ?p = "packet_payload q" and ?n = "unat (packet_payload_size q)"
  have time: "\<not> now < nav_last_ns s" "\<not> nav_deadline_ns s \<le> now"
    using assms(3,4) by (simp_all add: not_less not_le)
  consider "command_limits ?c = None"
    | sz maximum where "command_limits ?c = Some (sz, maximum)" "?n \<noteq> sz"
    | sz maximum where "command_limits ?c = Some (sz, maximum)" "?n = sz"
    by (cases "command_limits ?c") auto
  then show ?thesis
  proof cases
    case 1
    then show ?thesis
      using assms time
      by (simp add: b41_nav_epoch_accept_def nav_fail_def packet_item_def refines_verdict_def owner_ok_fields)
  next
    case (2 sz maximum)
    then have "length (snd (packet_item q)) \<noteq> sz"
      using command_limits_bounds [OF 2(1)] assms(7) by (auto simp: packet_item_def)
    then show ?thesis
      using assms time 2
      by (simp add: b41_nav_epoch_accept_def nav_fail_def packet_item_def refines_verdict_def owner_ok_fields)
  next
    case (3 sz maximum)
    show ?thesis
      using assms 3 by (intro accept_sized_refines)
  qed
qed

text \<open>
  C12. The epoch owner refines the grouping automaton: on a packet that arrives in time, the
  status, the new group and the completed epoch are those of the automaton, which collects the
  records between a header and an end packet in their order, with one shared index bound by
  the limit of each command, and refuses every other sequence with the error of its branch.
  The invariant is kept on every branch, and only completion writes the output.
\<close>

theorem nav_epoch_accept_refines:
  assumes "owner_ok s" and "nav_first_error s = 0"
    and "nav_last_ns s \<le> now" and "now < nav_deadline_ns s"
    and "\<not> overlaps (At a s) sizeof_owner (At b q) sizeof_packet"
    and "\<not> overlaps (At a s) sizeof_owner (At k old) sizeof_epoch"
    and "length (packet_payload q) = 1014"
  shows "case b41_nav_epoch_accept (At a s) (At b q) now (At k old) of (r, t, out) \<Rightarrow>
    refines_verdict (group_step (owner_group s) (packet_item q)) r (contents t) (At k old) out"
  using assms by (rule nav_step_refines)

theorem nav_epoch_accept_refines_witness:
  "case b41_nav_epoch_accept (At 0x10000 (zero_owner\<lparr> nav_deadline_ns := 100 \<rparr>))
      (At 0x20000 (packet_of 70 0x2c (replicate 66 9))) 5 (At 0x30000 zero_epoch) of (r, t, out) \<Rightarrow>
     refines_verdict (Grouped (Open (replicate 66 9) [])) r (contents t) (At 0x30000 zero_epoch) out"
proof -
  have "group_step (owner_group (zero_owner\<lparr> nav_deadline_ns := 100 \<rparr>))
      (packet_item (packet_of 70 0x2c (replicate 66 9))) = Grouped (Open (replicate 66 9) [])"
    by (simp add: owner_group_def zero_owner_def packet_item_def packet_of_def command_limits_header blit_def)
  moreover have "owner_ok (zero_owner\<lparr> nav_deadline_ns := 100 \<rparr>)"
    using owner_ok_zero by (simp add: owner_ok_def)
  ultimately show ?thesis
    using nav_epoch_accept_refines [of "zero_owner\<lparr> nav_deadline_ns := 100 \<rparr>" 5 "0x10000" "0x20000"
        "packet_of 70 0x2c (replicate 66 9)" "0x30000" zero_epoch]
    by (simp add: zero_owner_def overlaps_def packet_of_def)
qed

section \<open>Sequences of packets\<close>

text \<open>One decoded packet handed to the owner, with the three objects at distinct addresses.\<close>

definition nav_deliver :: "(u16 \<times> u8 \<times> bytes) \<times> u64 \<Rightarrow> b41_nav_epoch_owner \<Rightarrow> b41_nav_epoch_owner \<times> int" where
  "nav_deliver op s =
    (let ((len, c, payload), now) = op;
         (r, t, out) = b41_nav_epoch_accept (At 0x10000 s)
           (At 0x20000 (packet_of len c (take 1014 payload))) now (At 0x30000 zero_epoch)
     in (contents t, r))"

lemma nav_deliver_apart:
  "\<not> overlaps (At 0x10000 s) sizeof_owner (At 0x20000 q) sizeof_packet"
  "\<not> overlaps (At 0x10000 s) sizeof_owner (At 0x30000 e) sizeof_epoch"
  by (simp_all add: overlaps_def)

lemma nav_deliver_failed: "nav_first_error s \<noteq> 0 \<Longrightarrow> nav_deliver op s = (s, nav_first_error s)"
  by (simp add: nav_deliver_def b41_nav_epoch_accept_def overlaps_def split: prod.split)

lemma nav_deliver_ok:
  assumes "owner_ok s"
  shows "owner_ok (fst (nav_deliver op s))"
proof -
  obtain len c payload now where op: "op = ((len, c, payload), now)"
    by (metis prod.exhaust)
  let ?q = "packet_of len c (take 1014 payload)"
  let ?a = "b41_nav_epoch_accept (At 0x10000 s) (At 0x20000 ?q) now (At 0x30000 zero_epoch)"
  have q: "length (packet_payload ?q) = 1014" by (simp add: packet_of_def)
  consider "nav_first_error s \<noteq> 0" | "nav_first_error s = 0" "now < nav_last_ns s \<or> nav_deadline_ns s \<le> now"
    | "nav_first_error s = 0" "nav_last_ns s \<le> now" "now < nav_deadline_ns s"
    by fastforce
  then show ?thesis
  proof cases
    case 1
    then show ?thesis using assms by (simp add: nav_deliver_failed)
  next
    case 2
    then show ?thesis
      using assms
      by (auto simp: nav_deliver_def op b41_nav_epoch_accept_def nav_fail_def owner_ok_fields
          overlaps_def Let_def)
  next
    case 3
    obtain r t out where run: "?a = (r, t, out)" by (metis prod.exhaust)
    have "owner_ok (contents t)"
      using nav_step_refines [OF assms 3 nav_deliver_apart(1) nav_deliver_apart(2) [of _ zero_epoch] q] run
      by (simp add: refines_verdict_def)
    then show ?thesis using run by (simp add: nav_deliver_def op)
  qed
qed

interpretation nav_latch: reporting_owner nav_deliver "\<lambda>s. nav_first_error s \<noteq> 0" nav_first_error
  by unfold_locales (simp_all add: nav_deliver_failed)

interpretation nav_kept: invariant_owner nav_deliver owner_ok
  by unfold_locales (rule nav_deliver_ok)

text \<open>
  C13. Whatever packets arrive at whatever times after initialisation, the owner's records stay
  well formed: at most twenty, each with its own position as index, a known command, that
  command's size and the decoding of its own bytes. And the first error is final: every
  later packet returns it.
\<close>

theorem nav_epoch_run_ok:
  assumes "b41_nav_epoch_init (At a zero_owner) now deadline = (0, At a s)"
  shows "let t = fst (run_ops nav_deliver ops s) in
    owner_ok t \<and>
    (nav_first_error t \<noteq> 0 \<longrightarrow> set (snd (run_ops nav_deliver later t)) \<subseteq> {nav_first_error t})"
proof -
  have "s = zero_owner\<lparr> nav_deadline_ns := deadline, nav_last_ns := now \<rparr>"
    using assms by (auto simp: b41_nav_epoch_init_def Let_def split: if_splits)
  then have "owner_ok s"
    using owner_ok_zero by (simp add: owner_ok_def zero_owner_def)
  then show ?thesis
    using nav_kept.inv_run nav_latch.reports_run unfolding Let_def by blast
qed

theorem nav_epoch_run_ok_witness:
  "let t = fst (run_ops nav_deliver [((70, 0x2c, replicate 66 1), 7), ((0, 0x99, []), 8)]
       (zero_owner\<lparr> nav_deadline_ns := 100, nav_last_ns := 3 \<rparr>)) in
   owner_ok t \<and>
   (nav_first_error t \<noteq> 0 \<longrightarrow>
      set (snd (run_ops nav_deliver [((70, 0x2c, replicate 66 1), 9)] t)) \<subseteq> {nav_first_error t})"
  by (rule nav_epoch_run_ok [where a = "0x1000" and now = 3 and deadline = 100])
    (simp add: b41_nav_epoch_init_def zero_owner_def)

end
