(* ===== verification/Binary_Float.thy ===== *)
theory Binary_Float
  imports Tetris_Prelude Complex_Main "HOL-Library.Log_Nat"
begin

text \<open>
  IEEE 754 arithmetic in round-to-nearest-even, as the sources use it: a finite binary32 or
  binary64 number is the rational it denotes, and an operation is the exact rational result
  rounded to 24 or 53 significant bits. The values that occur are far from the overflow
  threshold of either format, so rounding is modelled without it; the lower exponent bound of
  the formats is kept.
\<close>

section \<open>Rounding\<close>

definition round_even :: "rat \<Rightarrow> int" where
  "round_even x =
    (let f = \<lfloor>x\<rfloor>; d = x - of_int f
     in if d < 1/2 then f else if d > 1/2 then f + 1 else if even f then f else f + 1)"

definition exponent2 :: "rat \<Rightarrow> int" where
  "exponent2 x =
    (let (a, b) = quotient_of \<bar>x\<bar>; k = int (floorlog 2 (nat a)) - int (floorlog 2 (nat b))
     in if 2 powi k \<le> \<bar>x\<bar> then k else k - 1)"

definition fl :: "nat \<Rightarrow> int \<Rightarrow> rat \<Rightarrow> rat" where
  "fl precision minimum x =
    (if x = 0 then 0
     else let e = max (exponent2 x - int precision + 1) minimum
          in of_int (round_even (x / 2 powi e)) * 2 powi e)"

definition fl32 :: "rat \<Rightarrow> rat" where "fl32 = fl 24 (- 149)"
definition fl64 :: "rat \<Rightarrow> rat" where "fl64 = fl 53 (- 1074)"

text \<open>A number of the format: an integer of at most \<open>p\<close> bits times a power of two.\<close>

definition is_float :: "nat \<Rightarrow> rat \<Rightarrow> bool" where
  "is_float p x \<longleftrightarrow> (\<exists>m e. \<bar>m\<bar> \<le> (2 :: int) ^ p \<and> x = of_int m * 2 powi e)"

lemma round_even_near: "\<bar>of_int (round_even x) - x\<bar> \<le> 1/2"
proof -
  have "0 \<le> x - of_int \<lfloor>x\<rfloor>" "x - of_int \<lfloor>x\<rfloor> < 1" by linarith+
  then show ?thesis
    by (auto simp: round_even_def Let_def abs_le_iff)
qed

lemma round_even_of_int [simp]: "round_even (of_int n) = n"
  by (simp add: round_even_def)

lemma round_even_le: "x \<le> of_int n \<Longrightarrow> round_even x \<le> n"
  using round_even_near [of x] by linarith

lemma floorlog2_bounds:
  assumes "0 < n"
  shows "2 ^ (floorlog 2 n - 1) \<le> n" "n < 2 ^ floorlog 2 n" "0 < floorlog 2 n"
  using assms floorlog_bounds [of n 2] by (simp_all add: floorlog_def)

lemma of_int_pow2_le:
  "(i :: int) \<le> 2 ^ k \<Longrightarrow> (of_int i :: rat) \<le> 2 ^ k" "(i :: int) < 2 ^ k \<Longrightarrow> (of_int i :: rat) < 2 ^ k"
  "2 ^ k \<le> (i :: int) \<Longrightarrow> 2 ^ k \<le> (of_int i :: rat)"
  using of_int_le_iff [of i "2 ^ k", where ?'a = rat] of_int_less_iff [of i "2 ^ k", where ?'a = rat]
    of_int_le_iff [of "2 ^ k" i, where ?'a = rat]
  by simp_all

lemma pow2_ratio: "(2 powi (int m - int n) :: rat) = 2 ^ m / 2 ^ n"
  by (simp add: power_int_diff)

text \<open>\<open>exponent2\<close> is the binary exponent of its argument.\<close>

lemma exponent2_bounds:
  assumes "x \<noteq> 0"
  shows "2 powi exponent2 x \<le> \<bar>x\<bar>" "\<bar>x\<bar> < 2 powi (exponent2 x + 1)"
proof -
  obtain a b where ab: "quotient_of \<bar>x\<bar> = (a, b)" by fastforce
  have b: "0 < b" using quotient_of_denom_pos [OF ab] .
  have x: "\<bar>x\<bar> = of_int a / of_int b" using quotient_of_div [OF ab] .
  have a: "0 < a" using x b assms by (metis abs_of_nonneg abs_eq_0 div_by_0 divide_eq_0_iff not_less of_int_0_less_iff zero_less_abs_iff zero_less_divide_iff of_int_less_0_iff order.asym)
  define m n where "m = floorlog 2 (nat a)" and "n = floorlog 2 (nat b)"
  define k where "k = int m - int n"
  have m: "2 ^ (m - 1) \<le> a" "a < 2 ^ m" "0 < m"
    using floorlog2_bounds [of "nat a"] a unfolding m_def [symmetric] by (auto simp: nat_less_iff le_nat_iff)
  have n: "2 ^ (n - 1) \<le> b" "b < 2 ^ n" "0 < n"
    using floorlog2_bounds [of "nat b"] b unfolding n_def [symmetric] by (auto simp: nat_less_iff le_nat_iff)
  have cast: "(of_int a :: rat) < 2 ^ m" "2 ^ (m - 1) \<le> (of_int a :: rat)"
    "(of_int b :: rat) \<le> 2 ^ n" "2 ^ (n - 1) \<le> (of_int b :: rat)"
    using m n of_int_pow2_le less_imp_le by auto
  have "k + 1 = int m - int (n - 1)" using n(3) k_def by simp
  then have "2 powi (k + 1) = (2 ^ m / 2 ^ (n - 1) :: rat)" by (simp only: pow2_ratio)
  moreover have "(of_int a / of_int b :: rat) < 2 ^ m / 2 ^ (n - 1)"
    using a cast by (intro frac_less) simp_all
  ultimately have hi: "\<bar>x\<bar> < 2 powi (k + 1)" using x by simp
  have "k - 1 = int (m - 1) - int n" using m(3) k_def by simp
  then have "2 powi (k - 1) = (2 ^ (m - 1) / 2 ^ n :: rat)" by (simp only: pow2_ratio)
  moreover have "(2 ^ (m - 1) / 2 ^ n :: rat) \<le> of_int a / of_int b"
    using a b cast by (intro frac_le) simp_all
  ultimately have lo: "2 powi (k - 1) \<le> \<bar>x\<bar>" using x by simp
  have e: "exponent2 x = (if 2 powi k \<le> \<bar>x\<bar> then k else k - 1)"
    by (simp add: exponent2_def ab k_def m_def n_def)
  show "2 powi exponent2 x \<le> \<bar>x\<bar>" "\<bar>x\<bar> < 2 powi (exponent2 x + 1)"
    using hi lo unfolding e by auto
qed

section \<open>Properties of rounding\<close>

lemma fl_zero [simp]: "fl p l 0 = 0"
  by (simp add: fl_def)

text \<open>Above the subnormal range rounding stays within a factor of two.\<close>

lemma fl_factor_two:
  assumes "1 \<le> p" and "2 powi l \<le> x"
  shows "x / 2 \<le> fl p l x" "fl p l x \<le> 2 * x"
proof -
  have pos: "0 < x" using assms(2) by (meson less_le_trans zero_less_numeral zero_less_power_int)
  define e where "e = max (exponent2 x - int p + 1) l"
  define y where "y = x / 2 powi e"
  have "2 powi e \<le> x"
  proof (cases "e = l")
    case False
    then have "e \<le> exponent2 x" using assms(1) by (auto simp: e_def max_def)
    then have "(2 powi e :: rat) \<le> 2 powi exponent2 x" by (intro power_int_increasing) simp_all
    then show ?thesis using exponent2_bounds(1) [of x] pos by simp
  qed (use assms(2) in simp)
  then have one: "1 \<le> y" by (simp add: y_def)
  have fl: "fl p l x = of_int (round_even y) * 2 powi e"
    using pos by (simp add: fl_def y_def e_def [symmetric] Let_def)
  have x: "x = y * 2 powi e" by (simp add: y_def)
  have near: "\<bar>of_int (round_even y) - y\<bar> \<le> 1/2" by (rule round_even_near)
  have "of_int (round_even y) \<le> 2 * y" using near one unfolding abs_le_iff by linarith
  then have "of_int (round_even y) * 2 powi e \<le> (2 * y) * 2 powi e" by (intro mult_right_mono) simp_all
  then show "fl p l x \<le> 2 * x" unfolding fl by (simp add: x [symmetric] mult.assoc)
  have "y / 2 \<le> of_int (round_even y)" using near one unfolding abs_le_iff by linarith
  then have "y / 2 * 2 powi e \<le> of_int (round_even y) * 2 powi e" by (intro mult_right_mono) simp_all
  then show "x / 2 \<le> fl p l x" unfolding fl using x by simp
qed

text \<open>The bounds in the form in which they are chained through a computation.\<close>

lemma tiny_bounds: "(2 powi (- 149) :: rat) \<le> 1 / 2 ^ 40" "(2 powi (- 1074) :: rat) \<le> 1 / 2 ^ 40"
proof -
  have "(2 powi (- 149) :: rat) \<le> 2 powi (- 40)" "(2 powi (- 1074) :: rat) \<le> 2 powi (- 40)"
    by (intro power_int_increasing; simp)+
  moreover have "(2 powi (- 40) :: rat) = 1 / 2 ^ 40"
    by (simp add: power_int_minus_divide)
  ultimately show "(2 powi (- 149) :: rat) \<le> 1 / 2 ^ 40" "(2 powi (- 1074) :: rat) \<le> 1 / 2 ^ 40"
    by (simp_all only:)
qed

lemma fl_range:
  assumes "1 / 2 ^ 40 \<le> lo" and "lo \<le> x" and "x \<le> hi"
  shows "lo / 2 \<le> fl32 x" "fl32 x \<le> 2 * hi" "lo / 2 \<le> fl64 x" "fl64 x \<le> 2 * hi"
  using assms fl_factor_two [of 24 "- 149" x] fl_factor_two [of 53 "- 1074" x] tiny_bounds
  by (simp_all add: fl32_def fl64_def)

lemma fl_nonneg: "0 \<le> x \<Longrightarrow> 0 \<le> fl p l x"
proof -
  assume x: "0 \<le> x"
  have "0 \<le> round_even y" if "0 \<le> y" for y
    using that by (auto simp: round_even_def Let_def)
  then show ?thesis
    using x by (simp add: fl_def Let_def)
qed

lemma fl_form:
  obtains m e where "l \<le> e" and "\<bar>m\<bar> \<le> 2 ^ p" and "fl p l x = of_int m * 2 powi e"
proof (cases "x = 0")
  case True
  then show ?thesis using that [of l 0] by simp
next
  case False
  define e where "e = max (exponent2 x - int p + 1) l"
  have "exponent2 x + 1 \<le> e + int p" by (simp add: e_def)
  then have "(2 powi (exponent2 x + 1) :: rat) \<le> 2 powi (e + int p)"
    by (intro power_int_increasing) simp_all
  then have "\<bar>x\<bar> < 2 powi e * 2 ^ p"
    using exponent2_bounds(2) [OF False] by (simp add: power_int_add)
  then have "\<bar>x / 2 powi e\<bar> < 2 ^ p"
    by (simp add: abs_divide divide_less_eq mult.commute)
  then have "\<bar>of_int (round_even (x / 2 powi e))\<bar> \<le> (2 :: rat) ^ p + 1/2"
    using round_even_near [of "x / 2 powi e"] by linarith
  then have "(of_int \<bar>round_even (x / 2 powi e)\<bar> :: rat) < of_int (2 ^ p + 1)" by simp
  then have "\<bar>round_even (x / 2 powi e)\<bar> \<le> 2 ^ p" unfolding of_int_less_iff by simp
  moreover have "fl p l x = of_int (round_even (x / 2 powi e)) * 2 powi e"
    using False by (simp add: fl_def e_def [symmetric] Let_def)
  ultimately show ?thesis using that [of e] by (simp add: e_def)
qed

lemma fl_is_float: "is_float p (fl p l x)"
  by (rule fl_form [of l p x]) (auto simp: is_float_def)

text \<open>A number with a fraction of its own is small: its sum of neighbours is exact.\<close>

lemma float_not_int_bound:
  assumes "is_float p x" and "of_int \<lfloor>x\<rfloor> \<noteq> x"
  shows "\<bar>x\<bar> \<le> 2 ^ p / 2"
proof -
  from assms(1) obtain m e where m: "\<bar>m\<bar> \<le> 2 ^ p" and x: "x = of_int m * 2 powi e"
    by (auto simp: is_float_def)
  have "e < 0"
  proof (rule ccontr)
    assume "\<not> e < 0"
    then obtain k where "e = int k" by (metis nonneg_int_cases not_less)
    then have "x = of_int (m * 2 ^ k)" using x by simp
    then show False using assms(2) by (metis floor_of_int)
  qed
  then have "(2 powi e :: rat) \<le> 2 powi (- 1)" by (intro power_int_increasing) simp_all
  then have "(2 powi e :: rat) \<le> 1/2" by (simp add: power_int_minus)
  moreover have "(of_int \<bar>m\<bar> :: rat) \<le> 2 ^ p" using of_int_pow2_le(1) [OF m] .
  ultimately have "of_int \<bar>m\<bar> * 2 powi e \<le> 2 ^ p * (1/2 :: rat)"
    by (intro mult_mono) simp_all
  then show ?thesis using x by (simp add: abs_mult)
qed

text \<open>Rounding keeps the numbers of the format above the subnormal range.\<close>

lemma pow2_shift_int: "e \<le> k \<Longrightarrow> (of_int n * 2 powi k / 2 powi e :: rat) = of_int (n * 2 ^ nat (k - e))"
proof -
  assume "e \<le> k"
  then have "(2 powi k :: rat) = 2 ^ nat (k - e) * 2 powi e"
    by (metis add.commute diff_add_cancel int_nat_eq le_add_diff_inverse2 max_def power_int_add power_int_of_nat zero_le_imp_eq_int diff_ge_0_iff_ge nat_int zero_neq_numeral)
  then show ?thesis by simp
qed

lemma fl_exact:
  assumes m: "\<bar>m\<bar> \<le> 2 ^ p" and p: "1 \<le> p" and k: "l \<le> k"
  shows "fl p l (of_int m * 2 powi k) = of_int m * 2 powi k"
proof (cases "m = 0")
  case False
  define x :: rat where "x = of_int m * 2 powi k"
  define e where "e = max (exponent2 x - int p + 1) l"
  have x0: "x \<noteq> 0" using False by (simp add: x_def)
  have "\<exists>n. x / 2 powi e = of_int n"
  proof (cases "e \<le> k")
    case True
    then show ?thesis unfolding x_def using pow2_shift_int by blast
  next
    case e: False
    then have ex: "e = exponent2 x - int p + 1" using k by (auto simp: e_def max_def split: if_splits)
    have "(2 powi (k + int p) :: rat) \<le> 2 powi exponent2 x"
      using e ex by (intro power_int_increasing) simp_all
    then have "2 powi k * 2 ^ p \<le> \<bar>x\<bar>"
      using exponent2_bounds(1) [OF x0] by (simp add: power_int_add)
    then have "(of_int (2 ^ p) :: rat) \<le> of_int \<bar>m\<bar>" by (simp add: x_def abs_mult mult.commute)
    then have abs: "\<bar>m\<bar> = 2 ^ p" using m unfolding of_int_le_iff by simp
    have "(2 powi (e + int p - 1) :: rat) \<le> 2 powi (k + int p)"
    proof -
      have "\<bar>x\<bar> = 2 powi (k + int p)"
        using abs by (simp add: x_def abs_mult power_int_add mult.commute flip: of_int_abs)
      then show ?thesis using exponent2_bounds(1) [OF x0] ex by (simp add: algebra_simps)
    qed
    then have "e \<le> k + 1"
      using power_int_strict_increasing [of "k + int p" "e + int p - 1" "2 :: rat"] by linarith
    then have ek: "e = k + 1" using e by simp
    have "even m" using abs p by (metis dvd_abs_iff dvd_power even_numeral less_le_trans zero_less_one)
    then obtain n where "m = 2 * n" by blast
    then have "x / 2 powi e = of_int n" using ek by (simp add: x_def power_int_add)
    then show ?thesis by blast
  qed
  then obtain n where n: "x / 2 powi e = of_int n" by blast
  then have "of_int n * 2 powi e = x" by (metis nonzero_divide_eq_eq power_int_not_zero zero_neq_numeral)
  then show ?thesis
    using x0 n unfolding x_def [symmetric] by (simp add: fl_def e_def [symmetric] Let_def)
qed simp

lemma fl_of_int:
  assumes "\<bar>n\<bar> \<le> 2 ^ p" and "1 \<le> p" and "l \<le> 0"
  shows "fl p l (of_int n) = of_int n"
  using fl_exact [OF assms] by simp

text \<open>An integer of the format can be written with a nonnegative exponent.\<close>

lemma is_float_int:
  assumes "is_float p (of_int n)"
  obtains m k where "\<bar>m\<bar> \<le> 2 ^ p" and "0 \<le> k" and "(of_int n :: rat) = of_int m * 2 powi k"
proof -
  from assms obtain m e where m: "\<bar>m\<bar> \<le> 2 ^ p" and n: "(of_int n :: rat) = of_int m * 2 powi e"
    by (auto simp: is_float_def)
  show ?thesis
  proof (cases "0 \<le> e")
    case False
    then have "(2 powi e :: rat) \<le> 2 powi 0" by (intro power_int_increasing) simp_all
    then have "of_int \<bar>m\<bar> * 2 powi e \<le> (of_int \<bar>m\<bar> * 1 :: rat)"
      by (intro mult_left_mono) simp_all
    then have "(of_int \<bar>n\<bar> :: rat) \<le> of_int \<bar>m\<bar>" using n by (simp add: abs_mult)
    then have "\<bar>n\<bar> \<le> 2 ^ p" using m unfolding of_int_le_iff by simp
    then show ?thesis using that [of n 0] by simp
  qed (use that m n in blast)
qed

lemma exponent2_less:
  assumes "\<bar>x\<bar> < 2 powi h" and "x \<noteq> 0"
  shows "exponent2 x < h"
proof -
  have "(2 powi exponent2 x :: rat) < 2 powi h" using exponent2_bounds(1) [OF assms(2)] assms(1) by simp
  then show ?thesis by (metis not_less one_le_numeral power_int_increasing)
qed

text \<open>The rounding error is at most half a unit in the last place.\<close>

lemma fl_error:
  assumes "\<bar>x\<bar> < 2 powi h" and "l \<le> h - int p"
  shows "\<bar>fl p l x - x\<bar> \<le> 2 powi (h - int p - 1)"
proof (cases "x = 0")
  case False
  define e where "e = max (exponent2 x - int p + 1) l"
  have "exponent2 x < h" using exponent2_less [OF assms(1) False] .
  then have "e \<le> h - int p" using assms(2) by (simp add: e_def)
  then have "(2 powi (e - 1) :: rat) \<le> 2 powi (h - int p - 1)" by (intro power_int_increasing) simp_all
  moreover have "\<bar>fl p l x - x\<bar> \<le> 2 powi (e - 1)"
  proof -
    have "fl p l x - x = (of_int (round_even (x / 2 powi e)) - x / 2 powi e) * 2 powi e"
      using False by (simp add: fl_def e_def [symmetric] Let_def left_diff_distrib)
    then have "\<bar>fl p l x - x\<bar> = \<bar>of_int (round_even (x / 2 powi e)) - x / 2 powi e\<bar> * 2 powi e"
      by (simp add: abs_mult)
    also have "\<dots> \<le> 1/2 * 2 powi e" by (intro mult_right_mono round_even_near) simp
    finally show ?thesis by (simp add: power_int_diff)
  qed
  ultimately show ?thesis by linarith
qed simp

text \<open>Rounding never crosses a number whose last set bit is above the rounding unit.\<close>

lemma fl_le_grid:
  assumes "x \<le> of_int n * 2 powi g" and "\<bar>x\<bar> < 2 powi h" and "l \<le> g" and "h - int p \<le> g"
  shows "fl p l x \<le> of_int n * 2 powi g"
proof (cases "x = 0")
  case False
  define e where "e = max (exponent2 x - int p + 1) l"
  have "exponent2 x < h" using exponent2_less [OF assms(2) False] .
  then have "e \<le> g" using assms(3,4) by (simp add: e_def)
  then have grid: "(of_int n * 2 powi g / 2 powi e :: rat) = of_int (n * 2 ^ nat (g - e))"
    by (rule pow2_shift_int)
  have "x / 2 powi e \<le> of_int (n * 2 ^ nat (g - e))"
    unfolding grid [symmetric] using assms(1) by (intro divide_right_mono) simp_all
  then have "(of_int (round_even (x / 2 powi e)) :: rat) \<le> of_int n * 2 powi g / 2 powi e"
    unfolding grid of_int_le_iff by (rule round_even_le)
  then have "of_int (round_even (x / 2 powi e)) * 2 powi e \<le> (of_int n * 2 powi g :: rat)"
    by (simp add: pos_le_divide_eq)
  then show ?thesis using False by (simp add: fl_def e_def [symmetric] Let_def)
qed (use assms(1) in simp)

end
