(* ===== verification/Float_Bits.thy ===== *)
theory Float_Bits
  imports Binary_Float
begin

text \<open>
  The interchange formats of IEEE 754 as the bit patterns that \<^verbatim>\<open>memcpy\<close> moves between an integer
  and a \<^verbatim>\<open>float\<close> or \<^verbatim>\<open>double\<close>: the value of a pattern, the pattern of a nonnegative number, and the
  proof that the pattern of a rounded number denotes that number. A format has \<open>f\<close> fraction
  bits and \<open>k\<close> exponent bits.
\<close>

section \<open>Patterns\<close>

definition least_exponent :: "nat \<Rightarrow> nat \<Rightarrow> int" where
  "least_exponent f k = 2 - 2 ^ (k - 1) - int f"

definition float_val :: "nat \<Rightarrow> nat \<Rightarrow> nat \<Rightarrow> rat" where
  "float_val f k n =
    (let s = n div 2 ^ (f + k); e = n div 2 ^ f mod 2 ^ k; m = n mod 2 ^ f
     in (if s = 0 then 1 else - 1) *
        (if e = 0 then of_nat m * 2 powi least_exponent f k
         else of_nat (2 ^ f + m) * 2 powi (least_exponent f k + int e - 1)))"

definition float_finite :: "nat \<Rightarrow> nat \<Rightarrow> nat \<Rightarrow> bool" where
  "float_finite f k n \<longleftrightarrow> n div 2 ^ f mod 2 ^ k \<noteq> 2 ^ k - 1"

text \<open>The scale of the last place of \<open>x\<close>, and the pattern of a number that is not negative.\<close>

definition last_place :: "nat \<Rightarrow> nat \<Rightarrow> rat \<Rightarrow> int" where
  "last_place f k x = max (exponent2 x - int f) (least_exponent f k)"

definition float_bits :: "nat \<Rightarrow> nat \<Rightarrow> rat \<Rightarrow> nat" where
  "float_bits f k x =
    (if x = 0 then 0
     else nat \<lfloor>x / 2 powi last_place f k x\<rfloor> + nat (last_place f k x - least_exponent f k) * 2 ^ f)"

definition double_value :: "u64 \<Rightarrow> rat" where "double_value w = float_val 52 11 (unat w)"
definition double_finite :: "u64 \<Rightarrow> bool" where "double_finite w = float_finite 52 11 (unat w)"
definition double_bits :: "rat \<Rightarrow> u64" where "double_bits x = of_nat (float_bits 52 11 x)"
definition float_value :: "u32 \<Rightarrow> rat" where "float_value w = float_val 23 8 (unat w)"
definition float_is_finite :: "u32 \<Rightarrow> bool" where "float_is_finite w = float_finite 23 8 (unat w)"
definition float_pattern :: "rat \<Rightarrow> u32" where "float_pattern x = of_nat (float_bits 23 8 x)"

text \<open>The comparison \<^verbatim>\<open>value > bound\<close> on any pattern: infinity exceeds the bound, the NaNs do not.\<close>

definition double_exceeds :: "u64 \<Rightarrow> rat \<Rightarrow> bool" where
  "double_exceeds w bound =
    (if double_finite w then double_value w > bound else w = 0x7ff0000000000000)"

section \<open>The pattern of a rounded number\<close>

lemma fl_idem:
  assumes "1 \<le> p"
  shows "fl p l (fl p l x) = fl p l x"
  by (rule fl_form [of l p x]) (use fl_exact assms in simp)

text \<open>A fixed point of rounding is a whole number of units in its last place.\<close>

lemma fl_fixed_units:
  assumes "fl (Suc f) (least_exponent f k) x = x" and "x \<noteq> 0"
  shows "x = of_int \<lfloor>x / 2 powi last_place f k x\<rfloor> * 2 powi last_place f k x"
proof -
  have "last_place f k x = max (exponent2 x - int (Suc f) + 1) (least_exponent f k)"
    by (simp add: last_place_def)
  then have "of_int (round_even (x / 2 powi last_place f k x)) * 2 powi last_place f k x = x"
    using assms by (simp add: fl_def Let_def)
  then have "x / 2 powi last_place f k x = of_int (round_even (x / 2 powi last_place f k x))"
    by (metis nonzero_mult_div_cancel_right power_int_not_zero zero_neq_numeral)
  then show ?thesis by (metis floor_of_int nonzero_eq_divide_eq power_int_not_zero zero_neq_numeral)
qed

lemma float_fields:
  assumes "m < 2 ^ f" and "e < 2 ^ k"
  shows "(m + e * 2 ^ f) div 2 ^ (f + k) = 0" "(m + e * 2 ^ f) div 2 ^ f mod 2 ^ k = e"
    "(m + e * 2 ^ f) mod 2 ^ f = (m :: nat)"
proof -
  have q: "(m + e * 2 ^ f) div 2 ^ f = e" using assms(1) by simp
  then show "(m + e * 2 ^ f) div 2 ^ (f + k) = 0"
    using assms(2) by (simp add: power_add div_mult2_eq)
  show "(m + e * 2 ^ f) div 2 ^ f mod 2 ^ k = e" using q assms(2) by simp
  show "(m + e * 2 ^ f) mod 2 ^ f = m" using assms(1) by simp
qed

lemma float_units_bound:
  assumes "0 < x"
  shows "0 \<le> \<lfloor>x / 2 powi last_place f k x\<rfloor>" "\<lfloor>x / 2 powi last_place f k x\<rfloor> < 2 ^ Suc f"
    "least_exponent f k < last_place f k x \<Longrightarrow> 2 ^ f \<le> \<lfloor>x / 2 powi last_place f k x\<rfloor>"
proof -
  let ?q = "last_place f k x"
  have x: "2 powi exponent2 x \<le> x" "x < 2 powi (exponent2 x + 1)"
    using exponent2_bounds [of x] assms by simp_all
  show "0 \<le> \<lfloor>x / 2 powi ?q\<rfloor>" using assms by simp
  have "exponent2 x + 1 \<le> ?q + int (Suc f)" by (simp add: last_place_def)
  then have "(2 powi (exponent2 x + 1) :: rat) \<le> 2 powi (?q + int (Suc f))"
    by (intro power_int_increasing) simp_all
  then have "x < 2 ^ Suc f * 2 powi ?q"
    using x(2) by (simp only: power_int_add [OF disjI1 [OF zero_neq_numeral [symmetric]]] power_int_of_nat mult.commute)
  then have "x / 2 powi ?q < of_int (2 ^ Suc f)" by (simp add: divide_less_eq)
  then show "\<lfloor>x / 2 powi ?q\<rfloor> < 2 ^ Suc f" by (simp only: floor_less_iff)
  assume "least_exponent f k < ?q"
  then have "?q + int f = exponent2 x" by (simp add: last_place_def max_def split: if_splits)
  then have "2 powi ?q * 2 ^ f \<le> x" using x(1) by (metis power_int_add power_int_of_nat zero_neq_numeral)
  then have "(of_int (2 ^ f) :: rat) \<le> x / 2 powi ?q" by (simp add: le_divide_eq mult.commute)
  then show "2 ^ f \<le> \<lfloor>x / 2 powi ?q\<rfloor>" by (simp only: le_floor_iff)
qed

lemma float_val_bits:
  assumes fixed: "fl (Suc f) (least_exponent f k) x = x" and nonneg: "0 \<le> x"
    and small: "exponent2 x - int f - least_exponent f k < 2 ^ k - 2" and k: "2 \<le> k" and f: "0 < f"
  shows "float_val f k (float_bits f k x) = x" "float_finite f k (float_bits f k x)"
    "float_bits f k x < 2 ^ (f + k)"
proof -
  have four: "(4 :: nat) \<le> 2 ^ k" "(4 :: int) \<le> 2 ^ k"
    using power_increasing [OF k, of "2 :: nat"] power_increasing [OF k, of "2 :: int"] by simp_all
  have "float_val f k (float_bits f k x) = x \<and> float_finite f k (float_bits f k x) \<and>
    float_bits f k x < 2 ^ (f + k)"
  proof (cases "x = 0")
    case True
    moreover have "(0 :: nat) \<noteq> 2 ^ k - 1" using four by linarith
    ultimately show ?thesis by (simp add: float_bits_def float_val_def float_finite_def)
  next
    case False
    then have pos: "0 < x" using nonneg by simp
    define q where "q = last_place f k x"
    define m where "m = nat \<lfloor>x / 2 powi q\<rfloor>"
    define d where "d = nat (q - least_exponent f k)"
    have d: "q = least_exponent f k + int d" by (simp add: d_def q_def last_place_def)
    have dk: "d < 2 ^ k - 2"
      using small four by (simp add: d_def q_def last_place_def nat_less_iff of_nat_diff)
    have units: "m < 2 ^ Suc f" "0 < d \<longrightarrow> 2 ^ f \<le> m"
      using float_units_bound [OF pos, of f k] d by (auto simp: m_def q_def nat_less_iff le_nat_iff)
    have x: "x = of_nat m * 2 powi q"
      using fl_fixed_units [OF fixed False] float_units_bound(1) [OF pos, of f k] by (simp add: m_def q_def of_nat_nat)
    have bits: "float_bits f k x = m + d * 2 ^ f"
      using False by (simp add: float_bits_def m_def d_def q_def)
    show ?thesis
    proof (cases "m < 2 ^ f")
      case True
      then have "d = 0" using units(2) by auto
      then show ?thesis
        using True x d float_fields [OF True, of 0 k] four unfolding bits
        by (auto simp: float_val_def float_finite_def power_add less_le_trans)
    next
      case False
      define r where "r = m - 2 ^ f"
      have r: "r < 2 ^ f" "m = 2 ^ f + r" using False units(1) by (simp_all add: r_def)
      have e: "Suc d < 2 ^ k" using dk by simp
      have bits': "float_bits f k x = r + Suc d * 2 ^ f" using bits r by simp
      have "r + Suc d * 2 ^ f < 2 ^ f + Suc d * 2 ^ f" using r by simp
      also have "\<dots> = (d + 2) * 2 ^ f" by simp
      also have "\<dots> \<le> 2 ^ k * 2 ^ f" using dk by (intro mult_right_mono) simp_all
      finally show ?thesis
        using dk unfolding bits' float_val_def float_finite_def Let_def float_fields [OF r(1) e]
        by (simp add: x r(2) d power_add mult.commute)
    qed
  qed
  then show "float_val f k (float_bits f k x) = x" "float_finite f k (float_bits f k x)"
    "float_bits f k x < 2 ^ (f + k)" by blast+
qed

lemma least_exponent_values [simp]: "least_exponent 52 11 = - 1074" "least_exponent 23 8 = - 149"
  by (simp_all add: least_exponent_def)

lemma exponent2_zero: "exponent2 0 \<le> 0"
  by (simp add: exponent2_def floorlog_def)

text \<open>The pattern of a rounded nonnegative double or float below the overflow threshold.\<close>

lemma double_bits_value:
  assumes "0 \<le> fl64 x" and "fl64 x < 2 powi 1000"
  shows "double_value (double_bits (fl64 x)) = fl64 x" "double_finite (double_bits (fl64 x))"
proof -
  have "exponent2 (fl64 x) < 1000"
    using exponent2_less [of "fl64 x" 1000] exponent2_zero assms by (cases "fl64 x = 0") simp_all
  then have small: "exponent2 (fl64 x) - int 52 - least_exponent 52 11 < 2 ^ 11 - 2" by simp
  have fixed: "fl (Suc 52) (least_exponent 52 11) (fl64 x) = fl64 x"
    using fl_idem [of 53 "- 1074" x] by (simp add: fl64_def)
  note v = float_val_bits [OF fixed assms(1) small]
  have "unat (double_bits (fl64 x)) = float_bits 52 11 (fl64 x)"
    using v(3) by (simp add: double_bits_def unat_of_nat)
  then show "double_value (double_bits (fl64 x)) = fl64 x" "double_finite (double_bits (fl64 x))"
    using v by (simp_all add: double_value_def double_finite_def)
qed

lemma float_pattern_value:
  assumes "0 \<le> fl32 x" and "fl32 x < 2 powi 100"
  shows "float_value (float_pattern (fl32 x)) = fl32 x" "float_is_finite (float_pattern (fl32 x))"
proof -
  have "exponent2 (fl32 x) < 100"
    using exponent2_less [of "fl32 x" 100] exponent2_zero assms by (cases "fl32 x = 0") simp_all
  then have small: "exponent2 (fl32 x) - int 23 - least_exponent 23 8 < 2 ^ 8 - 2" by simp
  have fixed: "fl (Suc 23) (least_exponent 23 8) (fl32 x) = fl32 x"
    using fl_idem [of 24 "- 149" x] by (simp add: fl32_def)
  note v = float_val_bits [OF fixed assms(1) small]
  have "unat (float_pattern (fl32 x)) = float_bits 23 8 (fl32 x)"
    using v(3) by (simp add: float_pattern_def unat_of_nat)
  then show "float_value (float_pattern (fl32 x)) = fl32 x" "float_is_finite (float_pattern (fl32 x))"
    using v by (simp_all add: float_value_def float_is_finite_def)
qed

end
