(* ===== verification/Nav_Host.thy ===== *)
theory Nav_Host
  imports Nav_Packet Float_Bits
begin

text \<open>
  The host side of \<^verbatim>\<open>patches/gnss/native-navigation/navigation.c\<close>: the reporting request sent
  after initialisation, the GPS time seed and its message, and the decoder of POSITION records.
  Doubles and floats are kept as the bit patterns that the messages carry. The seed arithmetic
  is proved equal to unbounded arithmetic, every seed that is built is proved acceptable to the
  encoder, and every admitted fix is proved to state one instant twice, as GPS time and as
  civil time.
\<close>

section \<open>The reporting request\<close>

definition post_init_frame :: bytes where
  "post_init_frame = [0xaa, 0xf0, 9, 0, 5, 0xfe, 0x32, 0, 0, 1, 0, 0x3f, 1, 0xaa, 0x0f]"

definition b41_nav_post_init_reporting_encode ::
  "bytes ptr \<Rightarrow> nat \<Rightarrow> nat ptr \<Rightarrow> int \<times> bytes ptr \<times> nat ptr" where
  "b41_nav_post_init_reporting_encode wire capacity written =
    (if wire = Null \<or> written = Null \<or> overlaps wire 15 written 8 then (- EINVAL, wire, written)
     else if capacity < 15 then (- ENOSPC, wire, written)
     else (0, store wire (blit (contents wire) 0 post_init_frame), store written 15))"

section \<open>The time seed\<close>

record b41_nav_utc_sample =
  smp_unix_ms :: u64
  smp_acquired_ns :: u64
  smp_uncertainty_ms :: u32
  smp_gps_minus_utc_seconds :: u8

record b41_nav_time_seed =
  seed_gps_week :: u16
  seed_tow_seconds :: u64
  seed_uncertainty_ms :: u32

definition B41_NAV_TIME_MESSAGE_SIZE :: nat where [simp]: "B41_NAV_TIME_MESSAGE_SIZE = 236"

definition b41_nav_time_seed_build ::
  "b41_nav_utc_sample ptr \<Rightarrow> u64 \<Rightarrow> u64 \<Rightarrow> b41_nav_time_seed ptr \<Rightarrow> int \<times> b41_nav_time_seed ptr" where
  "b41_nav_time_seed_build sample now_ns deadline_ns out =
    (let gps_epoch_ms = 315964800000; week_ns = 604800000000000; s = contents sample in
     if sample = Null \<or> out = Null \<or> smp_uncertainty_ms s = 0 then (- EINVAL, out)
     else if now_ns < smp_acquired_ns s then (- ESTALE, out)
     else if now_ns \<ge> deadline_ns then (- ETIMEDOUT, out)
     else if smp_unix_ms s < gps_epoch_ms then (- ERANGE, out)
     else
       let elapsed = now_ns - smp_acquired_ns s;
           utc_delta = smp_unix_ms s - gps_epoch_ms;
           leap_ns = ucast (smp_gps_minus_utc_seconds s) * 1000000000
       in if elapsed > - 1 - leap_ns \<or> utc_delta > (- 1 - elapsed - leap_ns) div 1000000
          then (- EOVERFLOW, out)
          else
            let gps_ns = utc_delta * 1000000 + elapsed + leap_ns in
            if gps_ns div week_ns > 32767 then (- ERANGE, out)
            else
              let uncertainty = ucast (smp_uncertainty_ms s) + elapsed div 1000000 +
                                (if elapsed mod 1000000 \<noteq> 0 then 1 else 0)
              in if uncertainty > 2000000000 then (- ERANGE, out)
                 else (0, store out
                   \<lparr> seed_gps_week = ucast (gps_ns div week_ns),
                     seed_tow_seconds =
                       double_bits (fl64 (fl64 (of_nat (unat (gps_ns mod week_ns))) / 1000000000)),
                     seed_uncertainty_ms = float_pattern (fl32 (of_nat (unat uncertainty))) \<rparr>))"

definition b41_nav_time_message_encode ::
  "b41_nav_time_seed ptr \<Rightarrow> bytes ptr \<Rightarrow> nat \<Rightarrow> int \<times> bytes ptr" where
  "b41_nav_time_message_encode seed message capacity =
    (let s = contents seed in
     if seed = Null \<or> message = Null \<or> \<not> double_finite (seed_tow_seconds s) \<or>
        double_value (seed_tow_seconds s) < 0 \<or> double_value (seed_tow_seconds s) \<ge> 604800 \<or>
        \<not> float_is_finite (seed_uncertainty_ms s) \<or> float_value (seed_uncertainty_ms s) \<le> 0 \<or>
        float_value (seed_uncertainty_ms s) > 2000000000 \<or> seed_gps_week s > 32767
     then (- EINVAL, message)
     else if capacity < B41_NAV_TIME_MESSAGE_SIZE then (- ENOSPC, message)
     else
       let result = zeroed B41_NAV_TIME_MESSAGE_SIZE;
           result = blit result 0 (put16 1016);
           result = blit result 2 (put16 232);
           result = blit result 4 (put32 8);
           result = blit result 0x8c (put16 (seed_gps_week s));
           result = blit result 0x94 (put_le64 (seed_tow_seconds s));
           result = blit result 0x9c (put32 (seed_uncertainty_ms s))
       in (0, store message (blit (contents message) 0 result)))"

section \<open>Civil time\<close>

text \<open>
  \<^verbatim>\<open>gmtime_r\<close> in the proleptic Gregorian calendar: whole cycles of 400 years from year 0, then the
  years and months of the cycle one by one.
\<close>

definition leap_year :: "int \<Rightarrow> bool" where
  "leap_year y \<longleftrightarrow> y mod 4 = 0 \<and> (y mod 100 \<noteq> 0 \<or> y mod 400 = 0)"

definition year_days :: "int \<Rightarrow> nat" where
  "year_days y = (if leap_year y then 366 else 365)"

definition month_days :: "int \<Rightarrow> nat \<Rightarrow> nat" where
  "month_days y m = [31, 28, 31, 30, 31, 30, 31, 31, 30, 31, 30, 31] ! m + (if m = 1 \<and> leap_year y then 1 else 0)"

function split_year :: "int \<Rightarrow> nat \<Rightarrow> int \<times> nat" where
  "split_year y d = (if d < year_days y then (y, d) else split_year (y + 1) (d - year_days y))"
  by auto
termination by (relation "measure snd") (auto simp: year_days_def)

function split_month :: "int \<Rightarrow> nat \<Rightarrow> nat \<Rightarrow> nat \<times> nat" where
  "split_month y m d = (if m \<ge> 11 \<or> d < month_days y m then (m, d) else split_month y (Suc m) (d - month_days y m))"
  by auto
termination by (relation "measure (\<lambda>(y, m, d). 11 - m)") auto

record tm =
  tm_year :: int
  tm_mon :: int
  tm_mday :: int
  tm_hour :: int
  tm_min :: int
  tm_sec :: int

definition gmtime_r :: "int \<Rightarrow> tm" where
  "gmtime_r t =
    (let days = t div 86400 + 719528; rest = t mod 86400;
         (y, yday) = split_year (400 * (days div 146097)) (nat (days mod 146097));
         (m, mday) = split_month y 0 yday
     in \<lparr> tm_year = y - 1900, tm_mon = int m, tm_mday = int mday + 1,
          tm_hour = rest div 3600, tm_min = rest div 60 mod 60, tm_sec = rest mod 60 \<rparr>)"

section \<open>The POSITION record\<close>

datatype b41_nav_position_state = B41_NAV_POSITION_NOT_VALID | B41_NAV_POSITION_2D | B41_NAV_POSITION_3D

record b41_nav_host_position =
  pos_state :: b41_nav_position_state
  pos_quality_byte :: u8
  pos_dimension_byte :: u8
  pos_utc_correction_seconds :: "16 word"
  pos_gps_week :: u16
  pos_gps_tow_seconds :: u32
  pos_year :: u16
  pos_milliseconds :: u16
  pos_month :: u8
  pos_day :: u8
  pos_hour :: u8
  pos_minute :: u8
  pos_second :: u8
  pos_latitude_degrees :: u64
  pos_longitude_degrees :: u64
  pos_altitude :: u64
  pos_speed_field50 :: u32

definition B41_NAV_POSITION_SIZE :: nat where [simp]: "B41_NAV_POSITION_SIZE = 0xc60"

definition zero_position :: b41_nav_host_position where
  "zero_position = \<lparr> pos_state = B41_NAV_POSITION_NOT_VALID, pos_quality_byte = 0, pos_dimension_byte = 0,
     pos_utc_correction_seconds = 0, pos_gps_week = 0, pos_gps_tow_seconds = 0, pos_year = 0,
     pos_milliseconds = 0, pos_month = 0, pos_day = 0, pos_hour = 0, pos_minute = 0, pos_second = 0,
     pos_latitude_degrees = 0, pos_longitude_degrees = 0, pos_altitude = 0, pos_speed_field50 = 0 \<rparr>"

text \<open>
  The decoder in the order of the code: the bytes of the receiver state, the civil fields with
  their ranges, the comparison with GPS time, the coordinates.
\<close>

definition position_state_fields :: "bytes \<Rightarrow> b41_nav_host_position" where
  "position_state_fields record =
     zero_position\<lparr> pos_quality_byte := record ! 0x18, pos_dimension_byte := record ! 0x19,
       pos_utc_correction_seconds := le16 (drop 0x10 record),
       pos_gps_week := le16 (drop 0x12 record), pos_gps_tow_seconds := le32 (drop 0x14 record) \<rparr>"

definition position_civil_fields :: "bytes \<Rightarrow> b41_nav_host_position \<Rightarrow> b41_nav_host_position" where
  "position_civil_fields record result =
     result\<lparr> pos_year := 1900 + le16 (drop 4 record), pos_month := record ! 6 + 1,
       pos_day := record ! 7, pos_hour := record ! 8, pos_minute := record ! 9,
       pos_second := record ! 10, pos_milliseconds := le16 (drop 12 record) \<rparr>"

definition day_limit :: "b41_nav_host_position \<Rightarrow> nat" where
  "day_limit p =
     [31, 28, 31, 30, 31, 30, 31, 31, 30, 31, 30, 31] ! (unat (pos_month p) - 1) +
     (if pos_month p = 2 \<and> pos_year p mod 4 = 0 \<and> (pos_year p mod 100 \<noteq> 0 \<or> pos_year p mod 400 = 0)
      then 1 else 0)"

definition unix_seconds :: "b41_nav_host_position \<Rightarrow> int" where
  "unix_seconds p = int (unat (pos_gps_week p)) * 604800 + int (unat (pos_gps_tow_seconds p)) +
     315964800 - sint (pos_utc_correction_seconds p)"

definition civil_agrees :: "tm \<Rightarrow> b41_nav_host_position \<Rightarrow> bool" where
  "civil_agrees civil p \<longleftrightarrow>
     \<not> (tm_year civil + 1900 \<noteq> int (unat (pos_year p)) \<or> tm_mon civil + 1 \<noteq> int (unat (pos_month p)) \<or>
        tm_mday civil \<noteq> int (unat (pos_day p)) \<or> tm_hour civil \<noteq> int (unat (pos_hour p)) \<or>
        tm_min civil \<noteq> int (unat (pos_minute p)) \<or> tm_sec civil \<noteq> int (unat (pos_second p)))"

definition position_coordinates :: "bytes \<Rightarrow> b41_nav_host_position \<Rightarrow> int + b41_nav_host_position" where
  "position_coordinates record result =
    (let lat = get_le64 (drop 0x30 record); lon = get_le64 (drop 0x38 record);
         speed = le32 (drop 0x50 record); altitude = get_le64 (drop 0x40 record)
     in if \<not> double_finite lat \<or> \<bar>double_value lat\<bar> > 90 \<or>
           \<not> double_finite lon \<or> \<bar>double_value lon\<bar> > 180 then Inl (- ERANGE)
        else if \<not> float_is_finite speed \<or> float_value speed < 0 then Inl (- ERANGE)
        else if float_value speed > 515 \<and> double_exceeds altitude 18270 then Inl (- ERANGE)
        else let result = result\<lparr> pos_latitude_degrees := lat, pos_longitude_degrees := lon,
                   pos_speed_field50 := speed,
                   pos_state := (if pos_dimension_byte result = 2 then B41_NAV_POSITION_2D
                                 else B41_NAV_POSITION_3D) \<rparr>
             in if pos_state result = B41_NAV_POSITION_3D then
                  if \<not> double_finite altitude then Inl (- ERANGE)
                  else Inr (result\<lparr> pos_altitude := altitude \<rparr>)
                else Inr result)"

text \<open>\<^verbatim>\<open>time_t\<close> has 64 bits, so the conversion of the seconds and \<^verbatim>\<open>gmtime_r\<close> on them do not fail.\<close>

definition b41_nav_host_position_decode ::
  "bytes ptr \<Rightarrow> nat \<Rightarrow> b41_nav_host_position ptr \<Rightarrow> int \<times> b41_nav_host_position ptr" where
  "b41_nav_host_position_decode buffer buffer_size out =
    (if buffer = Null \<or> out = Null then (- EINVAL, out)
     else if buffer_size \<noteq> B41_NAV_POSITION_SIZE then (- EMSGSIZE, out)
     else let record = contents buffer in
       if le32 record \<noteq> 0x0c600000 then (- EPROTO, out)
       else let result = position_state_fields record in
         if pos_dimension_byte result \<noteq> 1 \<and> pos_dimension_byte result \<noteq> 2 \<and>
            pos_dimension_byte result \<noteq> 3 \<and> pos_dimension_byte result \<noteq> 0xff then (- EPROTO, out)
         else if pos_dimension_byte result < 2 \<or> pos_dimension_byte result = 0xff \<or>
            pos_quality_byte result = 0 then (0, store out result)
         else if pos_quality_byte result \<noteq> 1 \<and> pos_quality_byte result \<noteq> 2 \<and>
            pos_quality_byte result \<noteq> 3 \<and> pos_quality_byte result \<noteq> 5 then (- EOPNOTSUPP, out)
         else if le16 (drop 4 record) > 8099 \<or> record ! 6 > 11 then (- ERANGE, out)
         else let result = position_civil_fields record result in
           if pos_day result = 0 \<or> unat (pos_day result) > day_limit result \<or> pos_hour result > 23 \<or>
              pos_minute result > 59 \<or> pos_second result > 60 \<or> pos_milliseconds result > 999
           then (- ERANGE, out)
           else if pos_gps_week result > 32767 \<or> pos_gps_tow_seconds result \<ge> 604800 then (- ERANGE, out)
           else if \<not> civil_agrees (gmtime_r (unix_seconds result)) result then (- EPROTO, out)
           else case position_coordinates record result of
             Inl e \<Rightarrow> (e, out)
           | Inr p \<Rightarrow> (0, store out p))"

section \<open>Civil time and the seconds since the epoch\<close>

text \<open>The number of days before the first of January of a year, counted from year 0.\<close>

definition days_before :: "int \<Rightarrow> int" where
  "days_before y = 365 * y + (y + 3) div 4 - (y + 99) div 100 + (y + 399) div 400"

definition month_start :: "int \<Rightarrow> nat \<Rightarrow> nat" where
  "month_start y m = (\<Sum>i<m. month_days y i)"

text \<open>The value POSIX assigns to a broken-down time (years and months counted from 1 and 0).\<close>

definition posix_seconds :: "int \<Rightarrow> nat \<Rightarrow> int \<Rightarrow> int \<Rightarrow> int \<Rightarrow> int \<Rightarrow> int" where
  "posix_seconds y m d h mi sec =
     sec + mi * 60 + h * 3600 + (int (month_start y m) + d - 1) * 86400 + (y - 1970) * 31536000 +
     (y - 1969) div 4 * 86400 - (y - 1901) div 100 * 86400 + (y - 1601) div 400 * 86400"

lemma div_round_up:
  assumes "0 < (n :: int)" and "k = n - 1"
  shows "(y + k) div n = y div n + (if y mod n = 0 then 0 else 1)"
proof -
  have r: "0 \<le> y mod n" "y mod n < n" using assms by simp_all
  have y: "n * (y div n) + y mod n = y" by simp
  show ?thesis
  proof (cases "y mod n = 0")
    case True
    have "y + (n - 1) = n * (y div n) + (n - 1)" using y True by linarith
    then show ?thesis using int_div_pos_eq [of "y + (n - 1)" n "y div n" "n - 1"] True assms by simp
  next
    case False
    have "n * (y div n + 1) = n * (y div n) + n" by (simp add: distrib_left)
    then have "y + (n - 1) = n * (y div n + 1) + (y mod n - 1)" using y by linarith
    then show ?thesis
      using int_div_pos_eq [of "y + (n - 1)" n "y div n + 1" "y mod n - 1"] False r assms by simp
  qed
qed

lemma days_before_Suc: "days_before (y + 1) = days_before y + int (year_days y)"
proof -
  have m: "y mod 400 = 0 \<Longrightarrow> y mod 100 = 0" "y mod 100 = 0 \<Longrightarrow> y mod 4 = 0"
    using mod_mod_cancel [of 100 400 y] mod_mod_cancel [of 4 100 y] by simp_all
  obtain a b c where q: "y div 4 = a" "y div 100 = b" "y div 400 = c" by blast
  have up: "(y + 3) div 4 = a + (if y mod 4 = 0 then 0 else 1)"
    "(y + 99) div 100 = b + (if y mod 100 = 0 then 0 else 1)"
    "(y + 399) div 400 = c + (if y mod 400 = 0 then 0 else 1)"
    unfolding q [symmetric] by (rule div_round_up; simp)+
  have "(y + 1 + 3) div 4 = a + 1" "(y + 1 + 99) div 100 = b + 1" "(y + 1 + 399) div 400 = c + 1"
    unfolding q [symmetric] add.assoc by simp_all
  then have "days_before (y + 1) = 365 * (y + 1) + (a + 1) - (b + 1) + (c + 1)"
    by (simp only: days_before_def)
  moreover have "days_before y = 365 * y + (a + (if y mod 4 = 0 then 0 else 1)) -
      (b + (if y mod 100 = 0 then 0 else 1)) + (c + (if y mod 400 = 0 then 0 else 1))"
    by (simp only: days_before_def up)
  ultimately show ?thesis using m by (auto simp: year_days_def leap_year_def)
qed

lemma days_before_cycle: "days_before (400 * c) = 146097 * c"
proof -
  have "(400 * c + 3) div 4 = 100 * c" by (rule int_div_pos_eq [where r = 3]) simp_all
  moreover have "(400 * c + 99) div 100 = 4 * c" by (rule int_div_pos_eq [where r = 99]) simp_all
  moreover have "(400 * c + 399) div 400 = c" by (rule int_div_pos_eq [where r = 399]) simp_all
  ultimately show ?thesis by (simp add: days_before_def)
qed

lemma days_before_mono: "y \<le> z \<Longrightarrow> days_before y \<le> days_before z"
  by (induction z rule: int_ge_induct) (use days_before_Suc in force)+

lemma div_shift: "y = x + k * n \<Longrightarrow> (n :: int) \<noteq> 0 \<Longrightarrow> y div n = x div n + k"
  by simp

lemma posix_days:
  "posix_seconds y m d h mi sec =
   ((days_before y - 719528 + int (month_start y m) + d - 1) * 24 + h) * 3600 + mi * 60 + sec"
proof -
  obtain a b c where q: "(y - 1969) div 4 = a" "(y - 1901) div 100 = b" "(y - 1601) div 400 = c" by blast
  have "(y + 3) div 4 = a + 493" "(y + 99) div 100 = b + 20" "(y + 399) div 400 = c + 5"
    unfolding q [symmetric] by (rule div_shift; simp)+
  then have "days_before y = 365 * y + (a + 493) - (b + 20) + (c + 5)" by (simp only: days_before_def)
  then show ?thesis unfolding posix_seconds_def q by simp
qed

lemma year_unique:
  assumes "days_before y + int d = days_before z + int e" and "d < year_days y" and "e < year_days z"
  shows "y = z \<and> d = e"
proof -
  have "\<not> y < z" using days_before_mono [of "y + 1" z] days_before_Suc [of y] assms by linarith
  moreover have "\<not> z < y" using days_before_mono [of "z + 1" y] days_before_Suc [of z] assms by linarith
  ultimately show ?thesis using assms(1) by simp
qed

lemma month_start_Suc: "month_start y (Suc m) = month_start y m + month_days y m"
  by (simp add: month_start_def)

lemma month_start_mono: "m \<le> n \<Longrightarrow> month_start y m \<le> month_start y n"
  unfolding month_start_def by (intro sum_mono2) auto

lemma month_unique:
  assumes "month_start y m + d = month_start y n + e" and "d < month_days y m" and "e < month_days y n"
  shows "m = n \<and> d = e"
proof -
  have "\<not> m < n" using month_start_mono [of "Suc m" n y] month_start_Suc [of y m] assms by linarith
  moreover have "\<not> n < m" using month_start_mono [of "Suc n" m y] month_start_Suc [of y n] assms by linarith
  ultimately show ?thesis using assms(1) by simp
qed

lemma month_start_year: "month_start y 12 = year_days y"
  by (simp add: month_start_def year_days_def month_days_def lessThan_nat_numeral)

declare split_year.simps [simp del] split_month.simps [simp del]

lemma split_year_result:
  "split_year y d = (y', d') \<Longrightarrow> d' < year_days y' \<and> days_before y' + int d' = days_before y + int d"
proof (induction y d rule: split_year.induct)
  case (1 y d)
  show ?case
  proof (cases "d < year_days y")
    case False
    then show ?thesis
      using 1 days_before_Suc [of y] by (auto simp: split_year.simps [of y d] of_nat_diff)
  qed (use 1(2) in \<open>auto simp: split_year.simps [of y d]\<close>)
qed

lemma split_month_result:
  "split_month y m d = (m', d') \<Longrightarrow> m \<le> 11 \<Longrightarrow> month_start y m + d < year_days y \<Longrightarrow>
   m' \<le> 11 \<and> d' < month_days y m' \<and> month_start y m' + d' = month_start y m + d"
proof (induction y m d rule: split_month.induct)
  case (1 y m d)
  show ?case
  proof (cases "d < month_days y m")
    case False
    have "m \<noteq> 11"
      using False 1(4) month_start_year [of y] month_start_Suc [of y 11] by auto
    then show ?thesis
      using 1 False month_start_Suc [of y m] by (auto simp: split_month.simps [of y m d])
  next
    case True
    then show ?thesis using 1 by (auto simp: split_month.simps [of y m d])
  qed
qed

text \<open>\<^verbatim>\<open>gmtime_r\<close> inverts the POSIX formula on valid dates.\<close>

lemma gmtime_valid:
  obtains m d where "tm_mon (gmtime_r t) = int m" and "m \<le> 11" and "tm_mday (gmtime_r t) = int d + 1"
    and "d < month_days (tm_year (gmtime_r t) + 1900) m"
    and "posix_seconds (tm_year (gmtime_r t) + 1900) m (int d + 1) (tm_hour (gmtime_r t))
           (tm_min (gmtime_r t)) (tm_sec (gmtime_r t)) = t"
    and "0 \<le> tm_hour (gmtime_r t)" "tm_hour (gmtime_r t) \<le> 23" "0 \<le> tm_min (gmtime_r t)"
      "tm_min (gmtime_r t) \<le> 59" "0 \<le> tm_sec (gmtime_r t)" "tm_sec (gmtime_r t) \<le> 59"
proof -
  define days where "days = t div 86400 + 719528"
  define rest where "rest = t mod 86400"
  obtain y yd where y: "split_year (400 * (days div 146097)) (nat (days mod 146097)) = (y, yd)"
    by fastforce
  obtain m d where m: "split_month y 0 yd = (m, d)" by fastforce
  have yd: "yd < year_days y" "days_before y + int yd = days"
    using split_year_result [OF y] by (simp_all add: days_before_cycle)
  have md: "m \<le> 11" "d < month_days y m" "month_start y m + d = yd"
    using split_month_result [OF m] yd(1) by (simp_all add: month_start_def)
  have g: "gmtime_r t = \<lparr> tm_year = y - 1900, tm_mon = int m, tm_mday = int d + 1,
      tm_hour = rest div 3600, tm_min = rest div 60 mod 60, tm_sec = rest mod 60 \<rparr>"
    using y m by (simp add: gmtime_r_def Let_def days_def rest_def)
  have rest: "0 \<le> rest" "rest < 86400" by (simp_all add: rest_def)
  have "rest div 3600 = rest div 60 div 60" using zdiv_zmult2_eq [of 60 rest 60] by simp
  then have parts: "rest div 60 = 60 * (rest div 3600) + rest div 60 mod 60" "rest = 60 * (rest div 60) + rest mod 60"
    by simp_all
  then have whole: "rest = 60 * (60 * (rest div 3600) + rest div 60 mod 60) + rest mod 60" by metis
  have "t = 86400 * (days - 719528) + rest" by (simp add: days_def rest_def)
  then have "t = 86400 * (days - 719528) + (60 * (60 * (rest div 3600) + rest div 60 mod 60) + rest mod 60)"
    using whole by metis
  then have "posix_seconds y m (int d + 1) (rest div 3600) (rest div 60 mod 60) (rest mod 60) = t"
    unfolding posix_days yd(2) [symmetric] md(3) [symmetric] by simp
  moreover have "rest div 3600 \<le> 23" using rest by simp
  ultimately show ?thesis
    using that [of m d] md rest unfolding g by simp
qed

lemma gmtime_iff:
  assumes "d < month_days y m" and "m \<le> 11" and "0 \<le> h" "h \<le> 23" "0 \<le> mi" "mi \<le> 59" "0 \<le> sec"
  shows "gmtime_r t = \<lparr> tm_year = y - 1900, tm_mon = int m, tm_mday = int d + 1,
            tm_hour = h, tm_min = mi, tm_sec = sec \<rparr> \<longleftrightarrow>
         sec \<le> 59 \<and> posix_seconds y m (int d + 1) h mi sec = t"
proof
  assume g: "gmtime_r t = \<lparr> tm_year = y - 1900, tm_mon = int m, tm_mday = int d + 1,
            tm_hour = h, tm_min = mi, tm_sec = sec \<rparr>"
  show "sec \<le> 59 \<and> posix_seconds y m (int d + 1) h mi sec = t"
    by (rule gmtime_valid [of t]) (simp add: g)
next
  assume a: "sec \<le> 59 \<and> posix_seconds y m (int d + 1) h mi sec = t"
  obtain m' d' where g: "tm_mon (gmtime_r t) = int m'" "m' \<le> 11" "tm_mday (gmtime_r t) = int d' + 1"
    and d': "d' < month_days (tm_year (gmtime_r t) + 1900) m'"
    and t: "posix_seconds (tm_year (gmtime_r t) + 1900) m' (int d' + 1) (tm_hour (gmtime_r t))
           (tm_min (gmtime_r t)) (tm_sec (gmtime_r t)) = t"
    and r: "0 \<le> tm_hour (gmtime_r t)" "tm_hour (gmtime_r t) \<le> 23" "0 \<le> tm_min (gmtime_r t)"
      "tm_min (gmtime_r t) \<le> 59" "0 \<le> tm_sec (gmtime_r t)" "tm_sec (gmtime_r t) \<le> 59"
    by (rule gmtime_valid [of t])
  define y' where "y' = tm_year (gmtime_r t) + 1900"
  define h' mi' sec' where "h' = tm_hour (gmtime_r t)" and "mi' = tm_min (gmtime_r t)" and "sec' = tm_sec (gmtime_r t)"
  have eq: "((days_before y - 719528 + int (month_start y m) + int d) * 24 + h) * 3600 + mi * 60 + sec =
      ((days_before y' - 719528 + int (month_start y' m') + int d') * 24 + h') * 3600 + mi' * 60 + sec'"
    using a t unfolding posix_days y'_def h'_def mi'_def sec'_def by simp
  have bounds: "0 \<le> h'" "h' \<le> 23" "0 \<le> mi'" "mi' \<le> 59" "0 \<le> sec'" "sec' \<le> 59" using r by (simp_all add: h'_def mi'_def sec'_def)
  have day: "days_before y + int (month_start y m + d) = days_before y' + int (month_start y' m' + d')"
    using eq bounds assms(3-7) a by simp
  then have hour: "h * 3600 + mi * 60 + sec = h' * 3600 + mi' * 60 + sec'" using eq by simp
  then have "h = h'" using bounds assms(3-7) a by simp
  moreover from this have "mi = mi'" using hour bounds assms(3-7) a by linarith
  ultimately have time: "h = h'" "mi = mi'" "sec = sec'" using hour by simp_all
  have in_year: "month_start z n + e < year_days z" if "e < month_days z n" "n \<le> 11" for z n e
    using that month_start_mono [of "Suc n" 12 z] month_start_year [of z] month_start_Suc [of z n] by linarith
  have yy: "y = y'" "month_start y m + d = month_start y' m' + d'"
    using year_unique [OF day in_year [OF assms(1,2)] in_year [OF d' g(2), folded y'_def]] by blast+
  then have "m = m'" "d = d'"
    using month_unique [of y m d m' d'] assms(1) d' by (simp_all add: y'_def)
  then show "gmtime_r t = \<lparr> tm_year = y - 1900, tm_mon = int m, tm_mday = int d + 1,
            tm_hour = h, tm_min = mi, tm_sec = sec \<rparr>"
    using g time yy(1) by (simp add: y'_def h'_def mi'_def sec'_def)
qed

section \<open>The seed in unbounded arithmetic\<close>

definition week_nanoseconds :: nat where "week_nanoseconds = 604800 * 10 ^ 9"

definition sample_age :: "b41_nav_utc_sample \<Rightarrow> u64 \<Rightarrow> nat" where
  "sample_age s now = unat now - unat (smp_acquired_ns s)"

definition gps_nanoseconds :: "b41_nav_utc_sample \<Rightarrow> u64 \<Rightarrow> nat" where
  "gps_nanoseconds s now = (unat (smp_unix_ms s) - 315964800000) * 10 ^ 6 + sample_age s now +
     unat (smp_gps_minus_utc_seconds s) * 10 ^ 9"

definition aged_uncertainty :: "b41_nav_utc_sample \<Rightarrow> u64 \<Rightarrow> nat" where
  "aged_uncertainty s now = unat (smp_uncertainty_ms s) + sample_age s now div 10 ^ 6 +
     (if sample_age s now mod 10 ^ 6 \<noteq> 0 then 1 else 0)"

definition seed_of :: "b41_nav_utc_sample \<Rightarrow> u64 \<Rightarrow> b41_nav_time_seed" where
  "seed_of s now =
     \<lparr> seed_gps_week = of_nat (gps_nanoseconds s now div week_nanoseconds),
       seed_tow_seconds = double_bits (fl64 (of_nat (gps_nanoseconds s now mod week_nanoseconds) / 10 ^ 9)),
       seed_uncertainty_ms = float_pattern (fl32 (of_nat (aged_uncertainty s now))) \<rparr>"

definition seed_spec ::
  "b41_nav_utc_sample \<Rightarrow> u64 \<Rightarrow> u64 \<Rightarrow> int + b41_nav_time_seed" where
  "seed_spec s now deadline =
    (if smp_uncertainty_ms s = 0 then Inl (- EINVAL)
     else if unat now < unat (smp_acquired_ns s) then Inl (- ESTALE)
     else if unat deadline \<le> unat now then Inl (- ETIMEDOUT)
     else if unat (smp_unix_ms s) < 315964800000 then Inl (- ERANGE)
     else if 2 ^ 64 \<le> gps_nanoseconds s now then Inl (- EOVERFLOW)
     else if 2000000000 < aged_uncertainty s now then Inl (- ERANGE)
     else Inr (seed_of s now))"

text \<open>The guard before the sum is the exact condition for the sum to fit.\<close>

lemma sum_guard:
  fixes e l d :: nat
  assumes "l < 2 ^ 64"
  shows "(2 ^ 64 - 1 - l < e \<or> (2 ^ 64 - 1 - e - l) div 10 ^ 6 < d) \<longleftrightarrow> 2 ^ 64 \<le> d * 10 ^ 6 + e + l"
proof (cases "2 ^ 64 - 1 - l < e")
  case False
  then have le: "e + l \<le> 2 ^ 64 - 1" using assms by simp
  have "(2 ^ 64 - 1 - e - l) div 10 ^ 6 < d \<longleftrightarrow> 2 ^ 64 - 1 - e - l < d * 10 ^ 6"
    by (rule div_less_iff_less_mult) simp
  then show ?thesis using False le by auto
qed auto

lemma unat_max_minus: "unat (- 1 - x :: u64) = 2 ^ 64 - 1 - unat x"
  using unat_sub [of x "- 1"] by (simp add: unsigned_minus_1_eq_mask mask_eq_exp_minus_1)

lemma unat_leap: "unat (ucast (l :: u8) * 1000000000 :: u64) = unat l * 10 ^ 9"
proof -
  have "unat (ucast l :: u64) = unat l" by (simp add: unsigned_ucast_eq take_bit_nat_eq_self_iff less_trans [OF unsigned_less])
  moreover have "unat l < 256" using unsigned_less [of l] by simp
  ultimately show ?thesis by (simp add: unat_mult_lem [THEN iffD1])
qed

lemma overflow_guard:
  fixes e d :: u64 and l :: u8
  shows "(e > - 1 - ucast l * 1000000000 \<or> d > (- 1 - e - ucast l * 1000000000) div 1000000) \<longleftrightarrow>
    2 ^ 64 \<le> unat d * 10 ^ 6 + unat e + unat l * 10 ^ 9"
proof -
  define k :: u64 where "k = ucast l * 1000000000"
  have k: "unat k = unat l * 10 ^ 9" by (simp only: k_def unat_leap)
  have lt: "unat k < 2 ^ 64" using unsigned_less [of k] by simp
  have first: "e > - 1 - k \<longleftrightarrow> 2 ^ 64 - 1 - unat k < unat e"
    by (simp only: word_less_nat_alt unat_max_minus)
  have second: "unat ((- 1 - e - k) div 1000000) = (2 ^ 64 - 1 - unat e - unat k) div 10 ^ 6"
    if "\<not> e > - 1 - k"
  proof -
    have "k \<le> - 1 - e" using that first lt unat_max_minus [of e] by (simp add: word_le_nat_alt)
    then have "unat (- 1 - e - k) = 2 ^ 64 - 1 - unat e - unat k" by (simp only: unat_sub unat_max_minus)
    then show ?thesis by (simp add: unat_div)
  qed
  have "(e > - 1 - k \<or> d > (- 1 - e - k) div 1000000) \<longleftrightarrow>
    (2 ^ 64 - 1 - unat k < unat e \<or> (2 ^ 64 - 1 - unat e - unat k) div 10 ^ 6 < unat d)"
    using first second by (cases "e > - 1 - k") (simp_all add: word_less_nat_alt)
  then show ?thesis using sum_guard [OF lt, of "unat e" "unat d"] unfolding k_def [symmetric] k by blast
qed

lemma unat_gps_sum:
  fixes e d :: u64 and l :: u8
  assumes "unat d * 10 ^ 6 + unat e + unat l * 10 ^ 9 < 2 ^ 64"
  shows "unat (d * 1000000 + e + ucast l * 1000000000) = unat d * 10 ^ 6 + unat e + unat l * 10 ^ 9"
proof -
  have "unat (d * 1000000) = unat d * 10 ^ 6"
    using assms by (simp add: unat_mult_lem [THEN iffD1])
  moreover from this have "unat (d * 1000000 + e) = unat d * 10 ^ 6 + unat e"
    using assms by (simp add: unat_add_lem [THEN iffD1])
  ultimately show ?thesis
    using assms unat_leap [of l] by (simp add: unat_add_lem [THEN iffD1])
qed

lemma unat_aged:
  fixes e :: u64 and u :: u32
  shows "unat (ucast u + e div 1000000 + (if e mod 1000000 \<noteq> 0 then 1 else 0)) =
    unat u + unat e div 10 ^ 6 + (if unat e mod 10 ^ 6 \<noteq> 0 then 1 else 0)"
proof -
  have "unat u < 2 ^ 32" "unat e < 2 ^ 64" using unsigned_less [of u] unsigned_less [of e] by simp_all
  then have small: "unat u + unat e div 10 ^ 6 + 1 < 2 ^ 64" by simp
  have q: "unat (e div 1000000) = unat e div 10 ^ 6" by (simp add: unat_div)
  have r: "e mod 1000000 = 0 \<longleftrightarrow> unat e mod 10 ^ 6 = 0"
    by (simp add: unat_mod flip: unat_eq_0)
  have "unat (ucast u + e div 1000000) = unat u + unat e div 10 ^ 6"
    using small q by (simp add: unat_add_lem [THEN iffD1])
  then show ?thesis
    unfolding r using small by (simp add: unat_add_lem [THEN iffD1])
qed

lemma seed_build_exact:
  "b41_nav_time_seed_build (At a s) now deadline (At b old) =
    (case seed_spec s now deadline of Inl e \<Rightarrow> (e, At b old) | Inr seed \<Rightarrow> (0, At b seed))"
proof (cases "smp_uncertainty_ms s = 0 \<or> now < smp_acquired_ns s \<or> deadline \<le> now \<or> smp_unix_ms s < 315964800000")
  case True
  then show ?thesis
    by (auto simp: b41_nav_time_seed_build_def seed_spec_def word_less_nat_alt word_le_nat_alt)
next
  case False
  define e where "e = now - smp_acquired_ns s"
  define d where "d = smp_unix_ms s - 315964800000"
  define l where "l = smp_gps_minus_utc_seconds s"
  define g where "g = d * 1000000 + e + ucast l * 1000000000"
  define u where "u = ucast (smp_uncertainty_ms s) + e div 1000000 + (if e mod 1000000 \<noteq> 0 then 1 else 0)"
  have e: "unat e = sample_age s now" using False by (simp add: e_def sample_age_def unat_sub not_less)
  have "unat d = unat (smp_unix_ms s) - 315964800000" using False by (simp add: d_def unat_sub not_less)
  then have gps: "unat d * 10 ^ 6 + unat e + unat l * 10 ^ 9 = gps_nanoseconds s now"
    by (simp only: gps_nanoseconds_def e l_def)
  have u: "unat u = aged_uncertainty s now"
    unfolding u_def unat_aged e aged_uncertainty_def ..
  have guards: "\<not> smp_uncertainty_ms s = 0" "\<not> now < smp_acquired_ns s" "\<not> now \<ge> deadline"
    "\<not> smp_unix_ms s < 315964800000" using False by simp_all
  have spec: "seed_spec s now deadline =
     (if 2 ^ 64 \<le> gps_nanoseconds s now then Inl (- EOVERFLOW)
      else if 2000000000 < aged_uncertainty s now then Inl (- ERANGE) else Inr (seed_of s now))"
    using guards by (simp add: seed_spec_def word_less_nat_alt word_le_nat_alt)
  have build: "b41_nav_time_seed_build (At a s) now deadline (At b old) =
     (if 2 ^ 64 \<le> gps_nanoseconds s now then (- EOVERFLOW, At b old)
      else if g div 604800000000000 > 32767 then (- ERANGE, At b old)
      else if u > 2000000000 then (- ERANGE, At b old)
      else (0, At b \<lparr> seed_gps_week = ucast (g div 604800000000000),
             seed_tow_seconds = double_bits (fl64 (fl64 (of_nat (unat (g mod 604800000000000))) / 1000000000)),
             seed_uncertainty_ms = float_pattern (fl32 (of_nat (unat u))) \<rparr>))"
    using guards overflow_guard [of l e d] unfolding gps
    by (simp add: b41_nav_time_seed_build_def Let_def e_def d_def l_def g_def u_def cong: if_cong split del: if_split)
  show ?thesis
  proof (cases "2 ^ 64 \<le> gps_nanoseconds s now")
    case True
    then show ?thesis unfolding build spec by simp
  next
    case small: False
    then have g: "unat g = gps_nanoseconds s now"
      using unat_gps_sum [of d e l] unfolding gps g_def by simp
    have gd: "unat (g div 604800000000000) = gps_nanoseconds s now div week_nanoseconds"
      and gm: "unat (g mod 604800000000000) = gps_nanoseconds s now mod week_nanoseconds"
      using g by (simp_all add: unat_div unat_mod week_nanoseconds_def)
    have "gps_nanoseconds s now div week_nanoseconds \<le> 30500"
      using small by (simp add: week_nanoseconds_def)
    then have week: "\<not> g div 604800000000000 > 32767" by (simp add: word_less_nat_alt gd)
    have "gps_nanoseconds s now mod week_nanoseconds < 2 ^ 53"
      by (rule less_trans [OF mod_less_divisor]) (simp_all add: week_nanoseconds_def)
    then have exact: "fl64 (of_nat (unat (g mod 604800000000000))) = of_nat (gps_nanoseconds s now mod week_nanoseconds)"
      using fl_of_int [of "int (gps_nanoseconds s now mod week_nanoseconds)" 53 "- 1074"] by (simp add: gm fl64_def)
    have "ucast (g div 604800000000000) = (of_nat (unat (g div 604800000000000)) :: u16)"
      by simp
    then have cast: "ucast (g div 604800000000000) = (of_nat (gps_nanoseconds s now div week_nanoseconds) :: u16)"
      by (simp only: gd)
    show ?thesis
      using small week unfolding build spec
      by (simp add: word_less_nat_alt u exact [simplified] cast seed_of_def)
  qed
qed

section \<open>A seed that is built is accepted\<close>

lemma tow_bounds:
  assumes "n < week_nanoseconds"
  defines "x \<equiv> of_nat n / 10 ^ 9 :: rat"
  shows "0 \<le> fl64 x" "fl64 x < 604800" "\<bar>fl64 x - x\<bar> \<le> 1 / 2 ^ 34"
proof -
  have n: "(of_nat n :: rat) \<le> 604799999999999"
  proof -
    have "n \<le> 604799999999999" using assms(1) by (simp add: week_nanoseconds_def)
    then have "(of_nat n :: rat) \<le> of_nat 604799999999999" by (simp only: of_nat_le_iff)
    then show ?thesis by simp
  qed
  then have x: "0 \<le> x" "x \<le> 604800 - 1 / 10 ^ 9" by (simp_all add: x_def)
  then have "\<bar>fl 53 (- 1074) x - x\<bar> \<le> 2 powi (20 - int 53 - 1)" by (intro fl_error) simp_all
  moreover have "(2 powi (20 - int 53 - 1) :: rat) = 1 / 2 ^ 34" by (simp add: power_int_minus_divide)
  ultimately show near: "\<bar>fl64 x - x\<bar> \<le> 1 / 2 ^ 34" by (simp add: fl64_def)
  show "0 \<le> fl64 x" using x(1) by (simp add: fl64_def fl_nonneg)
  have "x \<le> 604800 - 1 / 1000000000" "fl64 x - x \<le> 1 / 17179869184" using x(2) abs_le_D1 [OF near] by simp_all
  then show "fl64 x < 604800" by linarith
qed

lemma uncertainty_bounds:
  assumes "0 < n" and "n \<le> 2000000000"
  shows "0 < fl32 (of_nat n)" "fl32 (of_nat n) \<le> 2000000000" "\<bar>fl32 (of_nat n) - of_nat n\<bar> \<le> 64"
proof -
  have n: "(1 :: rat) \<le> of_nat n" "(of_nat n :: rat) \<le> 2000000000"
    using assms of_nat_le_iff [of 1 n, where ?'a = rat] of_nat_le_iff [of n 2000000000, where ?'a = rat] by simp_all
  then show "0 < fl32 (of_nat n)" using fl_range(1) [of 1 "of_nat n" "of_nat n"] by simp
  have "fl 24 (- 149) (of_nat n) \<le> of_int 3906250 * 2 powi 9"
    using n by (intro fl_le_grid [of _ _ _ 31]) simp_all
  then show "fl32 (of_nat n) \<le> 2000000000" by (simp add: fl32_def)
  have "\<bar>fl 24 (- 149) (of_nat n) - of_nat n\<bar> \<le> 2 powi (31 - int 24 - 1)"
    using n by (intro fl_error) simp_all
  then show "\<bar>fl32 (of_nat n) - of_nat n\<bar> \<le> 64" by (simp add: fl32_def)
qed

definition time_message :: "b41_nav_time_seed \<Rightarrow> bytes" where
  "time_message s = put16 1016 @ put16 232 @ put32 8 @ zeroed 132 @ put16 (seed_gps_week s) @ zeroed 6 @
     put_le64 (seed_tow_seconds s) @ put32 (seed_uncertainty_ms s) @ zeroed 76"

lemma time_message_blits:
  "blit (blit (blit (blit (blit (blit (zeroed 236) 0 (put16 1016)) 2 (put16 232)) 4 (put32 8))
     0x8c (put16 (seed_gps_week s))) 0x94 (put_le64 (seed_tow_seconds s))) 0x9c (put32 (seed_uncertainty_ms s)) =
   time_message s"
proof -
  have z: "zeroed 236 = zeroed 2 @ zeroed 2 @ zeroed 4 @ zeroed 132 @ zeroed 2 @ zeroed 6 @ zeroed 8 @ zeroed 4 @ zeroed 76"
    by (simp flip: zeroed_add)
  show ?thesis
    unfolding z time_message_def
    by (simp add: blit_append_right blit_append_left blit_whole)
qed

lemma seed_accepted:
  assumes "seed_spec s now deadline = Inr seed"
  shows "seed = seed_of s now" "gps_nanoseconds s now < 2 ^ 64"
    "unat (seed_gps_week seed) = gps_nanoseconds s now div week_nanoseconds"
    "\<bar>double_value (seed_tow_seconds seed) - of_nat (gps_nanoseconds s now mod week_nanoseconds) / 10 ^ 9\<bar> \<le> 1 / 2 ^ 34"
    "\<bar>float_value (seed_uncertainty_ms seed) - of_nat (aged_uncertainty s now)\<bar> \<le> 64"
    "b41_nav_time_message_encode (At b seed) (At c buffer) capacity =
       (if capacity < 236 then (- ENOSPC, At c buffer)
        else (0, At c (blit buffer 0 (time_message seed))))"
proof -
  let ?g = "gps_nanoseconds s now" and ?u = "aged_uncertainty s now"
  show seed: "seed = seed_of s now" and g: "?g < 2 ^ 64"
    using assms by (simp_all add: seed_spec_def not_le split: if_splits)
  have "0 < unat (smp_uncertainty_ms s)"
    using assms by (auto simp: seed_spec_def unsigned_eq_0_iff split: if_splits intro!: gr0I)
  then have u: "0 < ?u" "?u \<le> 2000000000"
    using assms by (auto simp: seed_spec_def aged_uncertainty_def split: if_splits)
  have week: "?g div week_nanoseconds \<le> 30500" using g by (simp add: week_nanoseconds_def)
  show w: "unat (seed_gps_week seed) = ?g div week_nanoseconds"
    using week unfolding seed seed_of_def by (simp add: unat_of_nat)
  have m: "?g mod week_nanoseconds < week_nanoseconds" by (simp add: week_nanoseconds_def)
  note t = tow_bounds [OF m] and v = uncertainty_bounds [OF u]
  have big: "(604800 :: rat) < 2 powi 1000" "(2000000000 :: rat) < 2 powi 100"
    using power_int_increasing [of 20 1000 "2 :: rat"] by simp_all
  have tow: "double_value (seed_tow_seconds seed) = fl64 (of_nat (?g mod week_nanoseconds) / 10 ^ 9)"
      "double_finite (seed_tow_seconds seed)"
    using double_bits_value [OF t(1)] t(2) big(1) unfolding seed seed_of_def by simp_all
  have unc: "float_value (seed_uncertainty_ms seed) = fl32 (of_nat ?u)" "float_is_finite (seed_uncertainty_ms seed)"
    using float_pattern_value [of "of_nat ?u"] v(1,2) big(2) unfolding seed seed_of_def by simp_all
  show "\<bar>double_value (seed_tow_seconds seed) - of_nat (?g mod week_nanoseconds) / 10 ^ 9\<bar> \<le> 1 / 2 ^ 34"
    using t(3) by (simp add: tow)
  show "\<bar>float_value (seed_uncertainty_ms seed) - of_nat ?u\<bar> \<le> 64" using v(3) by (simp add: unc)
  have "\<not> seed_gps_week seed > 32767" using w week by (simp add: word_less_nat_alt)
  then show "b41_nav_time_message_encode (At b seed) (At c buffer) capacity =
       (if capacity < 236 then (- ENOSPC, At c buffer)
        else (0, At c (blit buffer 0 (time_message seed))))"
    using t(1,2) v(1,2) tow unc
    by (auto simp: b41_nav_time_message_encode_def Let_def time_message_blits)
qed

text \<open>
  C15. Starting from a UTC sample, the builder of time seeds computes in 64-bit words exactly what
  unbounded arithmetic gives: it refuses a sample without uncertainty, from the future, past
  the deadline, before the GPS epoch, and one whose GPS time does not fit 64 bits of nanoseconds
  or whose aged uncertainty exceeds two million seconds, and leaves its output alone then. A seed that
  it builds names the GPS week exactly, the time of week within 2^-34 seconds and the
  uncertainty within 64 milliseconds, and the encoder of the time message always takes it,
  writing the whole message when the buffer has the capacity.
\<close>
theorem time_seed_exact:
  "case seed_spec s now deadline of
     Inl e \<Rightarrow> b41_nav_time_seed_build (At a s) now deadline (At b old) = (e, At b old)
   | Inr seed \<Rightarrow>
       b41_nav_time_seed_build (At a s) now deadline (At b old) = (0, At b seed) \<and>
       gps_nanoseconds s now < 2 ^ 64 \<and>
       unat (seed_gps_week seed) = gps_nanoseconds s now div week_nanoseconds \<and>
       \<bar>double_value (seed_tow_seconds seed) - of_nat (gps_nanoseconds s now mod week_nanoseconds) / 10 ^ 9\<bar> \<le> 1 / 2 ^ 34 \<and>
       \<bar>float_value (seed_uncertainty_ms seed) - of_nat (aged_uncertainty s now)\<bar> \<le> 64 \<and>
       b41_nav_time_message_encode (At b seed) (At c buffer) capacity =
         (if capacity < 236 then (- ENOSPC, At c buffer)
          else (0, At c (blit buffer 0 (time_message seed))))"
  using seed_build_exact [of a s now deadline b old] seed_accepted [of s now deadline]
  by (simp split: sum.split)

section \<open>Which POSITION records are fixes\<close>

definition position_header :: "bytes \<Rightarrow> bool" where
  "position_header r \<longleftrightarrow> le32 r = 0x0c600000"

definition no_fix :: "bytes \<Rightarrow> bool" where
  "no_fix r \<longleftrightarrow> position_header r \<and>
     (r ! 0x19 = 1 \<or> r ! 0x19 = 0xff \<or> (r ! 0x19 = 2 \<or> r ! 0x19 = 3) \<and> r ! 0x18 = 0)"

text \<open>The civil date of the record is a date, and it is the instant its GPS time names.\<close>

definition civil_instant :: "bytes \<Rightarrow> int \<Rightarrow> bool" where
  "civil_instant r t \<longleftrightarrow>
    (let y = 1900 + int (unat (le16 (drop 4 r))); m = unat (r ! 6); d = unat (r ! 7)
     in unat (le16 (drop 4 r)) \<le> 8099 \<and> m \<le> 11 \<and> 1 \<le> d \<and> d \<le> month_days y m \<and> unat (r ! 8) \<le> 23 \<and>
        unat (r ! 9) \<le> 59 \<and> unat (r ! 10) \<le> 59 \<and>
        posix_seconds y m (int d) (int (unat (r ! 8))) (int (unat (r ! 9))) (int (unat (r ! 10))) = t)"

definition gps_instant :: "bytes \<Rightarrow> int" where
  "gps_instant r = int (unat (le16 (drop 0x12 r))) * 604800 + int (unat (le32 (drop 0x14 r))) +
     315964800 - sint (le16 (drop 0x10 r))"

definition coordinates_sane :: "bytes \<Rightarrow> bool" where
  "coordinates_sane r \<longleftrightarrow>
    (let lat = get_le64 (drop 0x30 r); lon = get_le64 (drop 0x38 r);
         alt = get_le64 (drop 0x40 r); speed = le32 (drop 0x50 r)
     in double_finite lat \<and> \<bar>double_value lat\<bar> \<le> 90 \<and> double_finite lon \<and> \<bar>double_value lon\<bar> \<le> 180 \<and>
        float_is_finite speed \<and> 0 \<le> float_value speed \<and>
        \<not> (515 < float_value speed \<and> double_exceeds alt 18270) \<and> (r ! 0x19 = 2 \<or> double_finite alt))"

definition fix_admissible :: "bytes \<Rightarrow> bool" where
  "fix_admissible r \<longleftrightarrow> position_header r \<and> (r ! 0x19 = 2 \<or> r ! 0x19 = 3) \<and>
     (r ! 0x18 = 1 \<or> r ! 0x18 = 2 \<or> r ! 0x18 = 3 \<or> r ! 0x18 = 5) \<and>
     unat (le16 (drop 12 r)) \<le> 999 \<and> unat (le16 (drop 0x12 r)) \<le> 32767 \<and>
     unat (le32 (drop 0x14 r)) < 604800 \<and> civil_instant r (gps_instant r) \<and> coordinates_sane r"

definition fix_of :: "bytes \<Rightarrow> b41_nav_host_position" where
  "fix_of r = (position_civil_fields r (position_state_fields r))
     \<lparr> pos_latitude_degrees := get_le64 (drop 0x30 r), pos_longitude_degrees := get_le64 (drop 0x38 r),
       pos_altitude := (if r ! 0x19 = 2 then 0 else get_le64 (drop 0x40 r)),
       pos_speed_field50 := le32 (drop 0x50 r),
       pos_state := (if r ! 0x19 = 2 then B41_NAV_POSITION_2D else B41_NAV_POSITION_3D) \<rparr>"

lemma coordinates_result:
  fixes r :: bytes
  defines "p \<equiv> position_civil_fields r (position_state_fields r)"
  shows "position_coordinates r p = (if coordinates_sane r then Inr (fix_of r) else Inl (- ERANGE))"
proof -
  have "pos_dimension_byte p = r ! 0x19" "pos_altitude p = 0"
    by (simp_all add: p_def position_civil_fields_def position_state_fields_def zero_position_def)
  then show ?thesis
    unfolding position_coordinates_def coordinates_sane_def fix_of_def p_def [symmetric] Let_def
    by (cases p) (auto simp: not_le not_less)
qed

lemma civil_fields:
  fixes r :: bytes
  defines "p \<equiv> position_civil_fields r (position_state_fields r)"
  assumes "\<not> (le16 (drop 4 r) > 8099 \<or> r ! 6 > 11)"
  shows "int (unat (pos_year p)) = 1900 + int (unat (le16 (drop 4 r)))" "unat (pos_month p) = Suc (unat (r ! 6))"
    "day_limit p = month_days (1900 + int (unat (le16 (drop 4 r)))) (unat (r ! 6))"
    "unix_seconds p = gps_instant r"
proof -
  have y: "unat (le16 (drop 4 r)) \<le> 8099" and m: "unat (r ! 6) \<le> 11"
    using assms(2) by (simp_all add: word_less_nat_alt not_less)
  have "unat (1900 + le16 (drop 4 r)) = 1900 + unat (le16 (drop 4 r))"
    using y by (simp add: unat_add_lem [THEN iffD1])
  then have year: "unat (pos_year p) = 1900 + unat (le16 (drop 4 r))"
    by (simp add: p_def position_civil_fields_def)
  then show yi: "int (unat (pos_year p)) = 1900 + int (unat (le16 (drop 4 r)))" by simp
  show month: "unat (pos_month p) = Suc (unat (r ! 6))"
    using m by (simp add: p_def position_civil_fields_def unat_add_lem [THEN iffD1])
  show "unix_seconds p = gps_instant r"
    by (simp add: p_def unix_seconds_def gps_instant_def position_civil_fields_def position_state_fields_def zero_position_def)
  obtain n where n: "unat (pos_year p) = n" by blast
  have mods: "pos_year p mod 4 = 0 \<longleftrightarrow> n mod 4 = 0" "pos_year p mod 100 = 0 \<longleftrightarrow> n mod 100 = 0"
    "pos_year p mod 400 = 0 \<longleftrightarrow> n mod 400 = 0"
    unfolding n [symmetric] by (simp_all flip: unat_eq_zero add: unat_mod)
  have ints: "int n mod 4 = 0 \<longleftrightarrow> n mod 4 = 0" "int n mod 100 = 0 \<longleftrightarrow> n mod 100 = 0"
    "int n mod 400 = 0 \<longleftrightarrow> n mod 400 = 0"
    by (metis of_nat_eq_0_iff of_nat_numeral zmod_int)+
  have "leap_year (int (unat (pos_year p))) \<longleftrightarrow>
      pos_year p mod 4 = 0 \<and> (pos_year p mod 100 \<noteq> 0 \<or> pos_year p mod 400 = 0)"
    unfolding leap_year_def n mods ints ..
  moreover have "pos_month p = 2 \<longleftrightarrow> unat (r ! 6) = 1"
    using month by (simp add: word_unat_eq_iff)
  ultimately show "day_limit p = month_days (1900 + int (unat (le16 (drop 4 r)))) (unat (r ! 6))"
    unfolding day_limit_def month_days_def yi [symmetric] by (simp add: month)
qed

lemma civil_instant_iff:
  fixes r :: bytes
  defines "p \<equiv> position_civil_fields r (position_state_fields r)"
  assumes y: "\<not> (le16 (drop 4 r) > 8099 \<or> r ! 6 > 11)"
    and f: "\<not> (pos_day p = 0 \<or> unat (pos_day p) > day_limit p \<or> pos_hour p > 23 \<or>
      pos_minute p > 59 \<or> pos_second p > 60 \<or> pos_milliseconds p > 999)"
  shows "civil_agrees (gmtime_r t) p \<longleftrightarrow> civil_instant r t"
proof -
  define Y where "Y = 1900 + int (unat (le16 (drop 4 r)))"
  define d where "d = unat (r ! 7) - 1"
  note c = civil_fields [OF y, folded p_def Y_def]
  have fields: "pos_day p = r ! 7" "pos_hour p = r ! 8" "pos_minute p = r ! 9" "pos_second p = r ! 10"
    by (simp_all add: p_def position_civil_fields_def)
  have d: "unat (r ! 7) = Suc d"
    using f fields(1) by (auto simp: d_def unat_eq_zero intro!: Suc_pred [symmetric] gr0I)
  have bounds: "d < month_days Y (unat (r ! 6))" "unat (r ! 6) \<le> 11" "unat (r ! 8) \<le> 23" "unat (r ! 9) \<le> 59" "unat (le16 (drop 4 r)) \<le> 8099"
    using f y d by (simp_all add: fields c(3) word_less_nat_alt not_less Y_def)
  have "civil_agrees (gmtime_r t) p \<longleftrightarrow>
      gmtime_r t = \<lparr> tm_year = Y - 1900, tm_mon = int (unat (r ! 6)), tm_mday = int d + 1,
        tm_hour = int (unat (r ! 8)), tm_min = int (unat (r ! 9)), tm_sec = int (unat (r ! 10)) \<rparr>"
    unfolding civil_agrees_def c(1,2) fields d by (cases "gmtime_r t") auto
  also have "\<dots> \<longleftrightarrow> int (unat (r ! 10)) \<le> 59 \<and>
      posix_seconds Y (unat (r ! 6)) (int d + 1) (int (unat (r ! 8))) (int (unat (r ! 9))) (int (unat (r ! 10))) = t"
    using bounds by (intro gmtime_iff) (simp_all del: of_nat_unat)
  finally show ?thesis
    using bounds unfolding civil_instant_def Y_def [symmetric] by (auto simp: d add.commute simp del: of_nat_unat)
qed

lemma civil_instant_fields:
  fixes r :: bytes
  defines "p \<equiv> position_civil_fields r (position_state_fields r)"
  assumes "civil_instant r t"
  shows "\<not> (le16 (drop 4 r) > 8099 \<or> r ! 6 > 11)"
    and "unat (le16 (drop 12 r)) \<le> 999 \<Longrightarrow>
      \<not> (pos_day p = 0 \<or> unat (pos_day p) > day_limit p \<or> pos_hour p > 23 \<or>
      pos_minute p > 59 \<or> pos_second p > 60 \<or> pos_milliseconds p > 999)"
proof -
  show y: "\<not> (le16 (drop 4 r) > 8099 \<or> r ! 6 > 11)"
    using assms(2) by (auto simp: civil_instant_def Let_def word_less_nat_alt)
  have fields: "pos_day p = r ! 7" "pos_hour p = r ! 8" "pos_minute p = r ! 9" "pos_second p = r ! 10"
      "pos_milliseconds p = le16 (drop 12 r)"
    by (simp_all add: p_def position_civil_fields_def)
  assume "unat (le16 (drop 12 r)) \<le> 999"
  then show "\<not> (pos_day p = 0 \<or> unat (pos_day p) > day_limit p \<or> pos_hour p > 23 \<or>
      pos_minute p > 59 \<or> pos_second p > 60 \<or> pos_milliseconds p > 999)"
    using assms(2) unfolding civil_instant_def Let_def fields civil_fields(3) [OF y, folded p_def]
    by (auto simp: word_less_nat_alt)
qed

lemma position_decode_fix:
  assumes "fix_admissible r"
  shows "b41_nav_host_position_decode (At a r) 0xc60 (At b old) = (0, At b (fix_of r))"
proof -
  let ?s = "position_state_fields r"
  let ?p = "position_civil_fields r ?s"
  have dim: "pos_dimension_byte ?s = r ! 0x19" "pos_quality_byte ?s = r ! 0x18"
    "pos_gps_week ?p = le16 (drop 0x12 r)" "pos_gps_tow_seconds ?p = le32 (drop 0x14 r)"
    by (simp_all add: position_state_fields_def position_civil_fields_def zero_position_def)
  have c: "civil_instant r (gps_instant r)" and ms: "unat (le16 (drop 12 r)) \<le> 999"
    using assms by (simp_all add: fix_admissible_def)
  note y = civil_instant_fields(1) [OF c] and f = civil_instant_fields(2) [OF c ms]
  have agrees: "civil_agrees (gmtime_r (unix_seconds ?p)) ?p"
    using civil_instant_iff [OF y f] c by (simp add: civil_fields(4) [OF y])
  have week: "\<not> (pos_gps_week ?p > 32767 \<or> pos_gps_tow_seconds ?p \<ge> 604800)"
    using assms by (simp add: fix_admissible_def dim word_less_nat_alt word_le_nat_alt)
  have head: "le32 r = 0x0c600000" "r ! 0x19 = 2 \<or> r ! 0x19 = 3"
      "r ! 0x18 = 1 \<or> r ! 0x18 = 2 \<or> r ! 0x18 = 3 \<or> r ! 0x18 = 5" "coordinates_sane r"
    using assms by (simp_all add: fix_admissible_def position_header_def)
  then have "\<not> (pos_dimension_byte ?s < 2 \<or> pos_dimension_byte ?s = 0xff \<or> pos_quality_byte ?s = 0)"
      "\<not> (pos_dimension_byte ?s \<noteq> 1 \<and> pos_dimension_byte ?s \<noteq> 2 \<and> pos_dimension_byte ?s \<noteq> 3 \<and> pos_dimension_byte ?s \<noteq> 0xff)"
      "\<not> (pos_quality_byte ?s \<noteq> 1 \<and> pos_quality_byte ?s \<noteq> 2 \<and> pos_quality_byte ?s \<noteq> 3 \<and> pos_quality_byte ?s \<noteq> 5)"
    unfolding dim by auto
  note guards = this
  show ?thesis
    unfolding b41_nav_host_position_decode_def Let_def ptr.sel
      if_not_P [OF guards(1)] if_not_P [OF guards(2)] if_not_P [OF guards(3)] if_not_P [OF y] if_not_P [OF f] if_not_P [OF week]
    using head(1,4) agrees by (simp add: coordinates_result)
qed

lemma position_decode_no_fix:
  assumes "no_fix r"
  shows "b41_nav_host_position_decode (At a r) 0xc60 (At b old) = (0, At b (position_state_fields r))"
proof -
  let ?s = "position_state_fields r"
  have dim: "pos_dimension_byte ?s = r ! 0x19" "pos_quality_byte ?s = r ! 0x18"
    by (simp_all add: position_state_fields_def)
  have guards: "le32 r = 0x0c600000"
      "\<not> (pos_dimension_byte ?s \<noteq> 1 \<and> pos_dimension_byte ?s \<noteq> 2 \<and> pos_dimension_byte ?s \<noteq> 3 \<and> pos_dimension_byte ?s \<noteq> 0xff)"
      "pos_dimension_byte ?s < 2 \<or> pos_dimension_byte ?s = 0xff \<or> pos_quality_byte ?s = 0"
    using assms unfolding no_fix_def position_header_def dim by auto
  show ?thesis
    unfolding b41_nav_host_position_decode_def Let_def ptr.sel if_not_P [OF guards(2)] if_P [OF guards(3)]
    using guards(1) by simp
qed

lemma position_decode_refused:
  assumes "\<not> fix_admissible r" and "\<not> no_fix r"
  shows "fst (b41_nav_host_position_decode (At a r) 0xc60 (At b old)) < 0 \<and>
    snd (b41_nav_host_position_decode (At a r) 0xc60 (At b old)) = At b old"
proof -
  let ?s = "position_state_fields r"
  let ?p = "position_civil_fields r ?s"
  have dim: "pos_dimension_byte ?s = r ! 0x19" "pos_quality_byte ?s = r ! 0x18"
    "pos_gps_week ?p = le16 (drop 0x12 r)" "pos_gps_tow_seconds ?p = le32 (drop 0x14 r)"
    "pos_milliseconds ?p = le16 (drop 12 r)"
    by (simp_all add: position_state_fields_def position_civil_fields_def zero_position_def)
  define range where "range \<longleftrightarrow> le16 (drop 4 r) > 8099 \<or> r ! 6 > 11"
  define civil where "civil \<longleftrightarrow> pos_day ?p = 0 \<or> unat (pos_day ?p) > day_limit ?p \<or> pos_hour ?p > 23 \<or>
      pos_minute ?p > 59 \<or> pos_second ?p > 60 \<or> pos_milliseconds ?p > 999"
  define agrees where "agrees \<longleftrightarrow> civil_agrees (gmtime_r (unix_seconds ?p)) ?p"
  define week where "week \<longleftrightarrow> pos_gps_week ?p > 32767 \<or> pos_gps_tow_seconds ?p \<ge> 604800"
  define useless where "useless \<longleftrightarrow> pos_dimension_byte ?s < 2 \<or> pos_dimension_byte ?s = 0xff \<or> pos_quality_byte ?s = 0"
  define known where "known \<longleftrightarrow> r ! 0x19 = 1 \<or> r ! 0x19 = 2 \<or> r ! 0x19 = 3 \<or> r ! 0x19 = 0xff"
  define good where "good \<longleftrightarrow> r ! 0x18 = 1 \<or> r ! 0x18 = 2 \<or> r ! 0x18 = 3 \<or> r ! 0x18 = 5"
  have useless_no_fix: "no_fix r" if "le32 r = 0x0c600000" "known" "useless"
    using that by (auto simp: no_fix_def position_header_def known_def useless_def dim)
  have complete: "fix_admissible r"
    if "le32 r = 0x0c600000" "known" "\<not> useless" "good" "\<not> range" "\<not> civil" "\<not> week" "agrees" "coordinates_sane r"
  proof -
    have "civil_instant r (gps_instant r)"
      using civil_instant_iff [OF that(5) [unfolded range_def] that(6) [unfolded civil_def], of "unix_seconds ?p"]
        that(8) civil_fields(4) [OF that(5) [unfolded range_def]] by (simp add: agrees_def)
    moreover have "unat (le16 (drop 12 r)) \<le> 999"
      using that(6) by (simp add: civil_def dim word_less_nat_alt)
    ultimately show ?thesis
      using that by (auto simp: fix_admissible_def position_header_def known_def useless_def good_def week_def dim
          word_less_nat_alt word_le_nat_alt)
  qed
  have "b41_nav_host_position_decode (At a r) 0xc60 (At b old) =
     (if le32 r \<noteq> 0x0c600000 then (- EPROTO, At b old)
      else if \<not> known then (- EPROTO, At b old)
      else if useless then (0, At b ?s)
      else if \<not> good then (- EOPNOTSUPP, At b old)
      else if range then (- ERANGE, At b old)
      else if civil then (- ERANGE, At b old)
      else if week then (- ERANGE, At b old)
      else if \<not> agrees then (- EPROTO, At b old)
      else if coordinates_sane r then (0, At b (fix_of r)) else (- ERANGE, At b old))"
    unfolding b41_nav_host_position_decode_def Let_def ptr.sel
      range_def [symmetric] civil_def [symmetric] week_def [symmetric] useless_def [symmetric] agrees_def [symmetric]
    by (cases "coordinates_sane r")
      (simp_all add: known_def good_def dim coordinates_result cong: if_cong split del: if_split)
  then show ?thesis
    using useless_no_fix complete assms by auto
qed

text \<open>
  C16. A POSITION record of the right size becomes a fix exactly when its header, dimension and
  quality are known, its civil date is a real date that names, by the POSIX formula, the same instant as its GPS
  week, time of week and UTC correction, and its coordinates, altitude and speed are finite and in range. The fix then carries the
  fields of the record. A record that declares itself without a fix yields its state bytes
  only. Every other record is refused with the output untouched.
\<close>
theorem host_position_exact:
  "let (result, out) = b41_nav_host_position_decode (At a r) B41_NAV_POSITION_SIZE (At b old) in
   if fix_admissible r then result = 0 \<and> out = At b (fix_of r)
   else if no_fix r then result = 0 \<and> out = At b (position_state_fields r)
   else result < 0 \<and> out = At b old"
  using position_decode_fix [of r a b old] position_decode_no_fix [of r a b old]
    position_decode_refused [of r a b old]
  by (simp add: case_prod_unfold)

end
