(* ===== verification/Dsp_Clock.thy ===== *)
theory Dsp_Clock
  imports Binary_Float
begin

text \<open>
  The clock synthesis of the DSP bootstrap,
  \<^verbatim>\<open>patches/gnss-navigation-audit/dsp-download/clock.c\<close>: rounding to the nearest integer with
  halves upwards, and the fourteen synthesis words computed from the effective frequency in
  binary32 and binary64 arithmetic. The rounding mode of the process is an input.
\<close>

unbundle bit_operations_syntax

abbreviation B41_MVCD_CLOCK_OK :: int where "B41_MVCD_CLOCK_OK \<equiv> 0"
abbreviation B41_MVCD_CLOCK_ARGUMENT :: int where "B41_MVCD_CLOCK_ARGUMENT \<equiv> -1"
abbreviation B41_MVCD_CLOCK_ENVIRONMENT :: int where "B41_MVCD_CLOCK_ENVIRONMENT \<equiv> -2"
abbreviation B41_MVCD_CLOCK_RANGE :: int where "B41_MVCD_CLOCK_RANGE \<equiv> -3"

record b41_mvcd_clock_fields =
  parameter_a :: u16
  parameter_b :: u16
  synthesis :: bytes

text \<open>A binary64 argument: a finite number, or an infinity or NaN.\<close>

datatype double = Finite rat | Nonfinite

definition binary32 :: "u32 \<Rightarrow> rat" where
  "binary32 bits =
    (let s = (if bit bits 31 then -1 else 1); e = unat (drop_bit 23 bits AND 0xff);
         m = unat (bits AND 0x7fffff)
     in s * (if e = 0 then of_nat m * 2 powi (- 149) else of_nat (2 ^ 23 + m) * 2 powi (int e - 150)))"

definition binary64 :: "u64 \<Rightarrow> rat" where
  "binary64 bits =
    (let s = (if bit bits 63 then -1 else 1); e = unat (drop_bit 52 bits AND 0x7ff);
         m = unat (bits AND 0xfffffffffffff)
     in s * (if e = 0 then of_nat m * 2 powi (- 1074) else of_nat (2 ^ 52 + m) * 2 powi (int e - 1075)))"

definition b41_mvcd_clock_round :: "bool \<Rightarrow> double \<Rightarrow> int ptr \<Rightarrow> int \<times> int ptr" where
  "b41_mvcd_clock_round tonearest value out =
    (if out = Null then (B41_MVCD_CLOCK_ARGUMENT, out)
     else if \<not> tonearest then (B41_MVCD_CLOCK_ENVIRONMENT, out)
     else case value of
       Nonfinite \<Rightarrow> (B41_MVCD_CLOCK_RANGE, out)
     | Finite v \<Rightarrow>
         if \<bar>v\<bar> \<ge> 2 ^ 62 then (B41_MVCD_CLOCK_RANGE, out)
         else let lower = \<lfloor>v\<rfloor>; upper = \<lceil>v\<rceil>;
                  midpoint = fl64 (of_int (lower + upper));
                  midpoint = fl64 (midpoint * (1/2))
              in (B41_MVCD_CLOCK_OK, store out (if midpoint > v then lower else upper)))"

definition clock_primary :: "u16 list" where "clock_primary = [138, 220, 307, 97, 151]"
definition clock_companion :: "u16 list" where "clock_companion = [121, 193, 265, 84, 131]"

definition clock_table :: "u32 \<Rightarrow> nat" where
  "clock_table hz =
    (let frequency32 = fl32 (of_nat (unat hz)) in
     if hz = 16368000 then 1
     else if frequency32 = binary32 0x4bc65d40 then 2
     else if frequency32 = binary32 0x4c189680 then 3
     else if hz = 12000000 then 4
     else if frequency32 = binary32 0x4b927c00 then 5
     else 0)"

definition clock_coefficient :: "u32 \<Rightarrow> u32" where
  "clock_coefficient hz =
    (if hz = 16368000 then 84
     else if hz = 26000000 then 157
     else if hz - 12000000 < 7000000 then 100
     else if hz - 19000000 < 7000000 then 150
     else if hz - 26000001 < 6999999 then 200
     else if hz - 33000000 \<le> 7000000 then 250
     else 0)"

text \<open>The generated timer of a frequency outside the tables, for one of the two constants.\<close>

definition generated_timer :: "u32 \<Rightarrow> u32 \<Rightarrow> rat" where
  "generated_timer constant hz =
    (let scaled32 = fl32 (binary32 constant * fl32 (of_nat (unat hz)));
         scaled32 = fl32 (scaled32 + scaled32)
     in fl64 (scaled32 / 100000000000))"

definition clock_fraction :: "u32 \<Rightarrow> rat" where
  "clock_fraction hz =
    (let divider = 1571328000 div hz; remainder = 1571328000 - divider * hz;
         fraction = fl64 (of_nat (unat remainder) * 16777216)
     in fl64 (fraction / of_nat (unat hz)))"

definition rate_timer :: "u64 \<Rightarrow> u32 \<Rightarrow> rat" where
  "rate_timer constant hz = fl64 (binary64 constant / fl64 (of_nat (unat hz) / 1000000))"

definition b41_mvcd_clock_synthesize ::
  "bool \<Rightarrow> u32 \<Rightarrow> u8 \<Rightarrow> b41_mvcd_clock_fields ptr \<Rightarrow> int \<times> b41_mvcd_clock_fields ptr" where
  "b41_mvcd_clock_synthesize tonearest hz mode out =
    (if out = Null \<or> hz = 0 \<or> mode > 7 then (B41_MVCD_CLOCK_ARGUMENT, out)
     else if \<not> tonearest then (B41_MVCD_CLOCK_ENVIRONMENT, out)
     else let
       round_to = (\<lambda>v. b41_mvcd_clock_round tonearest (Finite v) (At 0 0));
       a = (if hz = 16368000 then 288 else ucast (drop_bit 47 (ucast hz * 0x91a2b3c5 :: u64)));
       b = (if hz = 16368000 then 426 else ucast (drop_bit 44 (ucast hz * 0x1b4e81b5 :: u64)));
       table = clock_table hz;
       (error, fractional) = round_to (clock_fraction hz) in
     if error \<noteq> 0 then (error, out)
     else let
       packed_divider = push_bit 8 (1571328000 div hz) OR
         (drop_bit 16 (word_of_int (contents fractional)) AND 255 :: u32);
       (error5, generated5) = (if table \<noteq> 0 then (0, At 0 0) else round_to (generated_timer 0x48b6e000 hz)) in
     if error5 \<noteq> 0 then (error5, out)
     else let
       (error6, generated6) = (if table \<noteq> 0 then (0, At 0 0) else round_to (generated_timer 0x489d8000 hz)) in
     if error6 \<noteq> 0 then (error6, out)
     else let
       w5 = (if table \<noteq> 0 then clock_primary ! (table - 1)
             else ucast (word_of_int (contents generated5) + 15 :: u32));
       w6 = (if table \<noteq> 0 then clock_companion ! (table - 1)
             else ucast (word_of_int (contents generated6) + 15 :: u32));
       (error7, primary) = round_to (rate_timer 0x41905e353f7ced91 hz) in
     if error7 \<noteq> 0 then (error7, out)
     else let (error9, companion) = round_to (rate_timer 0x41888d4fdf3b645a hz) in
     if error9 \<noteq> 0 then (error9, out)
     else let
       w7 = ucast (drop_bit 16 (word_of_int (contents primary) :: u64));
       w8 = word_of_int (contents primary);
       w9 = ucast (drop_bit 16 (word_of_int (contents companion) :: u64));
       w10 = word_of_int (contents companion);
       w13 = ucast (ucast (drop_bit 38 (ucast hz * 0x10624dd3 :: u64)) - 1 :: u32);
       words = [ucast (clock_coefficient hz), ucast packed_divider, word_of_int (contents fractional), 0,
                ucast mode, w5, w6, w7, w8, w9, w10, w7, w8, w13] :: u16 list
     in (B41_MVCD_CLOCK_OK, store out
          \<lparr> parameter_a = a, parameter_b = b, synthesis = concat (map put16 words) \<rparr>))"

section \<open>Rounding to integers\<close>

lemma fl64_double_int:
  assumes "is_float 53 (of_int n)"
  shows "fl64 (of_int (n + n)) = of_int (n + n)" "fl64 (of_int n) = of_int n"
proof -
  obtain m k where m: "\<bar>m\<bar> \<le> 2 ^ 53" and k: "0 \<le> k" and n: "(of_int n :: rat) = of_int m * 2 powi k"
    using assms by (rule is_float_int)
  have "(of_int (n + n) :: rat) = of_int m * 2 powi (k + 1)"
    using n by (simp add: power_int_add)
  then show "fl64 (of_int (n + n)) = of_int (n + n)"
    using fl_exact [OF m, of "- 1074" "k + 1"] k by (simp add: fl64_def)
  show "fl64 (of_int n) = of_int n"
    using fl_exact [OF m, of "- 1074" k] k n by (simp add: fl64_def)
qed

lemma clock_round_result:
  assumes "is_float 53 v" and "\<bar>v\<bar> < 2 ^ 62"
  shows "b41_mvcd_clock_round True (Finite v) (At a old) = (B41_MVCD_CLOCK_OK, At a \<lfloor>v + 1/2\<rfloor>)"
proof (cases "of_int \<lfloor>v\<rfloor> = v")
  case True
  define n where "n = \<lfloor>v\<rfloor>"
  have v: "v = of_int n" using True unfolding n_def by (rule sym)
  have "\<lfloor>of_int n + (1/2 :: rat)\<rfloor> = n" by (simp add: floor_unique)
  then show ?thesis
    using fl64_double_int [of n] assms v by (simp add: b41_mvcd_clock_round_def Let_def)
next
  case False
  define n where "n = \<lfloor>v\<rfloor>"
  have ceil: "\<lceil>v\<rceil> = n + 1" using False by (simp add: ceiling_altdef n_def)
  have between: "of_int n < v" "v < of_int n + 1" using False unfolding n_def by linarith+
  have "\<bar>v\<bar> \<le> 2 ^ 52" using float_not_int_bound [OF assms(1) False] by simp
  then have "(of_int n :: rat) < of_int (2 ^ 52)" "of_int (- (2 ^ 52) - 1) < (of_int n :: rat)"
    using between by (simp_all add: abs_le_iff)
  then have "n < 2 ^ 52" "- (2 ^ 52) - 1 < n" unfolding of_int_less_iff by simp_all
  then have small: "\<bar>n + (n + 1)\<bar> \<le> 2 ^ 53" by (simp add: abs_le_iff)
  have sum: "fl64 (of_int (n + (n + 1))) = of_int (n + (n + 1))"
    using fl_of_int [OF small] by (simp add: fl64_def)
  have half: "fl64 (of_int (n + (n + 1)) * (1/2)) = of_int (n + (n + 1)) * (1/2)"
    using fl_exact [OF small, of "- 1074" "- 1"] by (simp add: fl64_def power_int_minus)
  moreover have mid: "(of_int (n + (n + 1)) * (1/2) :: rat) = of_int n + 1/2" by (simp add: field_simps)
  ultimately have half': "fl64 (of_int n + 1/2) = of_int n + 1/2" by (simp only: mid)
  have "\<lfloor>v + 1/2\<rfloor> = (if of_int n + 1/2 > v then n else n + 1)"
    using between by (auto intro!: floor_unique)
  then show ?thesis
    using assms(2) ceil unfolding b41_mvcd_clock_round_def
    by (simp only: Let_def double.case ceil n_def [symmetric] sum mid half') auto
qed

text \<open>
  C7. The clock rounding is to nearest with exact halves upwards: for every binary64 number
  below 2^62 in magnitude the result is the floor of the number plus one half. The floating
  point midpoint in the code never spoils the comparison.
\<close>

theorem clock_round_half_up:
  assumes "is_float 53 v" and "\<bar>v\<bar> < 2 ^ 62"
  shows "b41_mvcd_clock_round True (Finite v) (At a old) = (B41_MVCD_CLOCK_OK, At a \<lfloor>v + 1/2\<rfloor>)"
  using assms by (rule clock_round_result)

theorem clock_round_half_up_witness:
  "b41_mvcd_clock_round True (Finite (- 5/2)) (At 8 0) = (B41_MVCD_CLOCK_OK, At 8 (- 2))"
proof -
  have "is_float 53 (- 5/2)"
    unfolding is_float_def by (intro exI [of _ "- 5"] exI [of _ "- 1"]) (simp add: power_int_minus)
  then show ?thesis
    using clock_round_half_up [of "- 5/2" 8 0] by simp
qed

section \<open>Synthesis is total\<close>

lemma clock_constants:
  "binary32 0x48b6e000 = 374528" "binary32 0x489d8000 = 322560"
  "binary64 0x41905e353f7ced91 = 4607182418800017 / 2 ^ 26"
  "binary64 0x41888d4fdf3b645a = 6910773628200026 / 2 ^ 27"
proof -
  have a: "unat (drop_bit 23 (0x48b6e000 :: u32) AND 0xff) = 145" "unat (0x48b6e000 AND 0x7fffff :: u32) = 3596288"
    "unat (drop_bit 23 (0x489d8000 :: u32) AND 0xff) = 145" "unat (0x489d8000 AND 0x7fffff :: u32) = 1933312"
    "\<not> bit (0x48b6e000 :: u32) 31" "\<not> bit (0x489d8000 :: u32) 31"
    by simp_all
  then show "binary32 0x48b6e000 = 374528" "binary32 0x489d8000 = 322560"
    unfolding binary32_def Let_def by (simp_all add: power_int_def power_one_over)
  have b: "unat (drop_bit 52 (0x41905e353f7ced91 :: u64) AND 0x7ff) = 1049"
    "unat (0x41905e353f7ced91 AND 0xfffffffffffff :: u64) = 0x05e353f7ced91"
    "unat (drop_bit 52 (0x41888d4fdf3b645a :: u64) AND 0x7ff) = 1048"
    "unat (0x41888d4fdf3b645a AND 0xfffffffffffff :: u64) = 0x88d4fdf3b645a"
    "\<not> bit (0x41905e353f7ced91 :: u64) 63" "\<not> bit (0x41888d4fdf3b645a :: u64) 63"
    by simp_all
  then show "binary64 0x41905e353f7ced91 = 4607182418800017 / 2 ^ 26"
    "binary64 0x41888d4fdf3b645a = 6910773628200026 / 2 ^ 27"
    unfolding binary64_def Let_def by (simp_all add: power_int_def power_one_over)
qed

lemma hz_bounds:
  assumes "hz \<noteq> (0 :: u32)"
  shows "1 \<le> (of_nat (unat hz) :: rat)" "(of_nat (unat hz) :: rat) \<le> 2 ^ 32"
proof -
  have "1 \<le> unat hz" using assms by (simp add: Suc_le_eq unat_gt_0)
  then have "(of_nat 1 :: rat) \<le> of_nat (unat hz)" by (rule of_nat_mono)
  then show "1 \<le> (of_nat (unat hz) :: rat)" by simp
  have "unat hz \<le> 2 ^ 32" using unsigned_less [of hz, where ?'a = nat] by simp
  then have "(of_nat (unat hz) :: rat) \<le> of_nat (2 ^ 32)" by (rule of_nat_mono)
  then show "(of_nat (unat hz) :: rat) \<le> 2 ^ 32" by simp
qed

text \<open>Every argument that the synthesis rounds is a binary64 number far below the limit.\<close>

lemma fl64_is_float: "is_float 53 (fl64 x)"
  by (simp add: fl64_def fl_is_float)

lemma generated_timer_bound:
  assumes "hz \<noteq> 0" and "binary32 c = 374528 \<or> binary32 c = 322560"
  shows "0 \<le> generated_timer c hz" "generated_timer c hz \<le> 2 ^ 57"
proof -
  define f where "f = fl32 (of_nat (unat hz))"
  define s where "s = fl32 (binary32 c * f)"
  define t where "t = fl32 (s + s)"
  have f: "1/2 \<le> f" "f \<le> 2 ^ 33"
    using fl_range(1,2) [of 1 "of_nat (unat hz)" "2 ^ 32"] hz_bounds [OF assms(1)] by (simp_all add: f_def)
  have c: "2 ^ 17 \<le> binary32 c" "binary32 c \<le> 2 ^ 19" using assms(2) by auto
  have "2 ^ 17 * (1/2) \<le> binary32 c * f" using c f by (intro mult_mono) simp_all
  moreover have "binary32 c * f \<le> 2 ^ 19 * 2 ^ 33" using c f by (intro mult_mono) simp_all
  ultimately have s: "2 ^ 15 \<le> s" "s \<le> 2 ^ 53"
    using fl_range(1,2) [of "2 ^ 16" "binary32 c * f" "2 ^ 52"] by (simp_all add: s_def)
  have t: "2 ^ 15 \<le> t" "t \<le> 2 ^ 55"
    using fl_range(1,2) [of "2 ^ 16" "s + s" "2 ^ 54"] s by (simp_all add: t_def)
  have "2 ^ 15 / 100000000000 \<le> t / 100000000000" "t / 100000000000 \<le> 2 ^ 55 / 100000000000"
    using t by (intro divide_right_mono; simp)+
  then have "2 ^ 15 / 100000000000 / 2 \<le> fl64 (t / 100000000000)" "fl64 (t / 100000000000) \<le> 2 ^ 57"
    using fl_range(3,4) [of "2 ^ 15 / 100000000000" "t / 100000000000" "2 ^ 55 / 100000000000"] by simp_all
  then show "0 \<le> generated_timer c hz" "generated_timer c hz \<le> 2 ^ 57"
    unfolding generated_timer_def Let_def f_def [symmetric]
    unfolding s_def [symmetric] unfolding t_def [symmetric] by simp_all
qed

lemma rate_timer_bound:
  assumes "hz \<noteq> 0" and "2 ^ 25 \<le> binary64 c" and "binary64 c \<le> 2 ^ 27"
  shows "0 \<le> rate_timer c hz" "rate_timer c hz \<le> 2 ^ 50"
proof -
  define r where "r = fl64 (of_nat (unat hz) / 1000000)"
  have "1 / 1000000 \<le> (of_nat (unat hz) / 1000000 :: rat)" "(of_nat (unat hz) / 1000000 :: rat) \<le> 2 ^ 32 / 1000000"
    using hz_bounds [OF assms(1)] by (intro divide_right_mono; simp)+
  then have r: "1 / 2000000 \<le> r" "r \<le> 2 ^ 33 / 1000000"
    using fl_range(3,4) [of "1 / 1000000" "of_nat (unat hz) / 1000000" "2 ^ 32 / 1000000"] by (simp_all add: r_def)
  have lo: "2 ^ 25 / (2 ^ 33 / 1000000) \<le> binary64 c / r" and hi: "binary64 c / r \<le> 2 ^ 27 / (1 / 2000000)"
    using assms(2,3) r by (intro frac_le; simp)+
  have "1 \<le> binary64 c / r" by (rule order_trans [OF _ lo]) simp
  moreover have "binary64 c / r \<le> 2 ^ 49" by (rule order_trans [OF hi]) simp
  ultimately show "0 \<le> rate_timer c hz" "rate_timer c hz \<le> 2 ^ 50"
    using fl_range(3,4) [of 1 "binary64 c / r" "2 ^ 49"]
    unfolding rate_timer_def r_def [symmetric] by simp_all
qed

lemma clock_fraction_bound:
  assumes "hz \<noteq> 0"
  shows "0 \<le> clock_fraction hz" "clock_fraction hz \<le> 2 ^ 25"
proof -
  define r where "r = 1571328000 - (1571328000 div hz) * hz"
  have "r = 1571328000 mod hz" by (simp add: r_def minus_div_mult_eq_mod)
  then have less: "r < hz" using assms by (simp add: word_mod_less_divisor word_gt_0_no word_neq_0_conv)
  have "fl64 (of_int (int (unat r)) * 2 powi 24) = of_int (int (unat r)) * 2 powi 24"
  proof -
    have "\<bar>int (unat r)\<bar> \<le> 2 ^ 53" using unsigned_less [of r, where ?'a = int] by simp
    then show ?thesis unfolding fl64_def by (intro fl_exact) simp_all
  qed
  then have exact: "fl64 (of_nat (unat r) * 16777216) = of_nat (unat r) * 16777216" by simp
  let ?q = "of_nat (unat r) * 16777216 / of_nat (unat hz) :: rat"
  have frac: "clock_fraction hz = fl64 ?q"
    using exact by (simp add: clock_fraction_def Let_def r_def)
  show "0 \<le> clock_fraction hz"
    unfolding frac fl64_def by (intro fl_nonneg divide_nonneg_nonneg mult_nonneg_nonneg of_nat_0_le_iff) simp
  show "clock_fraction hz \<le> 2 ^ 25"
  proof (cases "r = 0")
    case True
    then show ?thesis using frac by (simp add: fl64_def)
  next
    case False
    have "unat r \<le> unat hz" using less by (simp add: word_less_nat_alt)
    then have "(of_nat (unat r) :: rat) \<le> of_nat (unat hz)" by (rule of_nat_mono)
    then have hi: "?q \<le> 2 ^ 24" using hz_bounds [OF assms] by (simp add: divide_le_eq)
    have "1 / 2 ^ 32 \<le> ?q"
      using hz_bounds [OF assms] hz_bounds [OF False] by (intro frac_le) simp_all
    then show ?thesis using fl_range(4) [of "1 / 2 ^ 32" ?q "2 ^ 24"] hi frac by simp
  qed
qed

text \<open>The values of the fourteen words, with rounding as the floor of \<open>v + 1/2\<close>.\<close>

definition nearest_up :: "rat \<Rightarrow> int" where
  "nearest_up v = \<lfloor>v + 1/2\<rfloor>"

definition clock_words :: "u32 \<Rightarrow> u8 \<Rightarrow> u16 list" where
  "clock_words hz mode =
    (let fractional = nearest_up (clock_fraction hz);
         primary = nearest_up (rate_timer 0x41905e353f7ced91 hz);
         companion = nearest_up (rate_timer 0x41888d4fdf3b645a hz);
         timer = (\<lambda>table c. if clock_table hz \<noteq> 0 then table ! (clock_table hz - 1)
           else ucast (word_of_int (nearest_up (generated_timer c hz)) + 15 :: u32));
         high = (\<lambda>n. ucast (drop_bit 16 (word_of_int n :: u64)))
     in [ucast (clock_coefficient hz),
         ucast (push_bit 8 (1571328000 div hz) OR (drop_bit 16 (word_of_int fractional) AND 255 :: u32)),
         word_of_int fractional, 0, ucast mode,
         timer clock_primary 0x48b6e000, timer clock_companion 0x489d8000,
         high primary, word_of_int primary, high companion, word_of_int companion,
         high primary, word_of_int primary,
         ucast (ucast (drop_bit 38 (ucast hz * 0x10624dd3 :: u64)) - 1 :: u32)])"

lemma round_bounded:
  assumes "0 \<le> fl64 x" and "fl64 x \<le> 2 ^ 57"
  shows "b41_mvcd_clock_round True (Finite (fl64 x)) (At 0 0) = (0, At 0 (nearest_up (fl64 x)))"
  using clock_round_result [OF fl64_is_float, of x 0 0] assms by (simp add: nearest_up_def)

lemma clock_rounds:
  assumes "hz \<noteq> 0"
  shows "b41_mvcd_clock_round True (Finite (clock_fraction hz)) (At 0 0) = (0, At 0 (nearest_up (clock_fraction hz)))"
    and "b41_mvcd_clock_round True (Finite (generated_timer 0x48b6e000 hz)) (At 0 0) =
      (0, At 0 (nearest_up (generated_timer 0x48b6e000 hz)))"
    and "b41_mvcd_clock_round True (Finite (generated_timer 0x489d8000 hz)) (At 0 0) =
      (0, At 0 (nearest_up (generated_timer 0x489d8000 hz)))"
    and "b41_mvcd_clock_round True (Finite (rate_timer 0x41905e353f7ced91 hz)) (At 0 0) =
      (0, At 0 (nearest_up (rate_timer 0x41905e353f7ced91 hz)))"
    and "b41_mvcd_clock_round True (Finite (rate_timer 0x41888d4fdf3b645a hz)) (At 0 0) =
      (0, At 0 (nearest_up (rate_timer 0x41888d4fdf3b645a hz)))"
  using clock_fraction_bound [OF assms] generated_timer_bound [OF assms, of "0x48b6e000"]
    generated_timer_bound [OF assms, of "0x489d8000"]
    rate_timer_bound [OF assms, of "0x41905e353f7ced91"] rate_timer_bound [OF assms, of "0x41888d4fdf3b645a"]
  unfolding clock_fraction_def generated_timer_def rate_timer_def Let_def clock_constants
  by (intro round_bounded; simp)+

lemma clock_synthesize_result:
  assumes "hz \<noteq> 0" and "mode \<le> 7"
  shows "b41_mvcd_clock_synthesize True hz mode (At a old) =
    (B41_MVCD_CLOCK_OK, At a
      \<lparr> parameter_a = (if hz = 16368000 then 288 else ucast (drop_bit 47 (ucast hz * 0x91a2b3c5 :: u64))),
        parameter_b = (if hz = 16368000 then 426 else ucast (drop_bit 44 (ucast hz * 0x1b4e81b5 :: u64))),
        synthesis = concat (map put16 (clock_words hz mode)) \<rparr>)"
  using assms
  unfolding b41_mvcd_clock_synthesize_def clock_words_def
  by (simp only: Let_def clock_rounds [OF assms(1)] prod.case) (auto simp: not_less)

text \<open>
  C6. Clock synthesis never leaves the range that it rounds: with the nearest rounding mode
  every nonzero frequency and every mode up to 7 succeeds, and the output is the two
  parameters and the fourteen little-endian words with exact rounding; a zero frequency, a
  larger mode and another rounding mode are refused and leave the output as it was.
\<close>

theorem clock_synthesize_complete:
  "b41_mvcd_clock_synthesize tonearest hz mode (At a old) =
    (if hz = 0 \<or> mode > 7 then (B41_MVCD_CLOCK_ARGUMENT, At a old)
     else if \<not> tonearest then (B41_MVCD_CLOCK_ENVIRONMENT, At a old)
     else (B41_MVCD_CLOCK_OK, At a
      \<lparr> parameter_a = (if hz = 16368000 then 288 else ucast (drop_bit 47 (ucast hz * 0x91a2b3c5 :: u64))),
        parameter_b = (if hz = 16368000 then 426 else ucast (drop_bit 44 (ucast hz * 0x1b4e81b5 :: u64))),
        synthesis = concat (map put16 (clock_words hz mode)) \<rparr>))"
proof (cases "hz = 0 \<or> mode > 7 \<or> \<not> tonearest")
  case True
  then show ?thesis by (auto simp: b41_mvcd_clock_synthesize_def)
next
  case False
  then show ?thesis using clock_synthesize_result [of hz mode a old] by (simp add: not_less)
qed

end
