(* ===== verification/Dsp_Bootstrap.thy ===== *)
theory Dsp_Bootstrap
  imports Dsp_Clock Mvcd_Wire
begin

text \<open>
  The construction of the DSP bootstrap frame,
  \<^verbatim>\<open>patches/gnss-navigation-audit/dsp-download/bootstrap_fields.c\<close> and \<^verbatim>\<open>bootstrap.c\<close>: the fields
  derived from the retained context, the checks on the session and on the metadata query, and
  the assembly of the 106-byte payload.
\<close>

unbundle bit_operations_syntax

section \<open>Field producers\<close>

abbreviation B41_MVCD_FIELDS_ARGUMENT :: int where "B41_MVCD_FIELDS_ARGUMENT \<equiv> -10"
abbreviation B41_MVCD_FIELDS_MISSING :: int where "B41_MVCD_FIELDS_MISSING \<equiv> -11"
abbreviation B41_MVCD_FIELDS_FORMAT :: int where "B41_MVCD_FIELDS_FORMAT \<equiv> -12"

record b41_mvcd_private_clock =
  frequency_1670 :: bytes
  adjustment_1668 :: bytes

record b41_mvcd_bootstrap_inputs =
  context_mode_13 :: u8
  context_hz_18 :: u32
  context_baud_1c :: u32
  context_profile_24 :: u8
  context_chip_30 :: u32
  context_lna_54 :: u32
  clock_selector_717cb3 :: u8
  profile_selector_717cb6 :: u8
  setting_717cb7 :: u8
  feature_flags_717cb8 :: u8
  word_7178b0 :: u32
  feature_name :: "bytes ptr"
  feature_name_size :: nat
  secondary_fd_6edeec :: int
  private_clock :: "b41_mvcd_private_clock ptr"

record b41_mvcd_bootstrap_fields =
  baud_and_parameters :: bytes
  synthesis_and_profile :: bytes
  board_tail :: bytes
  effective_hz :: u32
  clock_mode :: u8
  effective_setting_717cb7 :: u8

definition put_low16 :: "u32 \<Rightarrow> bytes" where
  "put_low16 w = [ucast w, ucast (drop_bit 8 w)]"

definition private_word :: "bytes \<Rightarrow> u32 option" where
  "private_word r =
    (let a = ucast (r ! 4) XOR 0xd9 :: u32;
         state = a * 0xce6d + 0xaf55dbdc;
         b = ucast (r ! 5) XOR (drop_bit 8 state AND 0xff);
         state = ((state + b) AND 0xffff) * 0xce6d + 0x58bf;
         c = ucast (r ! 6) XOR (drop_bit 8 state AND 0xff);
         state = (state + c) * 0xce6d + 0x58bf;
         d = ucast (r ! 7) XOR (drop_bit 8 state AND 0xff)
     in if le32 r \<noteq> a + b + c + d then None else Some (le32 (drop 4 r)))"

definition adjusted_frequency :: "u32 \<Rightarrow> u32 \<Rightarrow> u32" where
  "adjusted_frequency hz adjustment =
    (let step = binary64 0x408c6fffffffffff;
         adjusted = fl64 (of_nat (unat hz) + (if adjustment = 1 then step else - step))
     in if adjusted \<le> 0 then 0 else if adjusted \<ge> of_nat (unat (- 1 :: u32)) then - 1
        else word_of_int \<lfloor>adjusted\<rfloor>)"

definition effective_frequency :: "b41_mvcd_bootstrap_inputs \<Rightarrow> u32" where
  "effective_frequency inp =
    (if context_mode_13 inp \<noteq> 0xfe then context_hz_18 inp
     else let clock = contents (private_clock inp);
              hz = (case private_word (frequency_1670 clock) of
                 Some hz \<Rightarrow> hz
               | None \<Rightarrow>
                   let hz = (if context_hz_18 inp \<noteq> 0 then context_hz_18 inp else 26000000) in
                   case private_word (adjustment_1668 clock) of
                     None \<Rightarrow> hz
                   | Some adjustment \<Rightarrow>
                       let adjustment = adjustment mod 3 in
                       if adjustment = 1 \<or> adjustment = 2 then adjusted_frequency hz adjustment else hz)
          in if hz = - 1 then context_hz_18 inp else hz)"

definition baud_code :: "u32 \<Rightarrow> u8" where
  "baud_code baud =
    (if baud = 4800 then 9 else if baud = 9600 then 8 else if baud = 14400 then 7
     else if baud = 19200 then 6 else if baud = 38400 then 5 else if baud = 57600 then 4
     else if baud = 230400 then 3 else if baud = 460800 then 2 else if baud = 921600 then 1 else 0)"

text \<open>The bounded search for the terminating zero: an error, or the length of the name.\<close>

function name_length :: "bytes \<Rightarrow> nat \<Rightarrow> nat \<Rightarrow> int + nat" where
  "name_length name sz len =
    (if len < 0x296 then
       if len = sz then Inl B41_MVCD_FIELDS_MISSING
       else if name ! len = 0 then Inr len
       else name_length name sz (len + 1)
     else Inl B41_MVCD_FIELDS_FORMAT)"
  by pat_completeness auto
termination by (relation "measure (\<lambda>(_, _, len). 0x296 - len)") auto

declare name_length.simps [simp del]

definition feature_predicate :: "b41_mvcd_bootstrap_inputs \<Rightarrow> int + bool" where
  "feature_predicate inp =
    (if feature_name inp = Null then Inl B41_MVCD_FIELDS_MISSING
     else case name_length (contents (feature_name inp)) (feature_name_size inp) 0 of
       Inl e \<Rightarrow> Inl e
     | Inr len \<Rightarrow> Inr (len > 4 \<and> secondary_fd_6edeec inp \<noteq> -1))"

definition selected_mode :: "b41_mvcd_bootstrap_inputs \<Rightarrow> u8" where
  "selected_mode inp =
    (let mode = (if clock_selector_717cb3 inp \<le> 2 then clock_selector_717cb3 inp else 0);
         profile = profile_selector_717cb6 inp
     in if profile = 1 \<or> (profile \<ge> 2 \<and> context_profile_24 inp = 1) then mode OR 4 else mode)"

definition profile_code :: "b41_mvcd_bootstrap_inputs \<Rightarrow> bool \<Rightarrow> u8" where
  "profile_code inp predicate =
    (let profile = profile_selector_717cb6 inp; chip = context_chip_30 inp; shifted = chip + 0x9a90;
         code = (if profile \<ge> 5 then 7 else setting_717cb7 inp AND 0x0f);
         code = (if code = 5 \<and> predicate then 7 else code)
     in if (shifted \<le> 0x22 \<and> bit (0x400050007 :: u64) (unat shifted)) \<or> chip = 0xfffe6735
        then 5 else code)"

definition board_tail_bytes :: "b41_mvcd_bootstrap_inputs \<Rightarrow> bool \<Rightarrow> bytes" where
  "board_tail_bytes inp predicate =
    (let chip = context_chip_30 inp; profile = profile_selector_717cb6 inp;
         tail = blit (zeroed 12) 0 (put_low16 (word_7178b0 inp));
         tail = blit tail 2 (put_low16 chip);
         tail = (if chip = 0xffff6771 then tail[4 := ucast (context_lna_54 inp), 5 := if profile < 4 then 8 else 10]
                 else if chip = 0xffff6632 \<or> profile < 4 then tail[4 := 0x48, 5 := 0x49]
                 else tail[4 := ucast (context_lna_54 inp), 5 := 10]);
         tail = tail[6 := if profile = 4 \<and> (chip = 0xffff6725 \<or> chip = 0xffff6761) then 1 else 0];
         tail = tail[8 := if predicate then 3 else 1];
         tail = (if feature_flags_717cb8 inp AND 0x40 \<noteq> 0 \<and> chip = 0xffff6789
                 then tail[8 := tail ! 8 OR 4] else tail)
     in tail[10 := 0x4e, 11 := 0x4f])"

definition b41_mvcd_bootstrap_fields_build ::
  "bool \<Rightarrow> b41_mvcd_bootstrap_inputs ptr \<Rightarrow> b41_mvcd_bootstrap_fields ptr \<Rightarrow> int \<times> b41_mvcd_bootstrap_fields ptr" where
  "b41_mvcd_bootstrap_fields_build tonearest inp out =
    (if inp = Null \<or> out = Null then (B41_MVCD_FIELDS_ARGUMENT, out)
     else let i = contents inp in
       if context_mode_13 i = 0xfe \<and> private_clock i = Null then (B41_MVCD_FIELDS_MISSING, out)
       else case feature_predicate i of
         Inl e \<Rightarrow> (e, out)
       | Inr predicate \<Rightarrow>
           let mode = selected_mode i; profile = profile_selector_717cb6 i; hz = effective_frequency i;
               (status, clock) = b41_mvcd_clock_synthesize tonearest hz mode
                 (At 0 \<lparr> parameter_a = 0, parameter_b = 0, synthesis = zeroed 28 \<rparr>) in
           if status \<noteq> 0 then (status, out)
           else let
               baud = (zeroed 6)[1 := baud_code (context_baud_1c i)];
               baud = blit baud 2 (put16 (parameter_a (contents clock)));
               baud = blit baud 4 (put16 (parameter_b (contents clock)));
               sp = blit (zeroed 32) 0 (synthesis (contents clock));
               sp = sp[28 := profile_code i predicate];
               sp = sp[30 := if context_mode_13 i = 0xfe then 1 else 0]
             in (0, store out
                  \<lparr> baud_and_parameters = baud, synthesis_and_profile = sp,
                    board_tail = board_tail_bytes i predicate, effective_hz = hz, clock_mode = mode,
                    effective_setting_717cb7 = (if profile \<ge> 5 then 0x27 else setting_717cb7 i) \<rparr>))"

definition zero_fields :: b41_mvcd_bootstrap_fields where
  "zero_fields = \<lparr> baud_and_parameters = zeroed 6, synthesis_and_profile = zeroed 32,
     board_tail = zeroed 12, effective_hz = 0, clock_mode = 0, effective_setting_717cb7 = 0 \<rparr>"

definition b41_mvcd_bootstrap_fields_apply ::
  "bool \<Rightarrow> b41_mvcd_bootstrap_inputs ptr \<Rightarrow> bytes ptr \<Rightarrow> nat \<Rightarrow> int \<times> bytes ptr" where
  "b41_mvcd_bootstrap_fields_apply tonearest inp payload payload_size =
    (if payload = Null \<or> payload_size \<noteq> B41_MVCD_BOOTSTRAP_SIZE then (B41_MVCD_FIELDS_ARGUMENT, payload)
     else let (status, fields) = b41_mvcd_bootstrap_fields_build tonearest inp (At 0 zero_fields) in
       if status \<noteq> 0 then (status, payload)
       else let f = contents fields;
                p = blit (contents payload) 4 (baud_and_parameters f);
                p = blit p 30 (synthesis_and_profile f);
                p = blit p 94 (board_tail f)
            in (0, store payload p))"

section \<open>The bootstrap frame\<close>

abbreviation B41_BOOTSTRAP_OK :: int where "B41_BOOTSTRAP_OK \<equiv> 0"
abbreviation B41_BOOTSTRAP_ARGUMENT :: int where "B41_BOOTSTRAP_ARGUMENT \<equiv> -10020"
abbreviation B41_BOOTSTRAP_MISSING :: int where "B41_BOOTSTRAP_MISSING \<equiv> -10021"
abbreviation B41_BOOTSTRAP_EMBEDDED_IMAGE :: int where "B41_BOOTSTRAP_EMBEDDED_IMAGE \<equiv> -10022"
abbreviation B41_BOOTSTRAP_SESSION :: int where "B41_BOOTSTRAP_SESSION \<equiv> -10023"
abbreviation B41_BOOTSTRAP_QUERY :: int where "B41_BOOTSTRAP_QUERY \<equiv> -10024"
abbreviation B41_BOOTSTRAP_METADATA :: int where "B41_BOOTSTRAP_METADATA \<equiv> -10025"
abbreviation B41_BOOTSTRAP_CAPACITY :: int where "B41_BOOTSTRAP_CAPACITY \<equiv> -10026"
abbreviation B41_BOOTSTRAP_OVERLAP :: int where "B41_BOOTSTRAP_OVERLAP \<equiv> -10027"

record b41_bootstrap_selectors =
  secure_download_7178b8_33e :: u8
  dsp_selector_717cb0 :: u8

record b41_bootstrap_route =
  metadata_ioctl :: u8
  fragment_ioctl :: u8

record b41_bootstrap_session =
  session_gps0_fd :: int
  session_selectors :: b41_bootstrap_selectors
  session_fields :: "b41_mvcd_bootstrap_inputs ptr"

record b41_bootstrap_boot_info =
  code_size :: u32
  start_addr :: u32
  exec_addr :: u32
  cipher_key :: u32
  frag_num :: u32

text \<open>The query holds the address of the session it was made for.\<close>

record b41_bootstrap_query =
  query_session :: u64
  query_gps0_fd :: int
  query_selectors :: b41_bootstrap_selectors
  query_command :: u32
  query_status :: int
  query_info :: "b41_bootstrap_boot_info ptr"
  bytes_returned :: nat

text \<open>Structure sizes under the LP64 layout.\<close>

definition sizeof_session :: nat where [simp]: "sizeof_session = 16"
definition sizeof_query :: nat where [simp]: "sizeof_query = 40"
definition sizeof_info :: nat where [simp]: "sizeof_info = 20"
definition sizeof_inputs :: nat where [simp]: "sizeof_inputs = 64"
definition sizeof_private_clock :: nat where [simp]: "sizeof_private_clock = 16"

text \<open>The variant of the range test in \<^verbatim>\<open>bootstrap.c\<close>: nothing overlaps a null or empty object.\<close>

definition overlaps_object :: "'a ptr \<Rightarrow> nat \<Rightarrow> 'b ptr \<Rightarrow> nat \<Rightarrow> bool" where
  "overlaps_object first first_size second second_size =
    (if first = Null \<or> second = Null \<or> first_size = 0 \<or> second_size = 0 then False
     else overlaps first first_size second second_size)"

definition b41_bootstrap_route_select ::
  "b41_bootstrap_selectors ptr \<Rightarrow> b41_bootstrap_route ptr \<Rightarrow> int \<times> b41_bootstrap_route ptr" where
  "b41_bootstrap_route_select selectors out =
    (if selectors = Null \<or> out = Null then (B41_BOOTSTRAP_ARGUMENT, out)
     else if overlaps_object selectors 2 out 2 then (B41_BOOTSTRAP_OVERLAP, out)
     else if secure_download_7178b8_33e (contents selectors) = 0 then (B41_BOOTSTRAP_EMBEDDED_IMAGE, out)
     else let m = (if dsp_selector_717cb0 (contents selectors) - 1 < 0x3f then 24 else 23)
          in (B41_BOOTSTRAP_OK, store out \<lparr> metadata_ioctl = m, fragment_ioctl = m + 2 \<rparr>))"

text \<open>A local object of a function, apart from everything its caller can name.\<close>

definition local_route :: "b41_bootstrap_route ptr" where
  "local_route = At (- 64) \<lparr> metadata_ioctl = 0, fragment_ioctl = 0 \<rparr>"

definition validate :: "b41_bootstrap_session ptr \<Rightarrow> b41_bootstrap_query ptr \<Rightarrow> int" where
  "validate session query =
    (if session = Null \<or> query = Null \<or> session_fields (contents session) = Null then B41_BOOTSTRAP_MISSING
     else let s = contents session; q = contents query;
              (status, route) = b41_bootstrap_route_select (At (address session + 4) (session_selectors s)) local_route in
       if status \<noteq> 0 then status
       else if session_gps0_fd s < 0 \<or> query_session q \<noteq> address session \<or>
               query_gps0_fd q \<noteq> session_gps0_fd s \<or>
               secure_download_7178b8_33e (query_selectors q) \<noteq> secure_download_7178b8_33e (session_selectors s) \<or>
               dsp_selector_717cb0 (query_selectors q) \<noteq> dsp_selector_717cb0 (session_selectors s)
       then B41_BOOTSTRAP_SESSION
       else if query_command q \<noteq> ucast (metadata_ioctl (contents route)) then B41_BOOTSTRAP_QUERY
       else if query_status q < 0 then query_status q
       else if query_status q \<noteq> 0 then B41_BOOTSTRAP_QUERY
       else if query_info q = Null \<or> bytes_returned q \<noteq> sizeof_info then B41_BOOTSTRAP_MISSING
       else let info = contents (query_info q) in
         if code_size info = 0 \<or> code_size info > 0xffff \<or> start_addr info > 0xffff \<or>
            exec_addr info > 0xffff \<or> cipher_key info > 0xffff \<or> frag_num info = 0 \<or> frag_num info - 1 > 256
         then B41_BOOTSTRAP_METADATA else B41_BOOTSTRAP_OK)"

definition overlaps_inputs :: "'a ptr \<Rightarrow> nat \<Rightarrow> b41_bootstrap_session ptr \<Rightarrow> b41_bootstrap_query ptr \<Rightarrow> bool" where
  "overlaps_inputs output len session query =
    (let fields = session_fields (contents session); f = contents fields;
         name_size = (if feature_name_size f < 0x296 then feature_name_size f else 0x296)
     in overlaps_object output len session sizeof_session \<or>
        overlaps_object output len query sizeof_query \<or>
        overlaps_object output len (query_info (contents query)) sizeof_info \<or>
        overlaps_object output len fields sizeof_inputs \<or>
        overlaps_object output len (feature_name f) name_size \<or>
        overlaps_object output len (private_clock f) sizeof_private_clock)"

definition profile_windows :: "(u32 \<times> u32) list" where
  "profile_windows = [(11999976, 49), (15999968, 65), (19199962, 77), (19999960, 81), (23999952, 97),
     (25999948, 105), (31999936, 129), (38399924, 153), (39999920, 161), (51999896, 209)]"

definition profile_common :: "u16 list" where
  "profile_common = [40, 255, 128, 71, 100, 80, 216, 80, 187, 3, 60, 111, 137, 136, 2, 251]"

definition profile_block :: "u32 \<Rightarrow> bytes" where
  "profile_block context_hz =
    (if list_ex (\<lambda>(low, count). context_hz - low < count) profile_windows
     then concat (map put16 profile_common) else zeroed 32)"

definition assemble :: "bool \<Rightarrow> b41_bootstrap_session \<Rightarrow> b41_bootstrap_query \<Rightarrow> bytes ptr \<Rightarrow> int \<times> bytes ptr" where
  "assemble tonearest session query payload =
    (let info = contents (query_info query);
         (status, payload) = b41_mvcd_bootstrap_fields_apply tonearest (session_fields session)
           (store payload (zeroed B41_MVCD_BOOTSTRAP_SIZE)) B41_MVCD_BOOTSTRAP_SIZE in
     if status \<noteq> 0 then (status, payload)
     else let p = blit (contents payload) 0 (put_low16 0x1a);
              p = blit p 14 (put_low16 (code_size info));
              p = blit p 16 (put_low16 (start_addr info));
              p = blit p 18 (put_low16 (exec_addr info));
              p = blit p 20 (put_low16 (cipher_key info));
              p = blit p 22 (put_low16 (frag_num info));
              p = p[28 := 5];
              p = blit p 62 (profile_block (context_hz_18 (contents (session_fields session))))
          in (B41_BOOTSTRAP_OK, store payload p))"

text \<open>The private payload of the two builders; it is erased before they return.\<close>

definition private_payload :: "bytes ptr" where
  "private_payload = At (- 256) (zeroed 106)"

definition b41_bootstrap_payload_build ::
  "bool \<Rightarrow> b41_bootstrap_session ptr \<Rightarrow> b41_bootstrap_query ptr \<Rightarrow> bytes ptr \<Rightarrow> nat \<Rightarrow> int \<times> bytes ptr" where
  "b41_bootstrap_payload_build tonearest session query payload capacity =
    (if payload = Null then (B41_BOOTSTRAP_ARGUMENT, payload)
     else if capacity < 106 then (B41_BOOTSTRAP_CAPACITY, payload)
     else let status = validate session query in
       if status \<noteq> 0 then (status, payload)
       else if overlaps_inputs payload 106 session query then (B41_BOOTSTRAP_OVERLAP, payload)
       else let (status, private) = assemble tonearest (contents session) (contents query) private_payload
            in (status, if status = 0 then store payload (blit (contents payload) 0 (contents private)) else payload))"

definition b41_bootstrap_frame_build ::
  "bool \<Rightarrow> b41_bootstrap_session ptr \<Rightarrow> b41_bootstrap_query ptr \<Rightarrow> bytes ptr \<Rightarrow> nat \<Rightarrow> nat ptr \<Rightarrow>
   int \<times> bytes ptr \<times> nat ptr" where
  "b41_bootstrap_frame_build tonearest session query frame capacity written =
    (if frame = Null \<or> written = Null then (B41_BOOTSTRAP_ARGUMENT, frame, written)
     else if capacity < B41_MVCD_BOOTSTRAP_FRAME_SIZE then (B41_BOOTSTRAP_CAPACITY, frame, written)
     else let status = validate session query in
       if status \<noteq> 0 then (status, frame, written)
       else if overlaps_object frame B41_MVCD_BOOTSTRAP_FRAME_SIZE written 8 \<or>
               overlaps_inputs frame B41_MVCD_BOOTSTRAP_FRAME_SIZE session query \<or>
               overlaps_inputs written 8 session query
       then (B41_BOOTSTRAP_OVERLAP, frame, written)
       else let (status, private) = assemble tonearest (contents session) (contents query) private_payload in
         if status = 0 then b41_mvcd_encode_bootstrap private 106 frame capacity written
         else (status, frame, written))"

section \<open>The layout of the payload\<close>

definition bootstrap_layout :: "b41_mvcd_bootstrap_inputs \<Rightarrow> b41_bootstrap_boot_info \<Rightarrow> b41_mvcd_bootstrap_fields \<Rightarrow> bytes" where
  "bootstrap_layout i info f =
     [0x1a, 0] @ [0, 0] @ baud_and_parameters f @ zeroed 4 @
     put_low16 (code_size info) @ put_low16 (start_addr info) @ put_low16 (exec_addr info) @
     put_low16 (cipher_key info) @ put_low16 (frag_num info) @ zeroed 4 @ [5] @ [0] @
     synthesis_and_profile f @ profile_block (context_hz_18 i) @ board_tail f"

lemma length_put_low16 [simp]: "length (put_low16 w) = 2"
  by (simp add: put_low16_def)

lemma length_concat_put16 [simp]: "length (concat (map put16 ws)) = 2 * length ws"
  by (induction ws) simp_all

lemma length_profile_block [simp]: "length (profile_block hz) = 32"
  by (simp add: profile_block_def profile_common_def)

lemma length_clock_words [simp]: "length (clock_words hz mode) = 14"
  by (simp add: clock_words_def Let_def)

lemma name_length_error: "name_length name sz len = Inl e \<Longrightarrow> e = -11 \<or> e = -12"
proof (induction name sz len rule: name_length.induct)
  case (1 name sz len)
  then show ?case
    by (subst (asm) (2) name_length.simps) (auto split: if_splits)
qed

lemma feature_predicate_error: "feature_predicate i = Inl e \<Longrightarrow> e = -11 \<or> e = -12"
  using name_length_error by (auto simp: feature_predicate_def split: if_splits sum.splits)

lemma fields_build_lengths:
  assumes "b41_mvcd_bootstrap_fields_build r inp (At a old) = (0, At a f)"
  shows "length (baud_and_parameters f) = 6 \<and> length (synthesis_and_profile f) = 32 \<and> length (board_tail f) = 12"
proof -
  have tail: "length (board_tail_bytes i q) = 12" for i q
    by (simp add: board_tail_bytes_def Let_def)
  show ?thesis
    using assms tail feature_predicate_error [of "contents inp" 0]
    by (auto simp: b41_mvcd_bootstrap_fields_build_def Let_def b41_mvcd_clock_synthesize_def
        split: if_splits sum.splits prod.splits)
qed

lemma layout_stores:
  assumes "length b = 6" and "length sp = 32" and "length pb = 32" and "length t = 12"
    and "length c = 2" "length st = 2" "length ex = 2" "length ck = 2" "length fr = 2"
  shows "blit ((blit (blit (blit (blit (blit (blit (blit (blit (blit (zeroed 106) 4 b) 30 sp) 94 t) 0 [0x1a, 0])
      14 c) 16 st) 18 ex) 20 ck) 22 fr)[28 := 5]) 62 pb =
    [0x1a, 0] @ [0, 0] @ b @ zeroed 4 @ c @ st @ ex @ ck @ fr @ zeroed 4 @ [5] @ [0] @ sp @ pb @ t"
proof -
  have "zeroed 106 = zeroed (2 + (2 + (6 + (4 + (2 + (2 + (2 + (2 + (2 + (4 + (1 + (1 + (32 + (32 + 12))))))))))))))"
    by simp
  also have "\<dots> = zeroed 2 @ zeroed 2 @ zeroed 6 @ zeroed 4 @ zeroed 2 @ zeroed 2 @ zeroed 2 @ zeroed 2 @ zeroed 2 @
      zeroed 4 @ zeroed 1 @ zeroed 1 @ zeroed 32 @ zeroed 32 @ zeroed 12"
    by (simp only: zeroed_add)
  finally have z: "zeroed 106 = \<dots>" .
  have small: "zeroed 2 = [0, 0]" "zeroed 1 = [0]" by (simp_all add: zeroed_def eval_nat_numeral)
  have upd: "xs[28 := 5] = blit xs 28 [5]" if "length xs = 106" for xs :: bytes
    using that by (intro update_blit) simp
  show ?thesis
    using assms
    by (simp add: upd) (simp add: z blit_append_right blit_append_left blit_whole blit_Cons,
        simp add: small [simplified])
qed

lemma assemble_result:
  "assemble r s q (At a old) =
    (let (status, f) = b41_mvcd_bootstrap_fields_build r (session_fields s) (At 0 zero_fields) in
     if status \<noteq> 0 then (status, At a (zeroed 106))
     else (0, At a (bootstrap_layout (contents (session_fields s)) (contents (query_info q)) (contents f))))"
proof (cases "b41_mvcd_bootstrap_fields_build r (session_fields s) (At 0 zero_fields)")
  case (Pair status f)
  show ?thesis
  proof (cases "status = 0")
    case True
    obtain g where g: "f = At 0 g"
      using Pair True feature_predicate_error [of "contents (session_fields s)" 0]
      by (auto simp: b41_mvcd_bootstrap_fields_build_def Let_def split: if_splits sum.splits prod.splits)
    have sub: "put_low16 0x1a = [0x1a, 0]" by (simp add: put_low16_def)
    show ?thesis
      using Pair True g fields_build_lengths [of r "session_fields s" 0 zero_fields g]
      by (simp add: assemble_def b41_mvcd_bootstrap_fields_apply_def bootstrap_layout_def Let_def
          layout_stores [simplified] sub)
  next
    case False
    then show ?thesis
      using Pair by (simp add: assemble_def b41_mvcd_bootstrap_fields_apply_def Let_def)
  qed
qed

section \<open>Properties\<close>

text \<open>The checks of \<^verbatim>\<open>validate\<close> as one predicate.\<close>

definition valid_query :: "b41_bootstrap_session ptr \<Rightarrow> b41_bootstrap_query ptr \<Rightarrow> bool" where
  "valid_query session query \<longleftrightarrow>
    session \<noteq> Null \<and> query \<noteq> Null \<and> session_fields (contents session) \<noteq> Null \<and>
    (let s = contents session; q = contents query; sel = session_selectors s; info = contents (query_info q) in
     secure_download_7178b8_33e sel \<noteq> 0 \<and> 0 \<le> session_gps0_fd s \<and>
     query_session q = address session \<and> query_gps0_fd q = session_gps0_fd s \<and> query_selectors q = sel \<and>
     query_command q = (if 1 \<le> dsp_selector_717cb0 sel \<and> dsp_selector_717cb0 sel \<le> 63 then 24 else 23) \<and>
     query_status q = 0 \<and> query_info q \<noteq> Null \<and> bytes_returned q = 20 \<and>
     1 \<le> unat (code_size info) \<and> unat (code_size info) < 2 ^ 16 \<and> unat (start_addr info) < 2 ^ 16 \<and>
     unat (exec_addr info) < 2 ^ 16 \<and> unat (cipher_key info) < 2 ^ 16 \<and>
     1 \<le> unat (frag_num info) \<and> unat (frag_num info) \<le> 257)"

lemma selector_range: "(x :: u8) - 1 < 0x3f \<longleftrightarrow> 1 \<le> x \<and> x \<le> 63"
proof (cases "x = 0")
  case False
  then have "1 \<le> x" by (simp add: word_le_nat_alt Suc_le_eq unat_gt_0)
  then have "unat (x - 1) = unat x - 1" by (simp add: unat_sub)
  then show ?thesis using \<open>1 \<le> x\<close> by (auto simp: word_less_nat_alt word_le_nat_alt)
qed simp

lemma fragment_range: "frag \<noteq> 0 \<and> \<not> (frag :: u32) - 1 > 256 \<longleftrightarrow> 1 \<le> unat frag \<and> unat frag \<le> 257"
proof (cases "frag = 0")
  case False
  then have "1 \<le> frag" by (simp add: word_le_nat_alt Suc_le_eq unat_gt_0)
  then have "unat (frag - 1) = unat frag - 1" by (simp add: unat_sub)
  then show ?thesis using \<open>1 \<le> frag\<close> by (auto simp: word_less_nat_alt word_le_nat_alt)
qed simp

lemma selectors_eq:
  "(s :: b41_bootstrap_selectors) = t \<longleftrightarrow> secure_download_7178b8_33e s = secure_download_7178b8_33e t \<and>
     dsp_selector_717cb0 s = dsp_selector_717cb0 t"
  by (cases s; cases t) auto

lemma store_local_route: "store local_route x = At (- 64) x"
  by (simp add: local_route_def)

lemma route_select_result:
  assumes "\<not> overlaps (At a sel) 2 local_route 2"
  shows "b41_bootstrap_route_select (At a sel) local_route =
    (if secure_download_7178b8_33e sel = 0 then (B41_BOOTSTRAP_EMBEDDED_IMAGE, local_route)
     else let m = (if 1 \<le> dsp_selector_717cb0 sel \<and> dsp_selector_717cb0 sel \<le> 63 then 24 else 23)
          in (0, store local_route \<lparr> metadata_ioctl = m, fragment_ioctl = m + 2 \<rparr>))"
  using assms
  by (simp add: b41_bootstrap_route_select_def overlaps_object_def local_route_def selector_range [simplified])

lemma status_ladder: "(if (x :: int) < 0 then x else if x \<noteq> 0 then e else r) = 0 \<longleftrightarrow> x = 0 \<and> r = 0"
  if "e \<noteq> 0"
  using that by auto

definition valid_info :: "b41_bootstrap_boot_info \<Rightarrow> bool" where
  "valid_info info \<longleftrightarrow>
     1 \<le> unat (code_size info) \<and> unat (code_size info) < 2 ^ 16 \<and> unat (start_addr info) < 2 ^ 16 \<and>
     unat (exec_addr info) < 2 ^ 16 \<and> unat (cipher_key info) < 2 ^ 16 \<and>
     1 \<le> unat (frag_num info) \<and> unat (frag_num info) \<le> 257"

lemma valid_info_words:
  "valid_info info \<longleftrightarrow>
    \<not> (code_size info = 0 \<or> code_size info > 0xffff \<or> start_addr info > 0xffff \<or>
       exec_addr info > 0xffff \<or> cipher_key info > 0xffff \<or> frag_num info = 0 \<or> frag_num info - 1 > 256)"
  using fragment_range [of "frag_num info"]
  by (auto simp: valid_info_def word_less_nat_alt Suc_le_eq unat_gt_0 not_less)

lemma validate_iff:
  assumes "\<not> overlaps (At (address session + 4) (session_selectors (contents session))) 2 local_route 2"
  shows "validate session query = 0 \<longleftrightarrow> valid_query session query"
proof (cases "session = Null \<or> query = Null \<or> session_fields (contents session) = Null")
  case True
  then show ?thesis by (auto simp: validate_def valid_query_def)
next
  case False
  let ?s = "contents session" and ?q = "contents query"
  show ?thesis
  proof (cases "secure_download_7178b8_33e (session_selectors ?s) = 0")
    case True
    then show ?thesis
      using False route_select_result [OF assms] by (simp add: validate_def valid_query_def Let_def)
  next
    case secure: False
    have "validate session query = 0 \<longleftrightarrow>
        0 \<le> session_gps0_fd ?s \<and> query_session ?q = address session \<and>
        query_gps0_fd ?q = session_gps0_fd ?s \<and> query_selectors ?q = session_selectors ?s \<and>
        query_command ?q = (if 1 \<le> dsp_selector_717cb0 (session_selectors ?s) \<and>
          dsp_selector_717cb0 (session_selectors ?s) \<le> 63 then 24 else 23) \<and>
        query_status ?q = 0 \<and> query_info ?q \<noteq> Null \<and> bytes_returned ?q = 20 \<and>
        valid_info (contents (query_info ?q))"
      using False secure unfolding validate_def
      by (simp add: route_select_result [OF assms] Let_def ladder status_ladder valid_info_words
          selectors_eq store_local_route not_less split del: if_split) auto
    then show ?thesis
      using False secure by (simp add: valid_query_def Let_def valid_info_def)
  qed
qed

lemma validate_ok: "validate session query = 0 \<Longrightarrow> valid_query session query"
proof -
  assume v: "validate session query = 0"
  have "\<not> overlaps (At (address session + 4) (session_selectors (contents session))) 2 local_route 2"
  proof
    assume "overlaps (At (address session + 4) (session_selectors (contents session))) 2 local_route 2"
    then have "validate session query \<noteq> 0"
      by (simp add: validate_def b41_bootstrap_route_select_def overlaps_object_def local_route_def)
    then show False using v by simp
  qed
  then show ?thesis using v validate_iff by blast
qed

text \<open>What success of the frame builder means whatever the addresses are.\<close>

lemma frame_build_ok:
  assumes "b41_bootstrap_frame_build r session query (At b f) 116 (At c w) = (0, fr, wr)" and "length f = 116"
  shows "valid_query session query \<and> (\<exists>g. fr = At b g \<and> length g = 116 \<and> wr = At c 116)"
proof -
  have v: "validate session query = 0"
    using assms(1) by (auto simp: b41_bootstrap_frame_build_def Let_def split: if_splits)
  obtain status pv where a: "assemble r (contents session) (contents query) private_payload = (status, pv)"
    by fastforce
  then have "b41_mvcd_encode_bootstrap pv 106 (At b f) 116 (At c w) = (0, fr, wr)"
    using assms(1) v by (auto simp: b41_bootstrap_frame_build_def Let_def split: if_splits)
  then show ?thesis
    using encode_bootstrap_ok assms(2) validate_ok [OF v] by blast
qed

text \<open>The objects of one call of the frame builder are apart from the builder's own storage.\<close>

definition stack_apart :: "b41_bootstrap_session ptr \<Rightarrow> bytes ptr \<Rightarrow> nat ptr \<Rightarrow> bool" where
  "stack_apart session frame written \<longleftrightarrow>
     \<not> overlaps (At (address session + 4) (session_selectors (contents session))) 2 local_route 2 \<and>
     \<not> overlaps private_payload 106 frame 116 \<and> \<not> overlaps written 8 private_payload 106"

definition caller_overlap ::
  "b41_bootstrap_session ptr \<Rightarrow> b41_bootstrap_query ptr \<Rightarrow> bytes ptr \<Rightarrow> nat ptr \<Rightarrow> bool" where
  "caller_overlap session query frame written \<longleftrightarrow>
     overlaps_object frame 116 written 8 \<or> overlaps_inputs frame 116 session query \<or>
     overlaps_inputs written 8 session query"

lemma layout_prefix:
  assumes "length p = 106" and "take 4 p = [0x1a, 0, 0, 0]"
  shows "le16 p = 0x1a" "le16 (drop 2 p) = 0"
proof -
  have "p ! 0 = 0x1a" "p ! 1 = 0" "p ! 2 = 0" "p ! 3 = 0"
    using arg_cong [OF assms(2), of "\<lambda>l. l ! 0"] arg_cong [OF assms(2), of "\<lambda>l. l ! 1"]
      arg_cong [OF assms(2), of "\<lambda>l. l ! 2"] arg_cong [OF assms(2), of "\<lambda>l. l ! 3"]
    by (simp_all add: eval_nat_numeral)
  then show "le16 p = 0x1a" "le16 (drop 2 p) = 0"
    using assms(1) by (simp_all add: le16_def)
qed

lemma frame_build_result:
  assumes apart: "stack_apart session (At b f) (At c w)" and size: "116 \<le> length f"
  shows "b41_bootstrap_frame_build r session query (At b f) (length f) (At c w) =
    (if \<not> valid_query session query then (validate session query, At b f, At c w)
     else if caller_overlap session query (At b f) (At c w) then (B41_BOOTSTRAP_OVERLAP, At b f, At c w)
     else let fields = session_fields (contents session);
              (status, out) = b41_mvcd_bootstrap_fields_build r fields (At 0 zero_fields) in
       if status \<noteq> 0 then (status, At b f, At c w)
       else (0, At b (mvcd_frame 110 8 (bootstrap_layout (contents fields) (contents (query_info (contents query)))
                 (contents out)) @ drop 116 f), At c 116))"
proof (cases "valid_query session query \<and> \<not> caller_overlap session query (At b f) (At c w)")
  case False
  then show ?thesis
    using size validate_iff [of session query] apart
    by (auto simp: b41_bootstrap_frame_build_def stack_apart_def caller_overlap_def Let_def)
next
  case True
  let ?fields = "session_fields (contents session)"
  obtain status out where build: "b41_mvcd_bootstrap_fields_build r ?fields (At 0 zero_fields) = (status, out)"
    by fastforce
  have v: "validate session query = 0"
    using True validate_iff [of session query] apart by (simp add: stack_apart_def)
  have pp: "private_payload = At (- 256) (zeroed 106)" by (simp add: private_payload_def)
  show ?thesis
  proof (cases "status = 0")
    case False
    then show ?thesis
      using True size v build assemble_result [of r "contents session" "contents query" "- 256" "zeroed 106"]
      by (simp add: b41_bootstrap_frame_build_def pp caller_overlap_def Let_def)
  next
    case ok: True
    let ?p = "bootstrap_layout (contents ?fields) (contents (query_info (contents query))) (contents out)"
    obtain g where g: "out = At 0 g"
      using build ok feature_predicate_error [of "contents ?fields" 0]
      by (auto simp: b41_mvcd_bootstrap_fields_build_def Let_def split: if_splits sum.splits prod.splits)
    have len: "length ?p = 106"
      using fields_build_lengths [of r ?fields 0 zero_fields g] build ok g by (simp add: bootstrap_layout_def)
    have pre: "le16 ?p = 0x1a" "le16 (drop 2 ?p) = 0"
      using layout_prefix [OF len] by (simp_all add: bootstrap_layout_def)
    have no: "\<not> overlaps (At (- 256) ?p) 106 (At b f) 116" "\<not> overlaps (At c w) 8 (At (- 256) ?p) 106"
      "\<not> overlaps (At c w) 8 (At b f) 116"
      using apart True overlaps_commute [of 8 116 "At c w" "At b f"]
      by (simp_all add: stack_apart_def pp overlaps_def caller_overlap_def overlaps_object_def)
    have "b41_mvcd_encode_bootstrap (At (- 256) ?p) 106 (At b f) (length f) (At c w) =
        (0, At b (mvcd_frame 110 8 ?p @ drop 116 f), At c 116)"
      using encode_bootstrap_result [OF len size, of "- 256" b c w] no pre len by simp
    then show ?thesis
      using True size v build ok assemble_result [of r "contents session" "contents query" "- 256" "zeroed 106"]
      by (simp add: b41_bootstrap_frame_build_def pp caller_overlap_def Let_def)
  qed
qed

text \<open>
  C5. The bootstrap frame builder, on a buffer of at least 116 bytes apart from its own
  storage: an invalid session or query is refused with the code of the first failing check, an
  output that overlaps an input or the other output with the overlap code, a field error is
  passed on, in each case with both outputs untouched; otherwise the buffer starts with the
  frame whose payload has the fixed layout of 106 bytes, subtype and zero sequence first, the
  query's metadata, the derived fields and the profile block at their offsets.
\<close>

theorem bootstrap_frame_exact:
  assumes apart: "stack_apart session (At b f) (At c w)" and size: "116 \<le> length f"
  shows "b41_bootstrap_frame_build r session query (At b f) (length f) (At c w) =
    (if \<not> valid_query session query then (validate session query, At b f, At c w)
     else if caller_overlap session query (At b f) (At c w) then (B41_BOOTSTRAP_OVERLAP, At b f, At c w)
     else let fields = session_fields (contents session);
              (status, out) = b41_mvcd_bootstrap_fields_build r fields (At 0 zero_fields) in
       if status \<noteq> 0 then (status, At b f, At c w)
       else (0, At b (mvcd_frame 110 8 (bootstrap_layout (contents fields) (contents (query_info (contents query)))
                 (contents out)) @ drop 116 f), At c 116))"
  using assms by (rule frame_build_result)

definition example_inputs :: b41_mvcd_bootstrap_inputs where
  "example_inputs = \<lparr> context_mode_13 = 0, context_hz_18 = 26000000, context_baud_1c = 921600,
     context_profile_24 = 0, context_chip_30 = 0xffff6789, context_lna_54 = 0, clock_selector_717cb3 = 1,
     profile_selector_717cb6 = 3, setting_717cb7 = 2, feature_flags_717cb8 = 0, word_7178b0 = 7,
     feature_name = At 0x5000 [0], feature_name_size = 1, secondary_fd_6edeec = -1, private_clock = Null \<rparr>"

definition example_session :: b41_bootstrap_session where
  "example_session = \<lparr> session_gps0_fd = 3,
     session_selectors = \<lparr> secure_download_7178b8_33e = 1, dsp_selector_717cb0 = 63 \<rparr>,
     session_fields = At 0x4000 example_inputs \<rparr>"

definition example_query :: b41_bootstrap_query where
  "example_query = \<lparr> query_session = 0x1000, query_gps0_fd = 3,
     query_selectors = \<lparr> secure_download_7178b8_33e = 1, dsp_selector_717cb0 = 63 \<rparr>,
     query_command = 24, query_status = 0,
     query_info = At 0x6000 \<lparr> code_size = 100, start_addr = 1, exec_addr = 2, cipher_key = 3, frag_num = 2 \<rparr>,
     bytes_returned = 20 \<rparr>"

lemma example_fields: "fst (b41_mvcd_bootstrap_fields_build True (At 0x4000 example_inputs) (At 0 zero_fields)) = 0"
proof -
  have "feature_predicate example_inputs = Inr False"
    by (simp add: feature_predicate_def example_inputs_def name_length.simps)
  then show ?thesis
    by (simp add: b41_mvcd_bootstrap_fields_build_def example_inputs_def effective_frequency_def
        selected_mode_def clock_synthesize_result Let_def)
qed

theorem bootstrap_frame_exact_witness:
  "fst (b41_bootstrap_frame_build True (At 0x1000 example_session) (At 0x2000 example_query)
      (At 0x8000 (replicate 116 0)) 116 (At 0x9000 0)) = 0"
proof -
  have "stack_apart (At 0x1000 example_session) (At 0x8000 (replicate 116 0)) (At 0x9000 0)"
    by (simp add: stack_apart_def overlaps_def local_route_def private_payload_def)
  moreover have "valid_query (At 0x1000 example_session) (At 0x2000 example_query)"
    by (simp add: valid_query_def example_session_def example_query_def)
  moreover have "\<not> caller_overlap (At 0x1000 example_session) (At 0x2000 example_query)
      (At 0x8000 (replicate 116 0)) (At 0x9000 0)"
    by (simp add: caller_overlap_def overlaps_inputs_def overlaps_object_def overlaps_def
        example_session_def example_query_def example_inputs_def)
  ultimately show ?thesis
    using bootstrap_frame_exact [of "At 0x1000 example_session" "0x8000" "replicate 116 0" "0x9000" 0 True
        "At 0x2000 example_query"] example_fields
    by (simp add: example_session_def Let_def split: prod.splits)
qed

end
