(* ===== verification/Dsp_Download.thy ===== *)
theory Dsp_Download
  imports Dsp_Bootstrap
begin

text \<open>
  The download controller of \<^verbatim>\<open>patches/gnss-navigation-audit/dsp-download/download.c\<close>: a state
  machine that sends the bootstrap frame, submits the firmware fragments one by one and waits
  for the acknowledgement of each. The contents of the session objects at the time of a call
  are a parameter (the store \<open>mem\<close>), because the controller keeps the session's address and
  reads the object again on every call.
\<close>

unbundle bit_operations_syntax

section \<open>State\<close>

datatype b41_download_stage = DOWNLOAD_NEW | DOWNLOAD_BOOTSTRAP_TX | DOWNLOAD_BOOTSTRAP_RX
  | DOWNLOAD_FRAGMENT_IOCTL | DOWNLOAD_FRAGMENT_RX | DOWNLOAD_ACKS_COMPLETE | DOWNLOAD_FAILED

datatype b41_download_action_kind = DOWNLOAD_WRITE | DOWNLOAD_READ | DOWNLOAD_SUBMIT_FRAGMENT | DOWNLOAD_DONE

record b41_download_action =
  action_kind :: b41_download_action_kind
  action_gps0_fd :: int
  action_bytes :: "bytes ptr"
  action_size :: nat
  action_command :: u32
  action_argument :: u32
  action_deadline_ns :: u64

record b41_download =
  stage :: b41_download_stage
  failure_stage :: b41_download_stage
  dl_first_error :: int
  dl_session :: u64
  dl_gps0_fd :: int
  dl_selectors :: b41_bootstrap_selectors
  fragment_count :: u32
  fragment_sequence :: u32
  matched_fragments :: u32
  dl_deadline_ns :: u64
  dl_last_now_ns :: u64
  tx :: bytes
  tx_size :: nat
  tx_offset :: nat
  rx :: bytes
  rx_size :: nat

type_synonym sessions = "u64 \<Rightarrow> b41_bootstrap_session"

definition sizeof_download :: nat where [simp]: "sizeof_download = 1232"
definition sizeof_action :: nat where [simp]: "sizeof_action = 40"

definition zero_download :: b41_download where
  "zero_download = \<lparr> stage = DOWNLOAD_NEW, failure_stage = DOWNLOAD_NEW, dl_first_error = 0, dl_session = 0,
     dl_gps0_fd = 0, dl_selectors = \<lparr> secure_download_7178b8_33e = 0, dsp_selector_717cb0 = 0 \<rparr>,
     fragment_count = 0, fragment_sequence = 0, matched_fragments = 0, dl_deadline_ns = 0,
     dl_last_now_ns = 0, tx = zeroed 116, tx_size = 0, tx_offset = 0, rx = zeroed 1024, rx_size = 0 \<rparr>"

section \<open>Operations\<close>

definition b41_download_abort :: "b41_download ptr \<Rightarrow> int \<Rightarrow> int \<times> b41_download ptr" where
  "b41_download_abort owner error =
    (if owner = Null then (- EINVAL, owner)
     else let s = contents owner in
       if stage s = DOWNLOAD_FAILED then (dl_first_error s, owner)
       else if stage s = DOWNLOAD_ACKS_COMPLETE then (- EALREADY, owner)
       else let s = s\<lparr> dl_first_error := (if error < 0 then error else - EPROTO),
                       failure_stage := stage s, stage := DOWNLOAD_FAILED,
                       tx := zeroed (length (tx s)), rx := zeroed (length (rx s)),
                       tx_size := 0, tx_offset := 0, rx_size := 0 \<rparr>
            in (dl_first_error s, store owner s))"

definition check :: "sessions \<Rightarrow> b41_download ptr \<Rightarrow> u64 \<Rightarrow> int \<times> b41_download ptr" where
  "check mem owner now =
    (if owner = Null then (- EINVAL, owner)
     else let s = contents owner; session = mem (dl_session s) in
       if stage s = DOWNLOAD_FAILED then (dl_first_error s, owner)
       else if stage s = DOWNLOAD_ACKS_COMPLETE then (0, owner)
       else if stage s = DOWNLOAD_NEW then (- EINVAL, owner)
       else if dl_session s = 0 \<or> session_gps0_fd session \<noteq> dl_gps0_fd s \<or>
               secure_download_7178b8_33e (session_selectors session) \<noteq> secure_download_7178b8_33e (dl_selectors s) \<or>
               dsp_selector_717cb0 (session_selectors session) \<noteq> dsp_selector_717cb0 (dl_selectors s)
       then b41_download_abort owner (- ESTALE)
       else if now < dl_last_now_ns s then b41_download_abort owner (- EINVAL)
       else let owner = store owner (s\<lparr> dl_last_now_ns := now \<rparr>) in
         if now \<ge> dl_deadline_ns s then b41_download_abort owner (- ETIMEDOUT)
         else (0, owner))"

text \<open>The local frame and size of \<^verbatim>\<open>b41_download_begin\<close>.\<close>

definition local_frame :: "bytes ptr" where "local_frame = At (- 1024) (zeroed 116)"
definition local_size :: "nat ptr" where "local_size = At (- 1040) 0"

definition b41_download_begin ::
  "bool \<Rightarrow> b41_download ptr \<Rightarrow> b41_bootstrap_session ptr \<Rightarrow> b41_bootstrap_query ptr \<Rightarrow> u64 \<Rightarrow> u64 \<Rightarrow>
   int \<times> b41_download ptr" where
  "b41_download_begin tonearest owner session query now deadline =
    (if owner = Null then (- EINVAL, owner)
     else if stage (contents owner) \<noteq> DOWNLOAD_NEW
     then (if stage (contents owner) = DOWNLOAD_FAILED then dl_first_error (contents owner) else - EALREADY, owner)
     else if session = Null \<or> query = Null \<or> session_fields (contents session) = Null \<or>
             query_info (contents query) = Null
     then b41_download_abort owner (- EINVAL)
     else let s = contents session; q = contents query; f = contents (session_fields s) in
       if overlaps owner sizeof_download session sizeof_session \<or>
          overlaps owner sizeof_download query sizeof_query \<or>
          overlaps owner sizeof_download (query_info q) sizeof_info \<or>
          overlaps owner sizeof_download (session_fields s) sizeof_inputs \<or>
          (feature_name f \<noteq> Null \<and>
           overlaps owner sizeof_download (feature_name f)
             (if feature_name_size f < 0x296 then feature_name_size f else 0x296)) \<or>
          (private_clock f \<noteq> Null \<and> overlaps owner sizeof_download (private_clock f) sizeof_private_clock)
       then (- EINVAL, owner)
       else if deadline \<le> now then b41_download_abort owner (- ETIMEDOUT)
       else let (status, frame, sz) =
              b41_bootstrap_frame_build tonearest session query local_frame 116 local_size in
         if status \<noteq> 0 then b41_download_abort owner status
         else (0, store owner ((contents owner)\<lparr>
                dl_session := address session, dl_gps0_fd := session_gps0_fd s,
                dl_selectors := session_selectors s, fragment_count := frag_num (contents (query_info q)),
                fragment_sequence := 1, dl_deadline_ns := deadline, dl_last_now_ns := now,
                tx := blit (tx (contents owner)) 0 (take (contents sz) (contents frame)),
                tx_size := contents sz, stage := DOWNLOAD_BOOTSTRAP_TX \<rparr>)))"

definition b41_download_next ::
  "sessions \<Rightarrow> b41_download ptr \<Rightarrow> u64 \<Rightarrow> b41_download_action ptr \<Rightarrow>
   int \<times> b41_download ptr \<times> b41_download_action ptr" where
  "b41_download_next mem owner now action =
    (let (status, owner) = check mem owner now;
         fails = (\<lambda>e. let (r, t) = b41_download_abort owner e in (r, t, action)) in
     if status \<noteq> 0 then (status, owner, action)
     else if action = Null \<or> overlaps owner sizeof_download action sizeof_action then fails (- EINVAL)
     else let s = contents owner;
              next = \<lparr> action_kind = DOWNLOAD_WRITE, action_gps0_fd = dl_gps0_fd s, action_bytes = Null,
                       action_size = 0, action_command = 0, action_argument = 0,
                       action_deadline_ns = dl_deadline_ns s \<rparr> in
       (case stage s of
          DOWNLOAD_BOOTSTRAP_TX \<Rightarrow>
            (0, owner, store action (next\<lparr> action_kind := DOWNLOAD_WRITE,
               action_bytes := At (address owner + 64 + of_nat (tx_offset s)) (drop (tx_offset s) (tx s)),
               action_size := tx_size s - tx_offset s \<rparr>))
        | DOWNLOAD_BOOTSTRAP_RX \<Rightarrow> (0, owner, store action (next\<lparr> action_kind := DOWNLOAD_READ \<rparr>))
        | DOWNLOAD_FRAGMENT_RX \<Rightarrow> (0, owner, store action (next\<lparr> action_kind := DOWNLOAD_READ \<rparr>))
        | DOWNLOAD_FRAGMENT_IOCTL \<Rightarrow>
            let (r, route) = b41_bootstrap_route_select (At (address owner + 28) (dl_selectors s)) local_route in
            if r \<noteq> 0 then fails r
            else (0, owner, store action (next\<lparr> action_kind := DOWNLOAD_SUBMIT_FRAGMENT,
                    action_command := ucast (fragment_ioctl (contents route)),
                    action_argument := fragment_sequence s - 1 \<rparr>))
        | DOWNLOAD_ACKS_COMPLETE \<Rightarrow> (0, owner, store action (next\<lparr> action_kind := DOWNLOAD_DONE \<rparr>))
        | _ \<Rightarrow> fails (- EPROTO)))"

definition b41_download_written :: "sessions \<Rightarrow> b41_download ptr \<Rightarrow> u64 \<Rightarrow> int \<Rightarrow> int \<times> b41_download ptr" where
  "b41_download_written mem owner now result =
    (let (status, owner) = check mem owner now; s = contents owner in
     if status \<noteq> 0 then (status, owner)
     else if stage s \<noteq> DOWNLOAD_BOOTSTRAP_TX then b41_download_abort owner (- EPROTO)
     else if result = - EAGAIN then (0, owner)
     else if result < 0 then b41_download_abort owner result
     else if result = 0 \<or> nat result > tx_size s - tx_offset s then b41_download_abort owner (- EIO)
     else let s = s\<lparr> tx_offset := tx_offset s + nat result \<rparr> in
       if tx_offset s = tx_size s
       then (0, store owner (s\<lparr> tx := zeroed (length (tx s)), tx_offset := 0, tx_size := 0,
                                stage := DOWNLOAD_BOOTSTRAP_RX \<rparr>))
       else (0, store owner s))"

definition b41_download_submitted :: "sessions \<Rightarrow> b41_download ptr \<Rightarrow> u64 \<Rightarrow> int \<Rightarrow> int \<times> b41_download ptr" where
  "b41_download_submitted mem owner now result =
    (let (status, owner) = check mem owner now; s = contents owner in
     if status \<noteq> 0 then (status, owner)
     else if stage s \<noteq> DOWNLOAD_FRAGMENT_IOCTL then b41_download_abort owner (- EPROTO)
     else if result \<noteq> 0 then b41_download_abort owner result
     else (0, store owner (s\<lparr> stage := DOWNLOAD_FRAGMENT_RX \<rparr>)))"

definition local_ack :: "b41_mvcd_ack ptr" where
  "local_ack = At (- 1056) \<lparr> ack_sequence = 0, ack_bootstrap_auxiliary = 0, ack_payload_size = 0,
     ack_length_high_nibble = 0, ack_has_bootstrap_auxiliary = 0 \<rparr>"

text \<open>
  The steps of the receive path: storing the chunk, erasing the receive buffer, and the transition
  after a matching acknowledgement.
\<close>

definition chunk_stored :: "b41_download \<Rightarrow> bytes \<Rightarrow> nat \<Rightarrow> b41_download" where
  "chunk_stored s bytes sz = s\<lparr> rx := blit (rx s) (rx_size s) (take sz bytes), rx_size := rx_size s + sz \<rparr>"

definition rx_cleared :: "b41_download \<Rightarrow> b41_download" where
  "rx_cleared s = s\<lparr> rx := zeroed (length (rx s)), rx_size := 0 \<rparr>"

definition acknowledged :: "b41_download \<Rightarrow> b41_download" where
  "acknowledged s =
    (if stage s = DOWNLOAD_FRAGMENT_RX then
       let s = s\<lparr> matched_fragments := matched_fragments s + 1, fragment_sequence := fragment_sequence s + 1 \<rparr> in
       if matched_fragments s = fragment_count s
       then s\<lparr> stage := DOWNLOAD_ACKS_COMPLETE, dl_session := 0 \<rparr>
       else s\<lparr> stage := DOWNLOAD_FRAGMENT_IOCTL \<rparr>
     else s\<lparr> stage := DOWNLOAD_FRAGMENT_IOCTL \<rparr>)"

definition ack_frame_size :: "bytes \<Rightarrow> nat" where
  "ack_frame_size r = unat (ucast (r ! 2) OR push_bit 8 (ucast (r ! 3 AND 15)) :: u64) + 6"

definition b41_download_received ::
  "sessions \<Rightarrow> b41_download ptr \<Rightarrow> u64 \<Rightarrow> bytes ptr \<Rightarrow> nat \<Rightarrow> int \<times> b41_download ptr" where
  "b41_download_received mem owner now bytes sz =
    (let (status, owner) = check mem owner now; s = contents owner in
     if status \<noteq> 0 then (status, owner)
     else if stage s \<noteq> DOWNLOAD_BOOTSTRAP_RX \<and> stage s \<noteq> DOWNLOAD_FRAGMENT_RX
     then b41_download_abort owner (- EPROTO)
     else if bytes = Null \<or> sz = 0 \<or> sz > length (rx s) - rx_size s \<or>
             overlaps owner sizeof_download bytes sz
     then b41_download_abort owner (- EMSGSIZE)
     else let s = chunk_stored s (contents bytes) sz; owner = store owner s in
       if rx_size s < 6 then (0, owner)
       else if rx s ! 0 \<noteq> 0xaa \<or> rx s ! 1 \<noteq> 0xf0 \<or> rx s ! 5 \<noteq> 0xfe
       then b41_download_abort owner (- EPROTO)
       else let frame_size = ack_frame_size (rx s) in
         if frame_size < 10 \<or> frame_size > length (rx s) \<or> rx_size s > frame_size
         then b41_download_abort owner (- EPROTO)
         else if rx_size s < frame_size then (0, owner)
         else let kind = (if stage s = DOWNLOAD_BOOTSTRAP_RX then B41_MVCD_BOOTSTRAP_ACK else B41_MVCD_FRAGMENT_ACK);
                  sequence = (if stage s = DOWNLOAD_BOOTSTRAP_RX then 0 else ucast (fragment_sequence s));
                  (status, ack) = b41_mvcd_decode_ack (At (address owner + 200) (rx s)) frame_size kind sequence local_ack;
                  s = rx_cleared s in
           if status \<noteq> 0 then b41_download_abort (store owner s) status
           else (0, store owner (acknowledged s)))"

section \<open>Calls and runs\<close>

text \<open>
  One call on an owner at a fixed address. The store of sessions may be different at every call.
\<close>

datatype dl_call =
    Begin bool "b41_bootstrap_session ptr" "b41_bootstrap_query ptr" u64 u64
  | Next u64 "b41_download_action ptr"
  | Written u64 int
  | Submitted u64 int
  | Received u64 "bytes ptr" nat
  | Abort int

definition owner_address :: u64 where "owner_address = 0x100000"

definition dl_pair :: "int \<times> b41_download ptr \<times> 'a \<Rightarrow> int \<times> b41_download ptr" where
  "dl_pair result = (fst result, fst (snd result))"

fun dl_perform :: "sessions \<Rightarrow> dl_call \<Rightarrow> b41_download \<Rightarrow> int \<times> b41_download ptr" where
  "dl_perform mem (Begin r session query now deadline) s =
     b41_download_begin r (At owner_address s) session query now deadline"
| "dl_perform mem (Next now action) s =
     dl_pair (b41_download_next mem (At owner_address s) now action)"
| "dl_perform mem (Written now result) s = b41_download_written mem (At owner_address s) now result"
| "dl_perform mem (Submitted now result) s = b41_download_submitted mem (At owner_address s) now result"
| "dl_perform mem (Received now bytes n) s = b41_download_received mem (At owner_address s) now bytes n"
| "dl_perform mem (Abort error) s = b41_download_abort (At owner_address s) error"

definition dl_step :: "sessions \<times> dl_call \<Rightarrow> b41_download \<Rightarrow> b41_download \<times> int" where
  "dl_step op s = (let (r, t) = dl_perform (fst op) (snd op) s in (contents t, r))"

section \<open>The invariant\<close>

definition progress_ok :: "b41_download \<Rightarrow> bool" where
  "progress_ok s \<longleftrightarrow> fragment_sequence s = matched_fragments s + 1 \<and>
     matched_fragments s < fragment_count s \<and> unat (fragment_count s) \<le> 257"

definition dl_ok :: "b41_download \<Rightarrow> bool" where
  "dl_ok s \<longleftrightarrow> length (tx s) = 116 \<and> length (rx s) = 1024 \<and> rx_size s \<le> 1024 \<and>
    (case stage s of
       DOWNLOAD_NEW \<Rightarrow> s = zero_download
     | DOWNLOAD_BOOTSTRAP_TX \<Rightarrow> progress_ok s \<and> matched_fragments s = 0 \<and> tx_size s = 116 \<and>
         tx_offset s < 116 \<and> rx s = zeroed 1024 \<and> rx_size s = 0
     | DOWNLOAD_BOOTSTRAP_RX \<Rightarrow> progress_ok s \<and> matched_fragments s = 0 \<and> tx s = zeroed 116 \<and> tx_size s = 0
     | DOWNLOAD_FRAGMENT_IOCTL \<Rightarrow> progress_ok s \<and> tx s = zeroed 116 \<and> rx s = zeroed 1024 \<and> rx_size s = 0
     | DOWNLOAD_FRAGMENT_RX \<Rightarrow> progress_ok s \<and> tx s = zeroed 116
     | DOWNLOAD_ACKS_COMPLETE \<Rightarrow> matched_fragments s = fragment_count s \<and> tx s = zeroed 116 \<and>
         rx s = zeroed 1024 \<and> dl_session s = 0
     | DOWNLOAD_FAILED \<Rightarrow> dl_first_error s < 0 \<and> tx s = zeroed 116 \<and> rx s = zeroed 1024 \<and>
         tx_size s = 0 \<and> tx_offset s = 0 \<and> rx_size s = 0)"

lemma dl_ok_zero: "dl_ok zero_download"
  by (simp add: dl_ok_def zero_download_def)

text \<open>Aborting, spelled out.\<close>

definition failed_state :: "b41_download \<Rightarrow> int \<Rightarrow> b41_download" where
  "failed_state s e = s\<lparr> dl_first_error := e, failure_stage := stage s, stage := DOWNLOAD_FAILED,
     tx := zeroed (length (tx s)), rx := zeroed (length (rx s)), tx_size := 0, tx_offset := 0, rx_size := 0 \<rparr>"

lemma abort_result:
  "b41_download_abort (At a s) e =
    (if stage s = DOWNLOAD_FAILED then (dl_first_error s, At a s)
     else if stage s = DOWNLOAD_ACKS_COMPLETE then (- EALREADY, At a s)
     else let e = (if e < 0 then e else - EPROTO) in (e, At a (failed_state s e)))"
  by (simp add: b41_download_abort_def failed_state_def Let_def)

lemma failed_state_ok: "dl_ok s \<Longrightarrow> e < 0 \<Longrightarrow> dl_ok (failed_state s e)"
  by (simp add: dl_ok_def failed_state_def)

lemma failed_state_fields [simp]:
  "stage (failed_state s e) = DOWNLOAD_FAILED" "matched_fragments (failed_state s e) = matched_fragments s"
  "fragment_count (failed_state s e) = fragment_count s" "dl_first_error (failed_state s e) = e"
  by (simp_all add: failed_state_def)

section \<open>The protocol\<close>

text \<open>
  The abstract protocol: the stage with the number of acknowledged fragments and the total.
  A label marks the edges on which a fragment is submitted.
\<close>

type_synonym progress = "b41_download_stage \<times> nat \<times> nat"

inductive dl_edge :: "bool \<Rightarrow> progress \<Rightarrow> progress \<Rightarrow> bool" where
  stay: "dl_edge False p p"
| fail: "st \<noteq> DOWNLOAD_ACKS_COMPLETE \<Longrightarrow> dl_edge False (st, m, n) (DOWNLOAD_FAILED, m, n)"
| start: "1 \<le> n \<Longrightarrow> n \<le> 257 \<Longrightarrow> dl_edge False (DOWNLOAD_NEW, 0, 0) (DOWNLOAD_BOOTSTRAP_TX, 0, n)"
| sent: "dl_edge False (DOWNLOAD_BOOTSTRAP_TX, m, n) (DOWNLOAD_BOOTSTRAP_RX, m, n)"
| boot_ack: "dl_edge False (DOWNLOAD_BOOTSTRAP_RX, m, n) (DOWNLOAD_FRAGMENT_IOCTL, m, n)"
| submit: "dl_edge True (DOWNLOAD_FRAGMENT_IOCTL, m, n) (DOWNLOAD_FRAGMENT_RX, m, n)"
| ack: "Suc m < n \<Longrightarrow> dl_edge False (DOWNLOAD_FRAGMENT_RX, m, n) (DOWNLOAD_FRAGMENT_IOCTL, Suc m, n)"
| last_ack: "Suc m = n \<Longrightarrow> dl_edge False (DOWNLOAD_FRAGMENT_RX, m, n) (DOWNLOAD_ACKS_COMPLETE, n, n)"

inductive_cases submit_edgeE: "dl_edge True p q"
inductive_cases complete_edgeE: "dl_edge b p (DOWNLOAD_ACKS_COMPLETE, m, n)"
inductive_cases edgeE: "dl_edge b p q"

definition dl_progress :: "b41_download \<Rightarrow> progress" where
  "dl_progress s = (stage s, unat (matched_fragments s), unat (fragment_count s))"

text \<open>A fragment submission that a call completes, with the argument it had.\<close>

definition submission :: "sessions \<times> dl_call \<Rightarrow> b41_download \<Rightarrow> u32 list" where
  "submission op s =
    (case snd op of
       Submitted now result \<Rightarrow> if snd (dl_step op s) = 0 then [fragment_sequence s - 1] else []
     | _ \<Rightarrow> [])"

text \<open>What the common check does.\<close>

definition live :: "b41_download \<Rightarrow> u64 \<Rightarrow> bool" where
  "live s now \<longleftrightarrow> stage s \<noteq> DOWNLOAD_NEW \<and> stage s \<noteq> DOWNLOAD_FAILED \<and> stage s \<noteq> DOWNLOAD_ACKS_COMPLETE \<and>
     dl_last_now_ns s \<le> now \<and> now < dl_deadline_ns s"

text \<open>A refused call leaves the state alone or fails it.\<close>

definition refused :: "b41_download \<Rightarrow> int \<Rightarrow> b41_download \<Rightarrow> bool" where
  "refused s r t \<longleftrightarrow> r < 0 \<and> dl_ok t \<and> (t = s \<or> stage s \<noteq> DOWNLOAD_ACKS_COMPLETE \<and> stage t = DOWNLOAD_FAILED \<and>
     matched_fragments t = matched_fragments s \<and> fragment_count t = fragment_count s)"

definition refuses :: "u64 \<Rightarrow> b41_download \<Rightarrow> int \<times> b41_download ptr \<Rightarrow> bool" where
  "refuses a s result \<longleftrightarrow> (\<exists>t. snd result = At a t \<and> refused s (fst result) t)"

lemma failed_error: "dl_ok s \<Longrightarrow> stage s = DOWNLOAD_FAILED \<Longrightarrow> dl_first_error s < 0"
  by (simp add: dl_ok_def)

lemma refused_same: "dl_ok s \<Longrightarrow> r < 0 \<Longrightarrow> refuses a s (r, At a s)"
  by (simp add: refuses_def refused_def)

text \<open>Aborting a call, at its start or in the middle of its work, counts as refusing it.\<close>

lemma abort_refuses_from:
  assumes "dl_ok s'" and "stage s' = stage s" and "matched_fragments s' = matched_fragments s"
    and "fragment_count s' = fragment_count s"
    and "stage s \<noteq> DOWNLOAD_ACKS_COMPLETE" and "stage s \<noteq> DOWNLOAD_FAILED"
  shows "refuses a s (b41_download_abort (At a s') e)"
  using assms failed_state_ok [OF assms(1), of "if e < 0 then e else - EPROTO"]
  by (simp add: refuses_def abort_result refused_def Let_def)

lemma abort_refuses: "dl_ok s \<Longrightarrow> refuses a s (b41_download_abort (At a s) e)"
  using abort_refuses_from [of s s a e] refused_same [of s _ a] failed_error [of s]
  by (cases "stage s = DOWNLOAD_FAILED \<or> stage s = DOWNLOAD_ACKS_COMPLETE") (auto simp: abort_result)

lemma dl_ok_time [simp]:
  "stage s \<noteq> DOWNLOAD_NEW \<Longrightarrow> dl_ok (s\<lparr> dl_last_now_ns := now \<rparr>) = dl_ok s"
  by (cases "stage s") (simp_all add: dl_ok_def progress_ok_def)

lemma check_cases:
  assumes "dl_ok s"
  shows "check mem (At a s) now = (0, At a (s\<lparr> dl_last_now_ns := now \<rparr>)) \<and> live s now \<or>
    check mem (At a s) now = (0, At a s) \<and> stage s = DOWNLOAD_ACKS_COMPLETE \<or>
    refuses a s (check mem (At a s) now)"
proof (cases "stage s = DOWNLOAD_NEW \<or> stage s = DOWNLOAD_FAILED \<or> stage s = DOWNLOAD_ACKS_COMPLETE")
  case True
  then show ?thesis
    using assms refused_same [OF assms] failed_error [OF assms] by (auto simp: check_def)
next
  case False
  let ?u = "s\<lparr> dl_last_now_ns := now \<rparr>"
  let ?session = "mem (dl_session s)"
  let ?stale = "dl_session s = 0 \<or> session_gps0_fd ?session \<noteq> dl_gps0_fd s \<or>
      secure_download_7178b8_33e (session_selectors ?session) \<noteq> secure_download_7178b8_33e (dl_selectors s) \<or>
      dsp_selector_717cb0 (session_selectors ?session) \<noteq> dsp_selector_717cb0 (dl_selectors s)"
  have run: "check mem (At a s) now =
    (if ?stale then b41_download_abort (At a s) (- ESTALE)
     else if now < dl_last_now_ns s then b41_download_abort (At a s) (- EINVAL)
     else if now \<ge> dl_deadline_ns s then b41_download_abort (At a ?u) (- ETIMEDOUT)
     else (0, At a ?u))"
    using False by (simp add: check_def Let_def)
  have "refuses a s (b41_download_abort (At a ?u) (- ETIMEDOUT))"
    using assms False by (intro abort_refuses_from) simp_all
  then show ?thesis
    unfolding run live_def using False abort_refuses [OF assms, of a] by (simp add: not_less not_le)
qed

text \<open>A call is an edge of the protocol and keeps the invariant.\<close>

definition good_step :: "bool \<Rightarrow> u64 \<Rightarrow> b41_download \<Rightarrow> int \<times> b41_download ptr \<Rightarrow> bool" where
  "good_step b a s result \<longleftrightarrow>
    (\<exists>t. snd result = At a t \<and> dl_ok t \<and> dl_edge b (dl_progress s) (dl_progress t))"

lemma refuses_good: "refuses a s result \<Longrightarrow> good_step False a s result"
  by (auto simp: refuses_def refused_def good_step_def dl_progress_def intro: dl_edge.intros)

lemma refuses_negative: "refuses a s result \<Longrightarrow> fst result < 0"
  by (auto simp: refuses_def refused_def)

lemma live_not:
  "live s now \<Longrightarrow> stage s \<noteq> DOWNLOAD_ACKS_COMPLETE" "live s now \<Longrightarrow> stage s \<noteq> DOWNLOAD_FAILED"
  "live s now \<Longrightarrow> stage s \<noteq> DOWNLOAD_NEW"
  by (simp_all add: live_def)

lemma good_stay: "dl_ok t \<Longrightarrow> dl_progress t = dl_progress s \<Longrightarrow> good_step False a s (r, At a t)"
  by (auto simp: good_step_def intro: dl_edge.intros)

lemma live_time_good: "dl_ok s \<Longrightarrow> live s now \<Longrightarrow> good_step False a s (r, At a (s\<lparr> dl_last_now_ns := now \<rparr>))"
  by (intro good_stay) (simp_all add: live_not dl_progress_def)

lemma live_abort_good:
  "dl_ok s' \<Longrightarrow> live s now \<Longrightarrow> stage s' = stage s \<Longrightarrow> matched_fragments s' = matched_fragments s \<Longrightarrow>
   fragment_count s' = fragment_count s \<Longrightarrow> good_step False a s (b41_download_abort (At a s') e)"
  by (intro refuses_good abort_refuses_from) (simp_all add: live_not)

lemma complete_abort_good:
  "dl_ok s \<Longrightarrow> stage s = DOWNLOAD_ACKS_COMPLETE \<Longrightarrow> good_step False a s (b41_download_abort (At a s) e)"
  by (intro refuses_good abort_refuses)

lemma good_pair: "good_step b a s (r, At a t) \<longleftrightarrow> dl_ok t \<and> dl_edge b (dl_progress s) (dl_progress t)"
  by (simp add: good_step_def)

lemmas dl_unfold = good_pair dl_ok_def progress_ok_def dl_progress_def

lemma written_good:
  assumes ok: "dl_ok s"
  shows "good_step False a s (b41_download_written mem (At a s) now result)"
proof -
  let ?u = "s\<lparr> dl_last_now_ns := now \<rparr>"
  from check_cases [OF ok, of mem a now] show ?thesis
  proof (elim disjE conjE)
    assume c: "check mem (At a s) now = (0, At a ?u)" and l: "live s now"
    have u: "dl_ok ?u" using ok l by (simp add: live_not)
    show ?thesis
    proof (cases "stage s = DOWNLOAD_BOOTSTRAP_TX \<and> 0 < result \<and> nat result \<le> tx_size s - tx_offset s")
      case True
      then show ?thesis
        using c ok by (auto simp: b41_download_written_def Let_def dl_unfold intro: dl_edge.intros)
    next
      case False
      then show ?thesis
        using c live_abort_good [OF u l] live_time_good [OF ok l]
        by (auto simp: b41_download_written_def Let_def)
    qed
  next
    assume c: "check mem (At a s) now = (0, At a s)" and d: "stage s = DOWNLOAD_ACKS_COMPLETE"
    then show ?thesis using complete_abort_good [OF ok d] by (simp add: b41_download_written_def)
  next
    assume r: "refuses a s (check mem (At a s) now)"
    obtain x p where "check mem (At a s) now = (x, p)" by fastforce
    then show ?thesis
      using refuses_good [OF r] refuses_negative [OF r] by (simp add: b41_download_written_def)
  qed
qed

lemma submitted_good:
  assumes ok: "dl_ok s"
  shows "good_step (fst (b41_download_submitted mem (At a s) now result) = 0) a s
    (b41_download_submitted mem (At a s) now result)"
proof -
  let ?u = "s\<lparr> dl_last_now_ns := now \<rparr>"
  from check_cases [OF ok, of mem a now] show ?thesis
  proof (elim disjE conjE)
    assume c: "check mem (At a s) now = (0, At a ?u)" and l: "live s now"
    have u: "dl_ok ?u" using ok l by (simp add: live_not)
    show ?thesis
    proof (cases "stage s = DOWNLOAD_FRAGMENT_IOCTL \<and> result = 0")
      case True
      then show ?thesis
        using c ok by (auto simp: b41_download_submitted_def Let_def dl_unfold intro: dl_edge.intros)
    next
      case False
      let ?e = "if stage s \<noteq> DOWNLOAD_FRAGMENT_IOCTL then - EPROTO else result"
      have e: "b41_download_submitted mem (At a s) now result = b41_download_abort (At a ?u) ?e"
        using c False by (auto simp: b41_download_submitted_def Let_def)
      have r: "refuses a s (b41_download_abort (At a ?u) ?e)"
        using live_not [OF l] by (intro abort_refuses_from [OF u]) simp_all
      then show ?thesis
        using refuses_good [OF r] refuses_negative [OF r] e by simp
    qed
  next
    assume c: "check mem (At a s) now = (0, At a s)" and d: "stage s = DOWNLOAD_ACKS_COMPLETE"
    then show ?thesis
      using complete_abort_good [OF ok d] refuses_negative [OF abort_refuses [OF ok, of a]]
      by (simp add: b41_download_submitted_def less_imp_neq)
  next
    assume r: "refuses a s (check mem (At a s) now)"
    obtain x p where "check mem (At a s) now = (x, p)" by fastforce
    then show ?thesis
      using refuses_good [OF r] refuses_negative [OF r] by (simp add: b41_download_submitted_def)
  qed
qed

lemma chunk_stored_ok:
  assumes "dl_ok s" and "stage s = DOWNLOAD_BOOTSTRAP_RX \<or> stage s = DOWNLOAD_FRAGMENT_RX"
    and "sz \<le> length (rx s) - rx_size s"
  shows "dl_ok (chunk_stored s bytes sz)" "dl_ok (rx_cleared (chunk_stored s bytes sz))"
  using assms by (auto simp: dl_ok_def chunk_stored_def rx_cleared_def progress_ok_def)

lemma chunk_fields [simp]:
  "stage (chunk_stored s bytes sz) = stage s" "stage (rx_cleared s) = stage s"
  "matched_fragments (chunk_stored s bytes sz) = matched_fragments s" "matched_fragments (rx_cleared s) = matched_fragments s"
  "fragment_count (chunk_stored s bytes sz) = fragment_count s" "fragment_count (rx_cleared s) = fragment_count s"
  "fragment_sequence (chunk_stored s bytes sz) = fragment_sequence s" "fragment_sequence (rx_cleared s) = fragment_sequence s"
  by (simp_all add: chunk_stored_def rx_cleared_def)

lemma progress_Suc:
  assumes "matched_fragments s < fragment_count s" and "unat (fragment_count s) \<le> 257"
  shows "unat (matched_fragments s + 1) = Suc (unat (matched_fragments s))"
    and "matched_fragments s + 1 = fragment_count s \<longleftrightarrow> Suc (unat (matched_fragments s)) = unat (fragment_count s)"
    and "matched_fragments s + 1 < fragment_count s \<longleftrightarrow> Suc (unat (matched_fragments s)) < unat (fragment_count s)"
proof -
  show 1: "unat (matched_fragments s + 1) = Suc (unat (matched_fragments s))"
    using assms by (simp add: unat_word_ariths word_less_nat_alt)
  then show "matched_fragments s + 1 = fragment_count s \<longleftrightarrow> Suc (unat (matched_fragments s)) = unat (fragment_count s)"
    by (metis word_unat_eq_iff)
  show "matched_fragments s + 1 < fragment_count s \<longleftrightarrow> Suc (unat (matched_fragments s)) < unat (fragment_count s)"
    using 1 by (simp add: word_less_nat_alt)
qed

lemma acknowledged_good:
  assumes "dl_ok s" and "stage s = DOWNLOAD_BOOTSTRAP_RX \<or> stage s = DOWNLOAD_FRAGMENT_RX"
    and "rx s = zeroed 1024" and "rx_size s = 0" and "dl_progress s = dl_progress u"
  shows "good_step False a u (0, At a (acknowledged s))"
proof (cases "stage s = DOWNLOAD_FRAGMENT_RX")
  case True
  then have less: "matched_fragments s < fragment_count s" "unat (fragment_count s) \<le> 257"
    using assms(1) by (simp_all add: dl_ok_def progress_ok_def)
  note suc = progress_Suc [OF less]
  have "Suc (unat (matched_fragments s)) = unat (fragment_count s) \<or> Suc (unat (matched_fragments s)) < unat (fragment_count s)"
    using less(1) by (auto simp: word_less_nat_alt)
  then show ?thesis
    using True assms suc less unfolding good_pair assms(5) [symmetric]
    by (auto simp: acknowledged_def dl_ok_def progress_ok_def dl_progress_def Let_def intro: dl_edge.intros)
next
  case False
  then show ?thesis
    using assms unfolding good_pair assms(5) [symmetric]
    by (auto simp: acknowledged_def dl_ok_def progress_ok_def dl_progress_def intro: dl_edge.intros)
qed

lemma received_good:
  assumes ok: "dl_ok s"
  shows "good_step False a s (b41_download_received mem (At a s) now bytes sz)"
proof -
  let ?u = "s\<lparr> dl_last_now_ns := now \<rparr>"
  let ?t = "chunk_stored ?u (contents bytes) sz"
  from check_cases [OF ok, of mem a now] show ?thesis
  proof (elim disjE conjE)
    assume c: "check mem (At a s) now = (0, At a ?u)" and l: "live s now"
    have u: "dl_ok ?u" using ok l by (simp add: live_not)
    note ab = live_abort_good [OF _ l]
    show ?thesis
    proof (cases "(stage s = DOWNLOAD_BOOTSTRAP_RX \<or> stage s = DOWNLOAD_FRAGMENT_RX) \<and>
        sz \<le> length (rx s) - rx_size s")
      case True
      then have t: "dl_ok ?t" "dl_ok (rx_cleared ?t)" using chunk_stored_ok [OF u, of sz "contents bytes"] by simp_all
      have p: "dl_progress (rx_cleared ?t) = dl_progress s" "dl_progress ?t = dl_progress s"
        by (simp_all add: dl_progress_def)
      have "good_step False a s (0, At a (acknowledged (rx_cleared ?t)))"
        using True t(2) p(1) by (intro acknowledged_good) (auto simp: rx_cleared_def dl_ok_def)
      then show ?thesis
        using c True ab [OF u, of a] ab [OF t(1), of a] ab [OF t(2), of a] good_stay [OF t(1) p(2)]
        by (simp add: b41_download_received_def Let_def split: prod.split)
    next
      case False
      then show ?thesis
        using c ab [OF u, of a] by (auto simp: b41_download_received_def Let_def)
    qed
  next
    assume c: "check mem (At a s) now = (0, At a s)" and d: "stage s = DOWNLOAD_ACKS_COMPLETE"
    then show ?thesis using complete_abort_good [OF ok d] by (simp add: b41_download_received_def)
  next
    assume r: "refuses a s (check mem (At a s) now)"
    obtain x p where "check mem (At a s) now = (x, p)" by fastforce
    then show ?thesis
      using refuses_good [OF r] refuses_negative [OF r] by (simp add: b41_download_received_def)
  qed
qed

lemma next_good:
  assumes ok: "dl_ok s"
  shows "good_step False a s (dl_pair (b41_download_next mem (At a s) now action))"
proof -
  let ?u = "s\<lparr> dl_last_now_ns := now \<rparr>"
  from check_cases [OF ok, of mem a now] show ?thesis
  proof (elim disjE conjE)
    assume c: "check mem (At a s) now = (0, At a ?u)" and l: "live s now"
    have u: "dl_ok ?u" using ok l by (simp add: live_not)
    have fails: "good_step False a s (fst (b41_download_abort (At a ?u) e), snd (b41_download_abort (At a ?u) e))" for e
      using live_abort_good [OF u l, of a e] by simp
    show ?thesis
      using c fails live_time_good [OF ok l, of a]
      by (auto simp: b41_download_next_def dl_pair_def Let_def case_prod_unfold split: b41_download_stage.split)
  next
    assume c: "check mem (At a s) now = (0, At a s)" and d: "stage s = DOWNLOAD_ACKS_COMPLETE"
    then show ?thesis
      using complete_abort_good [OF ok d, of a "- EINVAL"] good_stay [OF ok refl, of a 0]
      by (auto simp: b41_download_next_def dl_pair_def Let_def case_prod_unfold)
  next
    assume r: "refuses a s (check mem (At a s) now)"
    obtain x p where "check mem (At a s) now = (x, p)" by fastforce
    then show ?thesis
      using refuses_good [OF r] refuses_negative [OF r] by (simp add: b41_download_next_def dl_pair_def)
  qed
qed

lemma begin_good:
  assumes ok: "dl_ok s"
  shows "good_step False a s (b41_download_begin r (At a s) session query now deadline)"
proof (cases "stage s = DOWNLOAD_NEW")
  case False
  then show ?thesis
    using ok failed_error [OF ok] refuses_good [OF refused_same [OF ok]]
    by (auto simp: b41_download_begin_def)
next
  case True
  then have s: "s = zero_download" using ok by (simp add: dl_ok_def)
  obtain status frame sz where build:
    "b41_bootstrap_frame_build r session query local_frame 116 local_size = (status, frame, sz)"
    by (metis prod.exhaust)
  note ab = refuses_good [OF abort_refuses [OF ok, of a]]
  note same = refuses_good [OF refused_same [OF ok, of "- EINVAL" a]]
  show ?thesis
  proof (cases "status = 0")
    case False
    then show ?thesis
      using True build ab same by (simp add: b41_download_begin_def Let_def)
  next
    case ok0: True
    have "valid_query session query \<and> (\<exists>g. frame = At (- 1024) g \<and> length g = 116 \<and> sz = At (- 1040) 116)"
      using frame_build_ok [of r session query "- 1024" "zeroed 116" "- 1040" 0 frame sz] build ok0
      by (simp add: local_frame_def local_size_def)
    then obtain g where v: "valid_query session query" and g: "frame = At (- 1024) g" "length g = 116" "sz = At (- 1040) 116"
      by blast
    let ?n = "frag_num (contents (query_info (contents query)))"
    have n: "1 \<le> unat ?n" "unat ?n \<le> 257" using v by (simp_all add: valid_query_def Let_def)
    have "good_step False a s (0, At a (s\<lparr> dl_session := address session,
        dl_gps0_fd := session_gps0_fd (contents session), dl_selectors := session_selectors (contents session),
        fragment_count := ?n, fragment_sequence := 1, dl_deadline_ns := deadline, dl_last_now_ns := now,
        tx := blit (tx s) 0 g, tx_size := 116, stage := DOWNLOAD_BOOTSTRAP_TX \<rparr>))"
      using n g(2) unfolding s
      by (auto simp: dl_unfold zero_download_def word_less_nat_alt intro: dl_edge.intros)
    then show ?thesis
      using True build ok0 g ab same by (simp add: b41_download_begin_def Let_def)
  qed
qed

lemma perform_good:
  assumes "dl_ok s"
  shows "good_step (submission (mem, call) s \<noteq> []) owner_address s (dl_perform mem call s)"
proof (cases call)
  case (Submitted now result)
  then show ?thesis
    using submitted_good [OF assms, of mem owner_address now result]
    by (auto simp: submission_def dl_step_def split: prod.split)
qed (use assms begin_good next_good written_good received_good refuses_good [OF abort_refuses] in
      \<open>simp_all add: submission_def\<close>)

section \<open>Properties of runs\<close>

lemma dl_step_good:
  assumes "dl_ok s"
  shows "dl_ok (fst (dl_step op s))"
    and "dl_edge (submission op s \<noteq> []) (dl_progress s) (dl_progress (fst (dl_step op s)))"
  using perform_good [OF assms, of "fst op" "snd op"]
  by (auto simp: good_step_def dl_step_def split: prod.splits)

lemma failed_step:
  assumes "stage s = DOWNLOAD_FAILED"
  shows "dl_step op s = (s, dl_first_error s)"
proof -
  obtain mem call where op: "op = (mem, call)" by fastforce
  show ?thesis
    using assms unfolding op
    by (cases call)
      (simp_all add: dl_step_def b41_download_begin_def b41_download_next_def b41_download_written_def
        b41_download_submitted_def b41_download_received_def check_def abort_result dl_pair_def)
qed

interpretation dl_latch: reporting_owner dl_step "\<lambda>s. dl_ok s \<and> stage s = DOWNLOAD_FAILED" dl_first_error
  by unfold_locales (simp_all add: failed_step)

text \<open>The state together with the log of the fragments submitted so far.\<close>

definition dl_logged_step :: "sessions \<times> dl_call \<Rightarrow> b41_download \<times> u32 list \<Rightarrow> (b41_download \<times> u32 list) \<times> int" where
  "dl_logged_step op c = ((fst (dl_step op (fst c)), snd c @ submission op (fst c)), snd (dl_step op (fst c)))"

definition fragments :: "nat \<Rightarrow> u32 list" where
  "fragments k = map of_nat [0..<k]"

definition log_ok :: "b41_download \<times> u32 list \<Rightarrow> bool" where
  "log_ok c \<longleftrightarrow> (case c of (s, trail) \<Rightarrow> dl_ok s \<and>
     (\<exists>k. trail = fragments k \<and>
        (stage s = DOWNLOAD_FRAGMENT_RX \<longrightarrow> k = Suc (unat (matched_fragments s))) \<and>
        (stage s \<noteq> DOWNLOAD_FRAGMENT_RX \<and> stage s \<noteq> DOWNLOAD_FAILED \<longrightarrow> k = unat (matched_fragments s))))"

lemma submission_argument:
  assumes "dl_ok s" and "submission op s \<noteq> []"
  shows "submission op s = [matched_fragments s]" "stage s = DOWNLOAD_FRAGMENT_IOCTL"
proof -
  have "dl_edge True (dl_progress s) (dl_progress (fst (dl_step op s)))"
    using dl_step_good(2) [OF assms(1), of op] assms(2) by simp
  then show st: "stage s = DOWNLOAD_FRAGMENT_IOCTL"
    by (auto simp: dl_progress_def elim: submit_edgeE)
  then have "fragment_sequence s - 1 = matched_fragments s"
    using assms(1) by (simp add: dl_ok_def progress_ok_def)
  then show "submission op s = [matched_fragments s]"
    using assms(2) by (auto simp: submission_def split: dl_call.splits if_splits)
qed

lemma log_ok_step:
  assumes "log_ok c"
  shows "log_ok (fst (dl_logged_step op c))"
proof -
  obtain s trail k where c: "c = (s, trail)" "trail = fragments k" and ok: "dl_ok s"
    and k: "stage s = DOWNLOAD_FRAGMENT_RX \<longrightarrow> k = Suc (unat (matched_fragments s))"
      "stage s \<noteq> DOWNLOAD_FRAGMENT_RX \<and> stage s \<noteq> DOWNLOAD_FAILED \<longrightarrow> k = unat (matched_fragments s)"
    using assms by (auto simp: log_ok_def)
  let ?t = "fst (dl_step op s)"
  have t: "dl_ok ?t" "dl_edge (submission op s \<noteq> []) (dl_progress s) (dl_progress ?t)"
    using dl_step_good [OF ok] by blast+
  show ?thesis
  proof (cases "submission op s = []")
    case True
    then have "dl_edge False (dl_progress s) (dl_progress ?t)" using t(2) by simp
    then have "(stage ?t = DOWNLOAD_FRAGMENT_RX \<longrightarrow> k = Suc (unat (matched_fragments ?t))) \<and>
        (stage ?t \<noteq> DOWNLOAD_FRAGMENT_RX \<and> stage ?t \<noteq> DOWNLOAD_FAILED \<longrightarrow> k = unat (matched_fragments ?t))"
      using k by (cases rule: dl_edge.cases) (auto simp: dl_progress_def)
    then show ?thesis
      using True c t(1) by (auto simp: log_ok_def dl_logged_step_def)
  next
    case False
    note arg = submission_argument [OF ok False]
    have "dl_edge True (dl_progress s) (dl_progress ?t)" using t(2) False by simp
    then have "stage ?t = DOWNLOAD_FRAGMENT_RX" "unat (matched_fragments ?t) = unat (matched_fragments s)"
      by (auto simp: dl_progress_def elim: submit_edgeE)
    moreover have "fragments k @ submission op s = fragments (Suc k)"
      using arg k(2) by (simp add: fragments_def)
    ultimately show ?thesis
      using c t(1) arg(2) k(2) by (auto simp: log_ok_def dl_logged_step_def)
  qed
qed

interpretation dl_log: invariant_owner dl_logged_step log_ok
  by unfold_locales (rule log_ok_step)

text \<open>
  C1. Every call of the controller is an edge of the download protocol and keeps the
  invariant: from any reachable kind of state, whatever the caller passes and whatever the
  session object holds, the stage moves only along the protocol, the acknowledged count only
  by one and only on an acknowledgement, the buffers stay within their bounds, and a
  finished or failed owner holds no byte of the frames it handled.
\<close>

theorem download_call_is_edge:
  assumes "dl_ok s"
  shows "dl_ok (fst (dl_step op s)) \<and>
    dl_edge (submission op s \<noteq> []) (dl_progress s) (dl_progress (fst (dl_step op s)))"
  using dl_step_good [OF assms] by blast

theorem download_call_is_edge_witness:
  "dl_ok (fst (dl_step (\<lambda>_. example_session, Abort (- EIO)) zero_download))"
  using download_call_is_edge [OF dl_ok_zero] by blast


text \<open>
  C4. A failed owner stays failed: every later call, of any kind, returns the first error and
  changes nothing, and no frame byte is left in its buffers.
\<close>

theorem download_first_error_final:
  assumes "dl_ok s" and "stage s = DOWNLOAD_FAILED"
  shows "fst (run_ops dl_step ops s) = s \<and> set (snd (run_ops dl_step ops s)) \<subseteq> {dl_first_error s} \<and>
    dl_first_error s < 0 \<and> tx s = zeroed 116 \<and> rx s = zeroed 1024"
proof -
  have "fst (run_ops dl_step ops s) = s"
    using assms(2) by (induction ops) (simp_all add: failed_step)
  moreover have "set (snd (run_ops dl_step ops s)) \<subseteq> {dl_first_error s}"
    using dl_latch.reports_run assms by blast
  ultimately show ?thesis
    using assms by (simp add: dl_ok_def)
qed

theorem download_first_error_final_witness:
  "let s = failed_state zero_download (- EIO) in
   fst (run_ops dl_step [(\<lambda>_. example_session, Written 5 3), (\<lambda>_. example_session, Abort 7)] s) = s"
  using download_first_error_final [of "failed_state zero_download (- EIO)"
      "[(\<lambda>_. example_session, Written 5 3), (\<lambda>_. example_session, Abort 7)]"]
    failed_state_ok [OF dl_ok_zero, of "- EIO"]
  unfolding Let_def by simp

section \<open>Acknowledgements\<close>

lemma ack_frame_size_le16: "ack_frame_size r = unat (le16 (drop 2 r) AND 0xfff) + 6" if "4 \<le> length r"
proof -
  have m: "(0xfff :: u16) = mask 12" "(15 :: u8) = mask 4" by (simp_all add: mask_eq_exp_minus_1)
  have "(ucast (r ! 2) OR push_bit 8 (ucast (r ! 3 AND 15)) :: u64) = ucast (le16 (drop 2 r) AND 0xfff)"
    unfolding m le16_def using that
    by (intro bit_word_eqI) (auto simp: bit_simps dest: bit_u8_less)
  moreover have "unat (ucast (w :: u16) :: u64) = unat w" for w
    using unsigned_less [of w, where ?'a = nat] by (simp add: unsigned_ucast_eq take_bit_nat_eq_self)
  ultimately show ?thesis by (simp add: ack_frame_size_def)
qed

text \<open>The bytes received so far, with a new chunk.\<close>

definition received_bytes :: "b41_download \<Rightarrow> bytes \<Rightarrow> bytes" where
  "received_bytes s chunk = take (rx_size s) (rx s) @ chunk"

lemma chunk_stored_rx:
  assumes "rx_size s + length chunk \<le> length (rx s)"
  shows "take (rx_size s + length chunk) (rx (chunk_stored s chunk (length chunk))) = received_bytes s chunk"
    and "rx_size (chunk_stored s chunk (length chunk)) = length (received_bytes s chunk)"
    and "length (rx (chunk_stored s chunk (length chunk))) = length (rx s)"
  using assms by (auto simp: chunk_stored_def received_bytes_def blit_def)

definition expected_ack :: "b41_download \<Rightarrow> bytes \<Rightarrow> bool" where
  "expected_ack s w \<longleftrightarrow>
    (let kind = (if stage s = DOWNLOAD_BOOTSTRAP_RX then B41_MVCD_BOOTSTRAP_ACK else B41_MVCD_FRAGMENT_ACK);
         sequence = (if stage s = DOWNLOAD_BOOTSTRAP_RX then 0 else ucast (fragment_sequence s))
     in \<exists>len payload. w = mvcd_frame len (ucast kind) payload \<and> unat (len AND 0xfff) = length payload + 4 \<and>
          ack_minimum kind \<le> length payload \<and> length payload \<le> 1014 \<and> le16 payload = sequence)"

lemma expected_ack_shape:
  assumes "expected_ack s w"
  shows "10 \<le> length w" "length w \<le> 1024" "w ! 0 = 0xaa" "w ! Suc 0 = 0xf0" "w ! 5 = 0xfe"
    "ack_frame_size w = length w"
proof -
  obtain len c payload where w: "w = mvcd_frame len c payload" and n: "unat (len AND 0xfff) = length payload + 4"
    "length payload \<le> 1014"
    using assms by (auto simp: expected_ack_def Let_def)
  show "10 \<le> length w" "length w \<le> 1024" "w ! 0 = 0xaa" "w ! Suc 0 = 0xf0" "w ! 5 = 0xfe"
    using n by (simp_all add: w mvcd_frame_markers)
  then show "ack_frame_size w = length w"
    using ack_frame_size_le16 [of w] n by (simp add: w mvcd_frame_fields)
qed

lemma decode_expected:
  assumes "m \<le> length r" and "\<not> overlaps (At b r) m local_ack 8"
    and "kind = (if stage s = DOWNLOAD_BOOTSTRAP_RX then B41_MVCD_BOOTSTRAP_ACK else B41_MVCD_FRAGMENT_ACK)"
    and "sequence = (if stage s = DOWNLOAD_BOOTSTRAP_RX then 0 else ucast (fragment_sequence s))"
  shows "fst (b41_mvcd_decode_ack (At b r) m kind sequence local_ack) = 0 \<longleftrightarrow> expected_ack s (take m r)"
proof -
  obtain c old where ack: "local_ack = At c old" by (simp add: local_ack_def)
  have "fst (b41_mvcd_decode_ack (At b r) m kind sequence (At c old)) = 0 \<longleftrightarrow>
      (\<exists>d. b41_mvcd_decode_ack (At b r) m kind sequence (At c old) = (0, At c d))"
    by (auto simp: b41_mvcd_decode_ack_def Let_def)
  also have "\<dots> \<longleftrightarrow> (\<exists>d. b41_mvcd_decode_ack (At b (take m r)) (length (take m r)) kind sequence (At c old) = (0, At c d))"
    using decode_ack_take [OF assms(1)] assms(1) by simp
  also have "\<dots> \<longleftrightarrow> expected_ack s (take m r)"
  proof -
    have "\<not> overlaps (At b (take m r)) (length (take m r)) (At c old) 8"
      using assms(1,2) unfolding ack by (auto simp: overlaps_def Let_def min_def split: if_splits)
    then show ?thesis
      using assms(3,4) unfolding decode_ack_iff by (auto simp: expected_ack_def Let_def)
  qed
  finally show ?thesis unfolding ack .
qed

lemma received_live:
  fixes s mem a now chunk b
  defines "u \<equiv> s\<lparr> dl_last_now_ns := now \<rparr>"
  defines "t \<equiv> chunk_stored u chunk (length chunk)"
  assumes "dl_ok s" and rx: "stage s = DOWNLOAD_BOOTSTRAP_RX \<or> stage s = DOWNLOAD_FRAGMENT_RX"
    and c: "check mem (At a s) now = (0, At a u)"
    and fits: "chunk \<noteq> []" "rx_size s + length chunk \<le> 1024"
    and apart: "\<not> overlaps (At a s) sizeof_download (At b chunk) (length chunk)"
  shows "b41_download_received mem (At a s) now (At b chunk) (length chunk) =
    (if rx_size t < 6 then (0, At a t)
     else if rx t ! 0 \<noteq> 0xaa \<or> rx t ! 1 \<noteq> 0xf0 \<or> rx t ! 5 \<noteq> 0xfe then b41_download_abort (At a t) (- EPROTO)
     else if ack_frame_size (rx t) < 10 \<or> ack_frame_size (rx t) > 1024 \<or> rx_size t > ack_frame_size (rx t)
     then b41_download_abort (At a t) (- EPROTO)
     else if rx_size t < ack_frame_size (rx t) then (0, At a t)
     else let kind = (if stage s = DOWNLOAD_BOOTSTRAP_RX then B41_MVCD_BOOTSTRAP_ACK else B41_MVCD_FRAGMENT_ACK);
              sequence = (if stage s = DOWNLOAD_BOOTSTRAP_RX then 0 else ucast (fragment_sequence s));
              (status, ack) = b41_mvcd_decode_ack (At (a + 200) (rx t)) (ack_frame_size (rx t)) kind sequence local_ack
          in if status \<noteq> 0 then b41_download_abort (At a (rx_cleared t)) status
             else (0, At a (acknowledged (rx_cleared t))))"
proof -
  have len: "length (rx s) = 1024" using assms(3) by (simp add: dl_ok_def)
  then have "length (rx t) = 1024" using fits by (simp add: t_def u_def chunk_stored_def)
  moreover have "\<not> overlaps (At a u) sizeof_download (At b chunk) (length chunk)"
    using apart by (simp add: overlaps_def)
  moreover have "fragment_sequence t = fragment_sequence s" "stage t = stage s" by (simp_all add: t_def u_def)
  moreover have "stage u = stage s" "rx u = rx s" "rx_size u = rx_size s" "fragment_sequence u = fragment_sequence s"
    by (simp_all add: u_def)
  ultimately show ?thesis
    using rx c fits len unfolding b41_download_received_def
    by (simp add: Let_def t_def [symmetric] split del: if_split cong: if_cong) auto
qed

text \<open>
  C3. A waiting owner that receives another chunk accepts an acknowledgement exactly when all
  bytes received since the request form the frame it waits for: right markers and length, the
  command of the stage, the sequence number of the outstanding fragment and a correct
  checksum, with nothing in front and nothing behind. In every other case it keeps waiting or
  fails; it never advances.
\<close>

theorem download_advances_on_expected_ack:
  assumes "dl_ok s" and "stage s = DOWNLOAD_BOOTSTRAP_RX \<or> stage s = DOWNLOAD_FRAGMENT_RX"
    and "check mem (At a s) now = (0, At a (s\<lparr> dl_last_now_ns := now \<rparr>))"
    and "chunk \<noteq> []" and "rx_size s + length chunk \<le> 1024"
    and "\<not> overlaps (At a s) sizeof_download (At b chunk) (length chunk)"
    and "\<not> overlaps (At (a + 200) (rx s)) 1024 local_ack 8"
  shows "stage (contents (snd (b41_download_received mem (At a s) now (At b chunk) (length chunk))))
      \<in> {DOWNLOAD_FRAGMENT_IOCTL, DOWNLOAD_ACKS_COMPLETE} \<longleftrightarrow>
    expected_ack s (received_bytes s chunk)"
proof -
  define u where "u = s\<lparr> dl_last_now_ns := now \<rparr>"
  define t where "t = chunk_stored u chunk (length chunk)"
  define w where "w = received_bytes s chunk"
  let ?n = "ack_frame_size (rx t)"
  have len: "length (rx s) = 1024" "rx u = rx s" "rx_size u = rx_size s"
    using assms(1) by (simp_all add: dl_ok_def u_def)
  have w: "take (length w) (rx t) = w" "rx_size t = length w" "length (rx t) = 1024" "length w \<le> 1024"
    using chunk_stored_rx [of u chunk] assms(5) len unfolding t_def w_def
    by (simp_all add: received_bytes_def)
  have nth: "rx t ! i = w ! i" if "i < length w" for i
    using that w(1) by (metis nth_take)
  have st: "stage t = stage s" by (simp add: t_def u_def)
  have decode: "fst (b41_mvcd_decode_ack (At (a + 200) (rx t)) (length w)
      (if stage s = DOWNLOAD_BOOTSTRAP_RX then B41_MVCD_BOOTSTRAP_ACK else B41_MVCD_FRAGMENT_ACK)
      (if stage s = DOWNLOAD_BOOTSTRAP_RX then 0 else ucast (fragment_sequence s)) local_ack) = 0 \<longleftrightarrow> expected_ack s w"
  proof -
    have "\<not> overlaps (At (a + 200) (rx t)) (length w) local_ack 8"
      using assms(7) w(4) by (auto simp: overlaps_def Let_def split: if_splits)
    then show ?thesis using decode_expected [of "length w" "rx t" "a + 200" _ s] w by simp
  qed
  have advance: "stage (acknowledged (rx_cleared t)) \<in> {DOWNLOAD_FRAGMENT_IOCTL, DOWNLOAD_ACKS_COMPLETE}"
    by (simp add: acknowledged_def Let_def)
  have halt: "stage (contents (snd (b41_download_abort (At a v) e))) = DOWNLOAD_FAILED"
    if "stage v = stage s" for v e
    using that assms(2) by (auto simp: abort_result Let_def)
  have wait: "stage t \<notin> {DOWNLOAD_FRAGMENT_IOCTL, DOWNLOAD_ACKS_COMPLETE}" using assms(2) st by auto
  note run = received_live [OF assms(1-6), folded u_def, folded t_def]
  show ?thesis
    unfolding w_def [symmetric]
  proof
    assume exp: "expected_ack s w"
    note shape = expected_ack_shape [OF exp]
    have n: "?n = length w" using shape nth [of 2] nth [of 3] by (simp add: ack_frame_size_def)
    have "0 < length w" "1 < length w" "5 < length w" using shape(1) by linarith+
    then have marks: "rx t ! 0 = 0xaa" "rx t ! 1 = 0xf0" "rx t ! 5 = 0xfe"
      using shape(3-5) nth by simp_all
    show "stage (contents (snd (b41_download_received mem (At a s) now (At b chunk) (length chunk))))
        \<in> {DOWNLOAD_FRAGMENT_IOCTL, DOWNLOAD_ACKS_COMPLETE}"
      using shape(1,2) marks exp decode advance n w(2)
      unfolding run by (auto simp: Let_def split: prod.splits)
  next
    assume adv: "stage (contents (snd (b41_download_received mem (At a s) now (At b chunk) (length chunk))))
        \<in> {DOWNLOAD_FRAGMENT_IOCTL, DOWNLOAD_ACKS_COMPLETE}"
    show "expected_ack s w"
    proof (rule ccontr)
      assume "\<not> expected_ack s w"
      then show False
        using adv decode wait halt [of t] halt [of "rx_cleared t"] st w(2)
        unfolding run by (auto simp: Let_def split: if_splits prod.splits)
    qed
  qed
qed

definition example_waiting :: b41_download where
  "example_waiting = zero_download\<lparr> stage := DOWNLOAD_FRAGMENT_RX, dl_session := 0x1000, dl_gps0_fd := 3,
     dl_selectors := \<lparr> secure_download_7178b8_33e = 1, dsp_selector_717cb0 = 63 \<rparr>, fragment_count := 1,
     fragment_sequence := 1, dl_deadline_ns := 100, dl_last_now_ns := 5 \<rparr>"

theorem download_advances_on_expected_ack_witness:
  "stage (contents (snd (b41_download_received (\<lambda>_. example_session) (At 0x100000 example_waiting) 7
      (At 0x200000 (mvcd_frame 6 0x32 [1, 0])) 12)))
    \<in> {DOWNLOAD_FRAGMENT_IOCTL, DOWNLOAD_ACKS_COMPLETE}"
proof -
  let ?w = "mvcd_frame 6 0x32 [1, 0]"
  have ok: "dl_ok example_waiting"
    by (simp add: dl_ok_def example_waiting_def zero_download_def progress_ok_def)
  have fields: "stage example_waiting = DOWNLOAD_FRAGMENT_RX" "rx_size example_waiting = 0"
    "fragment_sequence example_waiting = 1"
    by (simp_all add: example_waiting_def zero_download_def)
  have c: "check (\<lambda>_. example_session) (At 0x100000 example_waiting) 7 =
      (0, At 0x100000 (example_waiting\<lparr> dl_last_now_ns := 7 \<rparr>))"
    by (simp add: check_def example_waiting_def example_session_def zero_download_def)
  have "expected_ack example_waiting (received_bytes example_waiting ?w)"
    unfolding expected_ack_def Let_def
    by (intro exI [of _ 6] exI [of _ "[1, 0]"]) (simp add: fields received_bytes_def ack_minimum_def le16_def)
  moreover have "length ?w = 12" "?w \<noteq> []" by (simp, simp add: mvcd_frame_def)
  ultimately show ?thesis
    using download_advances_on_expected_ack [OF ok _ c, of ?w "0x200000"] fields
    by (simp add: overlaps_def local_ack_def)
qed

end
