(* ===== verification/Native_Session.thy ===== *)
theory Native_Session
  imports Tetris_Prelude
begin

text \<open>
  The retained GNSS session of \<^verbatim>\<open>patches/gnss/native-session/session.c\<close>: attach to an open
  device, wait for the firmware to work, then stop it with one stop frame and one final
  command. The operating system is a parameter: a record of functions on a state of its own,
  which may answer anything. Accepted writes and the stop command are recorded in a trace. The
  owner is an object; the null pointer, which every operation refuses, is not represented.
\<close>

unbundle bit_operations_syntax

section \<open>The operating system interface\<close>

text \<open>A failing call carries an error number; it is positive, so it is stored less one.\<close>

datatype errno = Errno (errno_less_one: nat)

definition neg_errno :: "errno \<Rightarrow> int" where
  "neg_errno e = - (int (errno_less_one e) + 1)"

record stat =
  st_chr :: bool
  st_dev :: u64
  st_rdev :: u64
  st_ino :: u64

record gpsdl_v051_session_snapshot =
  abi_version :: u32
  snapshot_size :: u32
  link_id :: u32
  snapshot_session_id :: u32
  link_state :: u32
  dsp_state :: u32
  reserved :: "u32 \<times> u32"

definition zero_snapshot :: gpsdl_v051_session_snapshot where
  "zero_snapshot = \<lparr> abi_version = 0, snapshot_size = 0, link_id = 0, snapshot_session_id = 0,
     link_state = 0, dsp_state = 0, reserved = (0, 0) \<rparr>"

record 'w os =
  clock_gettime :: "'w \<Rightarrow> (errno + int \<times> int) \<times> 'w"
  fcntl_getfl :: "'w \<Rightarrow> (errno + u32) \<times> 'w"
  os_fstat :: "'w \<Rightarrow> (errno + stat) \<times> 'w"
  os_lstat :: "'w \<Rightarrow> (errno + stat) \<times> 'w"
  ioctl_snapshot :: "'w \<Rightarrow> (errno + nat \<times> gpsdl_v051_session_snapshot) \<times> 'w"
  os_write :: "bytes \<Rightarrow> 'w \<Rightarrow> (errno + nat) \<times> 'w"
  ioctl_stop :: "'w \<Rightarrow> (errno + nat) \<times> 'w"

text \<open>What the device sees: bytes of an accepted write, and the stop command with the sample before it.\<close>

datatype event = Wrote bytes | Stop_command gpsdl_v051_session_snapshot

section \<open>State\<close>

datatype b41_session_stage = SESSION_NEW | SESSION_WAIT_WORK | SESSION_WORKING | SESSION_STOP_TX
  | SESSION_WAIT_RESET | SESSION_WAIT_HWSTOP | SESSION_STOPPED | SESSION_FAILED

record b41_native_session =
  session_stage :: b41_session_stage
  session_fd :: int
  session_first_error :: int
  device :: u64
  rdevice :: u64
  inode :: u64
  session_id :: u32
  session_deadline_ns :: u64
  session_last_ns :: u64
  latest :: gpsdl_v051_session_snapshot
  stop_offset :: nat

definition zero_session :: b41_native_session where
  "zero_session = \<lparr> session_stage = SESSION_NEW, session_fd = 0, session_first_error = 0, device = 0,
     rdevice = 0, inode = 0, session_id = 0, session_deadline_ns = 0, session_last_ns = 0,
     latest = zero_snapshot, stop_offset = 0 \<rparr>"

abbreviation LINK_OPENED :: u32 where "LINK_OPENED \<equiv> 3"
abbreviation LINK_SUSPENDING :: u32 where "LINK_SUSPENDING \<equiv> 8"
abbreviation LINK_SUSPENDED :: u32 where "LINK_SUSPENDED \<equiv> 9"
abbreviation DSP_ON :: u32 where "DSP_ON \<equiv> 1"
abbreviation DSP_RESET_DONE :: u32 where "DSP_RESET_DONE \<equiv> 2"
abbreviation DSP_WORKING :: u32 where "DSP_WORKING \<equiv> 3"
abbreviation DSP_HW_STOP :: u32 where "DSP_HW_STOP \<equiv> 5"

definition stop_frame :: bytes where
  "stop_frame = [0xaa, 0xf0, 0x06, 0x00, 0x05, 0xfe, 0x04, 0x00, 0x0d, 0x01, 0xaa, 0x0f]"

section \<open>Helpers\<close>

definition now_ns :: "'w os \<Rightarrow> 'w \<Rightarrow> (int + u64) \<times> 'w" where
  "now_ns os w =
    (case clock_gettime os w of
       (Inl e, w) \<Rightarrow> (Inl (neg_errno e), w)
     | (Inr (sec, nsec), w) \<Rightarrow>
         if sec < 0 \<or> nsec < 0 \<or> nsec \<ge> 1000000000 \<or> sec > (2 ^ 64 - 1 - nsec) div 1000000000
         then (Inl (- EOVERFLOW), w)
         else (Inr (of_int (sec * 1000000000 + nsec)), w))"

definition b41_session_snapshot ::
  "'w os \<Rightarrow> int \<Rightarrow> gpsdl_v051_session_snapshot ptr \<Rightarrow> 'w \<Rightarrow> int \<times> gpsdl_v051_session_snapshot ptr \<times> 'w" where
  "b41_session_snapshot os fd out w =
    (if fd < 0 \<or> out = Null then (- EINVAL, out, w)
     else case os_fstat os w of
       (Inl e, w) \<Rightarrow> (neg_errno e, out, w)
     | (Inr actual, w) \<Rightarrow> (case os_lstat os w of
         (Inl e, w) \<Rightarrow> (neg_errno e, out, w)
       | (Inr node, w) \<Rightarrow>
           if \<not> st_chr actual \<or> \<not> st_chr node \<or> st_dev actual \<noteq> st_dev node \<or>
              st_rdev actual \<noteq> st_rdev node \<or> st_ino actual \<noteq> st_ino node
           then (- ENODEV, out, w)
           else case ioctl_snapshot os w of
             (Inl e, w) \<Rightarrow> (neg_errno e, out, w)
           | (Inr (status, result), w) \<Rightarrow>
               if status \<noteq> 0 \<or> abi_version result \<noteq> 1 \<or> snapshot_size result \<noteq> 32 \<or> link_id result > 1 \<or>
                  snapshot_session_id result = 0 \<or> snapshot_session_id result > 0x7ffffffe \<or>
                  link_state result \<ge> 11 \<or> dsp_state result \<ge> 7 \<or>
                  fst (reserved result) \<noteq> 0 \<or> snd (reserved result) \<noteq> 0
               then (- EPROTO, out, w)
               else (0, store out result, w)))"

definition failed :: "b41_native_session \<Rightarrow> int \<Rightarrow> int \<times> b41_native_session" where
  "failed owner status =
    (let owner = (if session_stage owner \<noteq> SESSION_FAILED
                  then owner\<lparr> session_first_error := (if status < 0 then status else - EPROTO),
                              session_stage := SESSION_FAILED \<rparr>
                  else owner)
     in (session_first_error owner, owner))"

definition time_check :: "'w os \<Rightarrow> b41_native_session \<Rightarrow> 'w \<Rightarrow> (int \<times> b41_native_session) \<times> 'w" where
  "time_check os owner w =
    (case now_ns os w of
       (Inl status, w) \<Rightarrow> (failed owner status, w)
     | (Inr now, w) \<Rightarrow>
         if now < session_last_ns owner then (failed owner (- ESTALE), w)
         else let owner = owner\<lparr> session_last_ns := now \<rparr> in
           if now \<ge> session_deadline_ns owner then (failed owner (- ETIMEDOUT), w)
           else ((0, owner), w))"

definition same_fd :: "'w os \<Rightarrow> b41_native_session \<Rightarrow> 'w \<Rightarrow> (int \<times> b41_native_session) \<times> 'w" where
  "same_fd os owner w =
    (case fcntl_getfl os w of
       (Inl e, w) \<Rightarrow> (failed owner (neg_errno e), w)
     | (Inr flags, w) \<Rightarrow>
         if flags AND 3 \<noteq> 2 \<or> flags AND 0x800 = 0 then (failed owner (- EINVAL), w)
         else case os_fstat os w of
           (Inl e, w) \<Rightarrow> (failed owner (neg_errno e), w)
         | (Inr st, w) \<Rightarrow>
             if \<not> st_chr st \<or> st_dev st \<noteq> device owner \<or> st_rdev st \<noteq> rdevice owner \<or> st_ino st \<noteq> inode owner
             then (failed owner (- ESTALE), w) else ((0, owner), w))"

definition sample :: "'w os \<Rightarrow> b41_native_session \<Rightarrow> 'w \<Rightarrow> (int \<times> b41_native_session) \<times> 'w" where
  "sample os owner w =
    (case time_check os owner w of ((status, owner), w) \<Rightarrow>
     if status \<noteq> 0 then ((status, owner), w)
     else case same_fd os owner w of ((status, owner), w) \<Rightarrow>
     if status \<noteq> 0 then ((status, owner), w)
     else case b41_session_snapshot os (session_fd owner) (At 0 zero_snapshot) w of (status, result, w) \<Rightarrow>
     if status \<noteq> 0 \<and> status \<noteq> - EAGAIN then (failed owner status, w)
     else case time_check os owner w of ((status2, owner), w) \<Rightarrow>
     if status2 \<noteq> 0 then ((session_first_error owner, owner), w)
     else if status \<noteq> 0 then ((1, owner), w)
     else if link_id (contents result) \<noteq> 0 \<or> snapshot_session_id (contents result) \<noteq> session_id owner
     then (failed owner (- ESTALE), w)
     else ((0, owner\<lparr> latest := contents result \<rparr>), w))"

section \<open>Operations\<close>

type_synonym 'w device_world = "'w \<times> event list"

definition b41_session_attach ::
  "'w os \<Rightarrow> b41_native_session \<Rightarrow> int \<Rightarrow> u64 \<Rightarrow> 'w \<Rightarrow> (int \<times> b41_native_session) \<times> 'w" where
  "b41_session_attach os owner fd deadline w =
    (if fd < 0 then ((- EINVAL, owner), w)
     else if session_stage owner \<noteq> SESSION_NEW
     then ((if session_stage owner = SESSION_FAILED then session_first_error owner else - EALREADY, owner), w)
     else case now_ns os w of
       (Inl status, w) \<Rightarrow> (failed owner status, w)
     | (Inr now, w) \<Rightarrow>
       if now \<ge> deadline then (failed owner (- ETIMEDOUT), w)
       else case fcntl_getfl os w of
         (Inl e, w) \<Rightarrow> (failed owner (neg_errno e), w)
       | (Inr flags, w) \<Rightarrow>
         if flags AND 3 \<noteq> 2 \<or> flags AND 0x800 = 0 then (failed owner (- EINVAL), w)
         else case os_fstat os w of
           (Inl e, w) \<Rightarrow> (failed owner (neg_errno e), w)
         | (Inr st, w) \<Rightarrow>
           if \<not> st_chr st then (failed owner (- ENODEV), w)
           else case b41_session_snapshot os fd (At 0 zero_snapshot) w of (status, snap, w) \<Rightarrow>
             if status \<noteq> 0 then (failed owner status, w)
             else let l = contents snap in
               if link_id l \<noteq> 0 \<or> link_state l \<noteq> LINK_OPENED \<or>
                  (dsp_state l \<noteq> DSP_ON \<and> dsp_state l \<noteq> DSP_RESET_DONE \<and> dsp_state l \<noteq> DSP_WORKING)
               then (failed owner (- EHOSTDOWN), w)
               else let result = zero_session\<lparr> session_fd := fd, session_deadline_ns := deadline,
                      session_last_ns := now, device := st_dev st, rdevice := st_rdev st, inode := st_ino st,
                      latest := l, session_id := snapshot_session_id l, session_stage := SESSION_WAIT_WORK \<rparr> in
                 case time_check os result w of ((status, result), w) \<Rightarrow>
                   if status \<noteq> 0 then (failed owner (session_first_error result), w)
                   else ((0, result), w))"

definition b41_session_wait_step :: "'w os \<Rightarrow> b41_native_session \<Rightarrow> 'w \<Rightarrow> (int \<times> b41_native_session) \<times> 'w" where
  "b41_session_wait_step os owner w =
    (if session_stage owner = SESSION_FAILED then ((session_first_error owner, owner), w)
     else if session_stage owner = SESSION_WORKING then ((0, owner), w)
     else if session_stage owner \<noteq> SESSION_WAIT_WORK then ((- EINVAL, owner), w)
     else case sample os owner w of ((status, owner), w) \<Rightarrow>
       if status \<noteq> 0 then ((if status < 0 then status else 0, owner), w)
       else if link_state (latest owner) \<noteq> LINK_OPENED then (failed owner (- EHOSTDOWN), w)
       else if dsp_state (latest owner) = DSP_WORKING
       then ((0, owner\<lparr> session_stage := SESSION_WORKING \<rparr>), w)
       else if dsp_state (latest owner) \<noteq> DSP_ON \<and> dsp_state (latest owner) \<noteq> DSP_RESET_DONE
       then (failed owner (- EHOSTDOWN), w)
       else ((0, owner), w))"

definition b41_session_stop_begin :: "'w os \<Rightarrow> b41_native_session \<Rightarrow> 'w \<Rightarrow> (int \<times> b41_native_session) \<times> 'w" where
  "b41_session_stop_begin os owner w =
    (if session_stage owner = SESSION_FAILED then ((session_first_error owner, owner), w)
     else if session_stage owner \<noteq> SESSION_WORKING then ((- EALREADY, owner), w)
     else case sample os owner w of ((status, owner), w) \<Rightarrow>
       if status \<noteq> 0 then ((if status < 0 then status else - EAGAIN, owner), w)
       else if link_state (latest owner) \<noteq> LINK_OPENED \<or> dsp_state (latest owner) \<noteq> DSP_WORKING
       then (failed owner (- EHOSTDOWN), w)
       else ((0, owner\<lparr> stop_offset := 0, session_stage := SESSION_STOP_TX \<rparr>), w))"

text \<open>The three branches of \<^verbatim>\<open>b41_session_stop_step\<close> behind the sample.\<close>

definition stop_transmit ::
  "'w os \<Rightarrow> b41_native_session \<Rightarrow> 'w device_world \<Rightarrow> (int \<times> b41_native_session) \<times> 'w device_world" where
  "stop_transmit os owner d =
    (case d of (w, trace) \<Rightarrow>
     if link_state (latest owner) \<noteq> LINK_OPENED \<or> dsp_state (latest owner) \<noteq> DSP_WORKING
     then (failed owner (- EHOSTDOWN), (w, trace))
     else if stop_offset owner \<ge> length stop_frame then (failed owner (- EPROTO), (w, trace))
     else let rest = drop (stop_offset owner) stop_frame in
       case os_write os rest w of
         (Inl e, w) \<Rightarrow>
           if neg_errno e \<noteq> - EAGAIN then (failed owner (neg_errno e), (w, trace))
           else (case time_check os owner w of ((status, owner), w) \<Rightarrow>
             ((if status \<noteq> 0 then session_first_error owner else 0, owner), (w, trace)))
       | (Inr count, w) \<Rightarrow>
           let trace = trace @ [Wrote (take count rest)] in
           case time_check os owner w of ((status, owner), w) \<Rightarrow>
             if status \<noteq> 0 then ((session_first_error owner, owner), (w, trace))
             else if count = 0 \<or> count > length rest then (failed owner (- EIO), (w, trace))
             else let owner = owner\<lparr> stop_offset := stop_offset owner + count \<rparr> in
               ((0, if stop_offset owner = length stop_frame
                    then owner\<lparr> session_stage := SESSION_WAIT_RESET \<rparr> else owner), (w, trace)))"

definition stop_command ::
  "'w os \<Rightarrow> b41_native_session \<Rightarrow> 'w device_world \<Rightarrow> (int \<times> b41_native_session) \<times> 'w device_world" where
  "stop_command os owner d =
    (case d of (w, trace) \<Rightarrow>
     if link_state (latest owner) \<noteq> LINK_OPENED then (failed owner (- EHOSTDOWN), (w, trace))
     else if dsp_state (latest owner) = DSP_WORKING then ((0, owner), (w, trace))
     else if dsp_state (latest owner) \<noteq> DSP_RESET_DONE then (failed owner (- EHOSTDOWN), (w, trace))
     else let owner = owner\<lparr> session_stage := SESSION_WAIT_HWSTOP \<rparr>;
              trace = trace @ [Stop_command (latest owner)] in
       case ioctl_stop os w of (result, w) \<Rightarrow>
         let ioctl_error = (case result of Inl e \<Rightarrow> neg_errno e | Inr status \<Rightarrow> if status \<noteq> 0 then - EPROTO else 0) in
         if ioctl_error \<noteq> 0 then (failed owner ioctl_error, (w, trace))
         else case time_check os owner w of (r, w) \<Rightarrow> (r, (w, trace)))"

definition stop_confirm :: "b41_native_session \<Rightarrow> int \<times> b41_native_session" where
  "stop_confirm owner =
    (let l = latest owner in
     if link_state l = LINK_SUSPENDED \<and> dsp_state l = DSP_HW_STOP
     then (0, owner\<lparr> session_stage := SESSION_STOPPED \<rparr>)
     else if (link_state l \<noteq> LINK_SUSPENDING \<and> link_state l \<noteq> LINK_SUSPENDED) \<or>
             (dsp_state l \<noteq> DSP_RESET_DONE \<and> dsp_state l \<noteq> DSP_HW_STOP)
     then failed owner (- EHOSTDOWN) else (0, owner))"

definition b41_session_stop_step ::
  "'w os \<Rightarrow> b41_native_session \<Rightarrow> 'w device_world \<Rightarrow> (int \<times> b41_native_session) \<times> 'w device_world" where
  "b41_session_stop_step os owner d =
    (if session_stage owner = SESSION_FAILED then ((session_first_error owner, owner), d)
     else if session_stage owner = SESSION_STOPPED then ((0, owner), d)
     else if session_stage owner \<noteq> SESSION_STOP_TX \<and> session_stage owner \<noteq> SESSION_WAIT_RESET \<and>
             session_stage owner \<noteq> SESSION_WAIT_HWSTOP
     then ((- EINVAL, owner), d)
     else case sample os owner (fst d) of ((status, owner), w) \<Rightarrow>
       let d = (w, snd d) in
       if status \<noteq> 0 then ((if status < 0 then status else 0, owner), d)
       else if session_stage owner = SESSION_STOP_TX then stop_transmit os owner d
       else if session_stage owner = SESSION_WAIT_RESET then stop_command os owner d
       else (stop_confirm owner, d))"

section \<open>Runs\<close>

datatype session_call = Attach int u64 | Wait_step | Stop_begin | Stop_step

type_synonym 'w session_state = "b41_native_session \<times> 'w device_world"

definition session_step :: "'w os \<Rightarrow> session_call \<Rightarrow> 'w session_state \<Rightarrow> 'w session_state \<times> int" where
  "session_step os call c =
    (case c of (owner, (w, trace)) \<Rightarrow>
     case call of
       Attach fd deadline \<Rightarrow>
         (case b41_session_attach os owner fd deadline w of ((r, owner), w) \<Rightarrow> ((owner, (w, trace)), r))
     | Wait_step \<Rightarrow> (case b41_session_wait_step os owner w of ((r, owner), w) \<Rightarrow> ((owner, (w, trace)), r))
     | Stop_begin \<Rightarrow> (case b41_session_stop_begin os owner w of ((r, owner), w) \<Rightarrow> ((owner, (w, trace)), r))
     | Stop_step \<Rightarrow> (case b41_session_stop_step os owner (w, trace) of ((r, owner), d) \<Rightarrow> ((owner, d), r)))"

section \<open>What the device may see\<close>

fun wrote :: "event \<Rightarrow> bytes" where
  "wrote (Wrote b) = b"
| "wrote (Stop_command _) = []"

definition writes_of :: "event list \<Rightarrow> bytes" where
  "writes_of trace = concat (map wrote trace)"

definition only_writes :: "event list \<Rightarrow> bool" where
  "only_writes trace = list_all (\<lambda>e. case e of Wrote _ \<Rightarrow> True | Stop_command _ \<Rightarrow> False) trace"

text \<open>The whole stop frame in pieces, then one stop command, sampled in reset with an open link.\<close>

definition commanded :: "event list \<Rightarrow> bool" where
  "commanded trace \<longleftrightarrow> (\<exists>t l. trace = t @ [Stop_command l] \<and> only_writes t \<and> writes_of t = stop_frame \<and>
     link_state l = LINK_OPENED \<and> dsp_state l = DSP_RESET_DONE)"

definition sending :: "nat \<Rightarrow> event list \<Rightarrow> bool" where
  "sending k trace \<longleftrightarrow> only_writes trace \<and> writes_of trace = take k stop_frame"

definition orderly :: "event list \<Rightarrow> bool" where
  "orderly trace \<longleftrightarrow> (\<exists>k. sending k trace) \<or> commanded trace"

definition session_ok :: "'w session_state \<Rightarrow> bool" where
  "session_ok c \<longleftrightarrow> (case c of (s, (w, trace)) \<Rightarrow>
    case session_stage s of
      SESSION_STOP_TX \<Rightarrow> sending (stop_offset s) trace \<and> stop_offset s < 12
    | SESSION_WAIT_RESET \<Rightarrow> sending 12 trace
    | SESSION_WAIT_HWSTOP \<Rightarrow> commanded trace
    | SESSION_STOPPED \<Rightarrow> commanded trace \<and> link_state (latest s) = LINK_SUSPENDED \<and> dsp_state (latest s) = DSP_HW_STOP
    | SESSION_FAILED \<Rightarrow> orderly trace \<and> session_first_error s < 0
    | _ \<Rightarrow> trace = [])"

lemma length_stop_frame [simp]: "length stop_frame = 12"
  by (simp add: stop_frame_def)

lemma sending_Nil: "sending 0 []"
  by (simp add: sending_def only_writes_def writes_of_def)

lemma sending_step:
  assumes "sending k trace" and "k < 12"
  shows "sending (k + n) (trace @ [Wrote (take n (drop k stop_frame))])"
  using assms by (simp add: sending_def only_writes_def writes_of_def take_add)

lemma commanded_step:
  assumes "sending 12 trace" and "link_state l = LINK_OPENED" and "dsp_state l = DSP_RESET_DONE"
  shows "commanded (trace @ [Stop_command l])"
  using assms by (auto simp: sending_def commanded_def)

lemma orderly_intros: "sending k trace \<Longrightarrow> orderly trace" "commanded trace \<Longrightarrow> orderly trace"
  by (auto simp: orderly_def)

lemma session_ok_orderly: "session_ok (s, (w, trace)) \<Longrightarrow> orderly trace"
  using sending_Nil by (cases "session_stage s") (auto simp: session_ok_def intro: orderly_intros)

section \<open>Helpers keep the stage or fail\<close>

text \<open>A helper returns a negative status and fails the owner, or keeps stage and progress.\<close>

definition keeps :: "b41_native_session \<Rightarrow> int \<times> b41_native_session \<Rightarrow> bool" where
  "keeps s result \<longleftrightarrow>
    (fst result < 0 \<and> session_stage (snd result) = SESSION_FAILED \<and> session_first_error (snd result) = fst result \<or>
     0 \<le> fst result \<and> session_stage (snd result) = session_stage s \<and> stop_offset (snd result) = stop_offset s)"

lemma failed_result:
  "session_stage s \<noteq> SESSION_FAILED \<Longrightarrow>
   failed s e = (if e < 0 then e else - EPROTO,
     s\<lparr> session_first_error := (if e < 0 then e else - EPROTO), session_stage := SESSION_FAILED \<rparr>)"
  by (simp add: failed_def Let_def)

lemma failed_keeps: "session_stage s \<noteq> SESSION_FAILED \<Longrightarrow> keeps s (failed s e)"
  by (simp add: failed_result keeps_def)

lemma failed_keeps_from:
  "session_stage t \<noteq> SESSION_FAILED \<Longrightarrow> keeps s (failed t e)"
  by (simp add: failed_result keeps_def)

lemma time_check_keeps: "session_stage s \<noteq> SESSION_FAILED \<Longrightarrow> keeps s (fst (time_check os s w))"
  by (auto simp: time_check_def failed_keeps failed_keeps_from Let_def split: prod.split sum.split)
    (simp add: keeps_def)

lemma same_fd_keeps: "session_stage s \<noteq> SESSION_FAILED \<Longrightarrow> keeps s (fst (same_fd os s w))"
  by (auto simp: same_fd_def failed_keeps split: prod.split sum.split) (simp add: keeps_def)

lemma time_check_status: "session_stage s \<noteq> SESSION_FAILED \<Longrightarrow> fst (fst (time_check os s w)) \<le> 0"
  by (auto simp: time_check_def failed_result Let_def split: prod.split sum.split)

lemma same_fd_status: "session_stage s \<noteq> SESSION_FAILED \<Longrightarrow> fst (fst (same_fd os s w)) \<le> 0"
  by (auto simp: same_fd_def failed_result split: prod.split sum.split)

text \<open>With status zero a time check or descriptor check leaves everything else alone.\<close>

lemma keeps_zero: "keeps s (r, t) \<Longrightarrow> 0 \<le> r \<Longrightarrow> session_stage t = session_stage s \<and> stop_offset t = stop_offset s"
  by (simp add: keeps_def)

lemma keeps_trans:
  "keeps s (r, t) \<Longrightarrow> 0 \<le> r \<Longrightarrow> keeps t result \<Longrightarrow> keeps s result"
  by (auto simp: keeps_def)

lemma sample_keeps:
  assumes "session_stage s \<noteq> SESSION_FAILED"
  shows "keeps s (fst (sample os s w))"
proof -
  obtain r1 s1 w1 where 1: "time_check os s w = ((r1, s1), w1)" by (metis prod.exhaust)
  have k1: "keeps s (r1, s1)" "r1 \<le> 0"
    using time_check_keeps [OF assms, of os w] time_check_status [OF assms, of os w] 1 by simp_all
  show ?thesis
  proof (cases "r1 = 0")
    case True
    then have st1: "session_stage s1 \<noteq> SESSION_FAILED" using k1 assms by (simp add: keeps_def)
    obtain r2 s2 w2 where 2: "same_fd os s1 w1 = ((r2, s2), w2)" by (metis prod.exhaust)
    have k2: "keeps s (r2, s2)" "r2 \<le> 0"
      using same_fd_keeps [OF st1, of os w1] same_fd_status [OF st1, of os w1] 2 keeps_trans [OF k1(1)] True by simp_all
    show ?thesis
    proof (cases "r2 = 0")
      case r2: True
      then have st2: "session_stage s2 \<noteq> SESSION_FAILED" using k2 assms by (simp add: keeps_def)
      obtain r3 snap w3 where 3: "b41_session_snapshot os (session_fd s2) (At 0 zero_snapshot) w2 = (r3, snap, w3)"
        by (metis prod.exhaust)
      obtain r4 s4 w4 where 4: "time_check os s2 w3 = ((r4, s4), w4)" by (metis prod.exhaust)
      have k4: "keeps s (r4, s4)" "r4 \<le> 0"
        using time_check_keeps [OF st2, of os w3] time_check_status [OF st2, of os w3] 4 keeps_trans [OF k2(1)] r2
        by simp_all
      have st4: "session_stage s4 \<noteq> SESSION_FAILED" if "r4 = 0" using that k4 assms by (simp add: keeps_def)
      have tail: "sample os s w =
        (if r3 \<noteq> 0 \<and> r3 \<noteq> - EAGAIN then (failed s2 r3, w3)
         else if r4 \<noteq> 0 then ((session_first_error s4, s4), w4)
         else if r3 \<noteq> 0 then ((1, s4), w4)
         else if link_id (contents snap) \<noteq> 0 \<or> snapshot_session_id (contents snap) \<noteq> session_id s4
         then (failed s4 (- ESTALE), w4) else ((0, s4\<lparr> latest := contents snap \<rparr>), w4))"
        using True r2 by (simp add: sample_def 1 2 3 4)
      show ?thesis
        unfolding tail using k4 st4 failed_keeps_from [OF st2, of s r3] failed_keeps_from [of s4 s "- ESTALE"]
        by (auto simp: keeps_def)
    next
      case False
      then show ?thesis using True 1 2 k2 by (simp add: sample_def)
    qed
  next
    case False
    then show ?thesis using 1 k1 by (simp add: sample_def)
  qed
qed

lemma sample_cases:
  assumes "session_stage s \<noteq> SESSION_FAILED"
  obtains r t v where "sample os s w = ((r, t), v)" "r < 0" "session_stage t = SESSION_FAILED" "session_first_error t = r"
    | r t v where "sample os s w = ((r, t), v)" "0 < r" "session_stage t = session_stage s" "stop_offset t = stop_offset s"
    | t v where "sample os s w = ((0, t), v)" "session_stage t = session_stage s" "stop_offset t = stop_offset s"
proof -
  obtain r t v where run: "sample os s w = ((r, t), v)" by (metis prod.exhaust)
  then show ?thesis
    using sample_keeps [OF assms, of os w] that by (cases "r < 0"; cases "r = 0") (auto simp: keeps_def)
qed

text \<open>A failed owner with an orderly trace is a good state.\<close>

lemma failed_ok: "orderly trace \<Longrightarrow> e < 0 \<Longrightarrow> session_stage t = SESSION_FAILED \<Longrightarrow> session_first_error t = e \<Longrightarrow>
    session_ok (t, (w, trace))"
  by (simp add: session_ok_def)

lemma failing_ok: "orderly trace \<Longrightarrow> session_stage t \<noteq> SESSION_FAILED \<Longrightarrow> session_ok (snd (failed t e), (w, trace))"
  by (simp add: session_ok_def failed_result)

lemma time_check_ok:
  assumes "session_stage t \<noteq> SESSION_FAILED" and "orderly trace" and "session_ok (t, (w, trace))"
    and "session_stage t \<noteq> SESSION_STOPPED"
  shows "session_ok (snd (fst (time_check os t w)), (v, trace))"
proof -
  obtain r t' v' where run: "time_check os t w = ((r, t'), v')" by (metis prod.exhaust)
  then show ?thesis
    using time_check_keeps [OF assms(1), of os w] assms
    by (cases "session_stage t") (auto simp: keeps_def session_ok_def)
qed

lemma orderly_Nil: "orderly []"
  using sending_Nil by (rule orderly_intros)

lemma attach_ok:
  assumes "session_ok (s, (w, trace))"
  shows "session_ok (snd (fst (b41_session_attach os s fd deadline w)), (v, trace))"
proof (cases "session_stage s = SESSION_NEW \<and> 0 \<le> fd")
  case True
  then have tr: "trace = []" and st: "session_stage s \<noteq> SESSION_FAILED" using assms by (simp_all add: session_ok_def)
  have tc: "session_ok (t', (v, []))" if "time_check os t u = ((r, t'), u')" "session_stage t = SESSION_WAIT_WORK" for t u r t' u'
    using time_check_ok [of t "[]" u os v] that orderly_Nil by (simp add: session_ok_def)
  note bad = failing_ok [OF orderly_Nil st, of _ v]
  show ?thesis
    using True unfolding tr b41_session_attach_def
    by (simp add: bad Let_def split: prod.split sum.split) 
      (intro allI impI, elim exE, erule tc, simp)
next
  case False
  moreover have "session_ok (s, (v, trace))" using assms by (simp add: session_ok_def)
  ultimately show ?thesis by (auto simp: b41_session_attach_def)
qed

lemma wait_step_ok:
  assumes "session_ok (s, (w, trace))"
  shows "session_ok (snd (fst (b41_session_wait_step os s w)), (v, trace))"
proof (cases "session_stage s = SESSION_WAIT_WORK")
  case True
  then have tr: "trace = []" and st: "session_stage s \<noteq> SESSION_FAILED" using assms by (simp_all add: session_ok_def)
  have good: "session_ok (t, (v, []))" if "session_stage t = SESSION_WAIT_WORK \<or> session_stage t = SESSION_WORKING" for t
    using that by (auto simp: session_ok_def)
  note bad = failed_ok [OF orderly_Nil]
  show ?thesis
    using st
  proof (cases rule: sample_cases [of s os w])
    case (1 r t u)
    then show ?thesis using True bad unfolding tr by (simp add: b41_session_wait_step_def)
  next
    case (2 r t u)
    then show ?thesis using True good unfolding tr by (simp add: b41_session_wait_step_def)
  next
    case (3 t u)
    then show ?thesis
      using True good failing_ok [OF orderly_Nil, of t _ v] unfolding tr by (simp add: b41_session_wait_step_def)
  qed
next
  case False
  moreover have "session_ok (s, (v, trace))" using assms by (simp add: session_ok_def)
  ultimately show ?thesis by (auto simp: b41_session_wait_step_def)
qed

lemma stop_begin_ok:
  assumes "session_ok (s, (w, trace))"
  shows "session_ok (snd (fst (b41_session_stop_begin os s w)), (v, trace))"
proof (cases "session_stage s = SESSION_WORKING")
  case True
  then have tr: "trace = []" and st: "session_stage s \<noteq> SESSION_FAILED" using assms by (simp_all add: session_ok_def)
  have good: "session_ok (t, (v, []))" if "session_stage t = SESSION_WORKING \<or> session_stage t = SESSION_STOP_TX \<and> stop_offset t = 0" for t
    using that sending_Nil by (auto simp: session_ok_def)
  note bad = failed_ok [OF orderly_Nil]
  show ?thesis
    using st
  proof (cases rule: sample_cases [of s os w])
    case (1 r t u)
    then show ?thesis using True bad unfolding tr by (simp add: b41_session_stop_begin_def)
  next
    case (2 r t u)
    then show ?thesis using True good unfolding tr by (simp add: b41_session_stop_begin_def)
  next
    case (3 t u)
    then show ?thesis
      using True good failing_ok [OF orderly_Nil, of t _ v] unfolding tr by (simp add: b41_session_stop_begin_def)
  qed
next
  case False
  moreover have "session_ok (s, (v, trace))" using assms by (simp add: session_ok_def)
  ultimately show ?thesis by (auto simp: b41_session_stop_begin_def)
qed

lemma time_check_ok':
  assumes "time_check os t w = ((r, t'), w')" and "session_stage t \<noteq> SESSION_FAILED"
    and "session_stage t \<noteq> SESSION_STOPPED" and "orderly trace" and "session_ok (t, (w, trace))"
  shows "session_ok (t', (v, trace))"
  using time_check_ok [OF assms(2,4,5,3), of os v] assms(1) by simp

lemma stop_transmit_ok:
  assumes ok: "session_ok (s, (w, trace))" and st: "session_stage s = SESSION_STOP_TX"
  shows "case stop_transmit os s (w, trace) of ((r, t), d) \<Rightarrow> session_ok (t, d)"
proof -
  have live: "session_stage s \<noteq> SESSION_FAILED" "session_stage s \<noteq> SESSION_STOPPED" using st by simp_all
  have snd: "sending (stop_offset s) trace" "stop_offset s < 12" using ok st by (simp_all add: session_ok_def)
  let ?rest = "drop (stop_offset s) stop_frame"
  have more: "sending (stop_offset s + n) (trace @ [Wrote (take n ?rest)])" for n
    using sending_step [OF snd] .
  note ord = orderly_intros(1) [OF snd(1)] orderly_intros(1) [OF more]
  obtain res w1 where w: "os_write os ?rest w = (res, w1)" by fastforce
  obtain r2 t2 w2 where tc: "time_check os s w1 = ((r2, t2), w2)" by (metis prod.exhaust)
  have k: "keeps s (r2, t2)" "r2 \<le> 0"
    using time_check_keeps [OF live(1), of os w1] time_check_status [OF live(1), of os w1] tc by simp_all
  have bad: "session_ok (snd (failed s e), (v, trace))" for e v using failing_ok [OF ord(1) live(1)] .
  have bad2: "session_ok (t2, (w2, trace @ [Wrote (take n ?rest)]))" if "r2 \<noteq> 0" for n
    using that k failed_ok [OF ord(2), of r2 t2 w2 n] by (simp add: keeps_def)
  have t2: "session_stage t2 = SESSION_STOP_TX" "stop_offset t2 = stop_offset s" if "r2 = 0"
    using k that st by (simp_all add: keeps_def)
  have retry: "session_ok (t2, (w2, trace))"
    using k failed_ok [OF ord(1), of r2 t2 w2] snd t2 by (cases "r2 = 0") (simp_all add: keeps_def session_ok_def)
  have bad3: "session_ok (snd (failed t2 e), (w2, trace @ [Wrote (take n ?rest)]))" if "r2 = 0" for e n
    using t2 [OF that] failing_ok [OF ord(2), of t2 e w2 n] by simp
  have go_on: "session_ok (t2\<lparr> stop_offset := stop_offset s + n \<rparr>, (w2, trace @ [Wrote (take n ?rest)]))"
    if "r2 = 0" "stop_offset s + n < 12" for n
    using t2 [OF that(1)] that(2) more [of n] by (simp add: session_ok_def)
  have finish: "session_ok (t2\<lparr> stop_offset := m, session_stage := SESSION_WAIT_RESET \<rparr>,
       (w2, trace @ [Wrote (take n ?rest)]))" if "stop_offset s + n = 12" for n m
    using more [of n] that by (simp add: session_ok_def)
  show ?thesis
  proof (cases res)
    case (Inl e)
    then show ?thesis
      using bad retry k snd(2) by (auto simp: stop_transmit_def w tc case_prod_unfold Let_def)
  next
    case (Inr n)
    show ?thesis
    proof (cases "r2 = 0")
      case True
      then show ?thesis
        using Inr bad bad3 go_on finish t2 snd(2)
        by (auto simp: stop_transmit_def w tc case_prod_unfold Let_def)
    next
      case False
      then show ?thesis
        using Inr bad bad2 snd(2) by (auto simp: stop_transmit_def w tc case_prod_unfold Let_def)
    qed
  qed
qed

lemma stop_command_ok:
  assumes ok: "session_ok (s, (w, trace))" and st: "session_stage s = SESSION_WAIT_RESET"
  shows "case stop_command os s (w, trace) of ((r, t), d) \<Rightarrow> session_ok (t, d)"
proof -
  have snd: "sending 12 trace" using ok st by (simp add: session_ok_def)
  note ord = orderly_intros(1) [OF snd]
  let ?t = "s\<lparr> session_stage := SESSION_WAIT_HWSTOP \<rparr>"
  let ?trace = "trace @ [Stop_command (latest s)]"
  have bad: "session_ok (snd (failed s e), (v, trace))" for e v using st failing_ok [OF ord, of s e v] by simp
  show ?thesis
  proof (cases "link_state (latest s) = LINK_OPENED \<and> dsp_state (latest s) = DSP_RESET_DONE")
    case True
    then have com: "commanded ?trace" using commanded_step [OF snd] by blast
    note ord2 = orderly_intros(2) [OF com]
    obtain res w1 where i: "ioctl_stop os w = (res, w1)" by fastforce
    obtain r2 t2 w2 where tc: "time_check os ?t w1 = ((r2, t2), w2)" by (metis prod.exhaust)
    have "session_ok (t2, (w2, ?trace))"
      using time_check_ok' [OF tc, of ?trace] ord2 com by (simp add: session_ok_def)
    moreover have "session_ok (snd (failed ?t e), (w1, ?trace))" for e
      using failing_ok [OF ord2, of ?t e w1] by simp
    ultimately show ?thesis
      using True by (auto simp: stop_command_def i tc case_prod_unfold Let_def)
  next
    case False
    then show ?thesis using bad ok by (auto simp: stop_command_def case_prod_unfold)
  qed
qed

lemma stop_confirm_ok:
  assumes ok: "session_ok (s, (w, trace))" and st: "session_stage s = SESSION_WAIT_HWSTOP"
  shows "session_ok (snd (stop_confirm s), (v, trace))"
  using assms failing_ok [OF orderly_intros(2), of trace s _ v] by (auto simp: stop_confirm_def Let_def session_ok_def)

lemma stop_step_ok:
  assumes ok: "session_ok (s, d)"
  shows "case b41_session_stop_step os s d of ((r, t), d) \<Rightarrow> session_ok (t, d)"
proof -
  obtain w trace where d: "d = (w, trace)" by fastforce
  show ?thesis
  proof (cases "session_stage s = SESSION_STOP_TX \<or> session_stage s = SESSION_WAIT_RESET \<or> session_stage s = SESSION_WAIT_HWSTOP")
    case True
    then have st: "session_stage s \<noteq> SESSION_FAILED" by auto
    have ord: "orderly trace" using ok unfolding d by (rule session_ok_orderly)
    have same: "session_ok (t, (v, trace))" if "session_stage t = session_stage s" "stop_offset t = stop_offset s" for t v
      using ok that True unfolding d by (auto simp: session_ok_def)
    show ?thesis
      using st
    proof (cases rule: sample_cases [of s os w])
      case (1 r t u)
      then show ?thesis using True d failed_ok [OF ord, of r t u] by (auto simp: b41_session_stop_step_def)
    next
      case (2 r t u)
      then show ?thesis using True d same by (auto simp: b41_session_stop_step_def)
    next
      case (3 t u)
      note ok_t = same [OF 3(2,3), of u]
      show ?thesis
        using True 3 d stop_transmit_ok [OF ok_t] stop_command_ok [OF ok_t] stop_confirm_ok [OF ok_t]
        by (auto simp: b41_session_stop_step_def case_prod_unfold)
    qed
  next
    case False
    then show ?thesis using ok by (auto simp: b41_session_stop_step_def)
  qed
qed

section \<open>Properties of runs\<close>

lemma session_step_ok:
  assumes "session_ok c"
  shows "session_ok (fst (session_step os call c))"
proof -
  obtain s w trace where c: "c = (s, (w, trace))" by (metis prod.exhaust)
  note ok = assms [unfolded c]
  show ?thesis
    using attach_ok [OF ok] wait_step_ok [OF ok] stop_begin_ok [OF ok] stop_step_ok [OF ok]
    by (cases call) (auto simp: c session_step_def case_prod_unfold)
qed

interpretation session_kept: invariant_owner "session_step os" session_ok for os :: "'w os"
  by unfold_locales (rule session_step_ok)

lemma session_failed_step:
  assumes "session_stage (fst c) = SESSION_FAILED"
  shows "fst (session_step os call c) = c"
  using assms
  by (cases call) (auto simp: session_step_def b41_session_attach_def b41_session_wait_step_def
      b41_session_stop_begin_def b41_session_stop_step_def split: prod.splits)

interpretation session_latch: latched_owner "session_step os" "\<lambda>c. session_stage (fst c) = SESSION_FAILED"
  "\<lambda>c. session_first_error (fst c)" for os :: "'w os"
  by unfold_locales (simp_all add: session_failed_step)

lemma session_ok_start: "session_ok (zero_session, (w, []))"
  by (simp add: session_ok_def zero_session_def)

text \<open>
  C17. Whatever the kernel answers and in whatever order the owner is called, the device sees
  only this: successive pieces of the twelve-byte stop frame, in order and without repetition,
  and after the whole frame at most one stop command, issued on a sample with the link open
  and the firmware in reset. The owner reports stopped only after that command, on a sample
  with the link suspended and the hardware stopped.
\<close>

theorem session_stop_sequence:
  "let ((s, (v, trace)), results) = run_ops (session_step os) calls (zero_session, (w, [])) in
   orderly trace \<and>
   (if session_stage s = SESSION_STOPPED
    then commanded trace \<and> link_state (latest s) = LINK_SUSPENDED \<and> dsp_state (latest s) = DSP_HW_STOP
    else True)"
proof -
  obtain s v trace results where run: "run_ops (session_step os) calls (zero_session, (w, [])) = ((s, (v, trace)), results)"
    by (metis prod.exhaust)
  have ok: "session_ok (s, (v, trace))"
    using session_kept.inv_run [OF session_ok_start, of os calls w] run by simp
  show ?thesis
    unfolding run Let_def prod.case
    using ok session_ok_orderly [OF ok] by (auto simp: session_ok_def)
qed

text \<open>
  C18. A failed session is final: no later call, under no answer of the kernel, changes the
  owner or its first error, and nothing more reaches the device.
\<close>

theorem session_failure_final:
  assumes "session_stage s = SESSION_FAILED"
  shows "fst (run_ops (session_step os) calls (s, d)) = (s, d)"
  using assms by (induction calls) (simp_all add: session_failed_step)

definition silent_os :: "unit os" where
  "silent_os = \<lparr> clock_gettime = (\<lambda>w. (Inl (Errno 4), w)), fcntl_getfl = (\<lambda>w. (Inl (Errno 4), w)),
     os_fstat = (\<lambda>w. (Inl (Errno 4), w)), os_lstat = (\<lambda>w. (Inl (Errno 4), w)),
     ioctl_snapshot = (\<lambda>w. (Inl (Errno 4), w)), os_write = (\<lambda>b w. (Inl (Errno 4), w)),
     ioctl_stop = (\<lambda>w. (Inl (Errno 4), w)) \<rparr>"

theorem session_failure_final_witness:
  "let s = snd (fst (b41_session_attach silent_os zero_session 3 100 ())) in
   session_first_error s = - 5 \<and> fst (run_ops (session_step silent_os) [Stop_step, Wait_step] (s, ((), []))) = (s, ((), []))"
  using session_failure_final [of "zero_session\<lparr> session_first_error := - 5, session_stage := SESSION_FAILED \<rparr>" silent_os
      "[Stop_step, Wait_step]" "((), [])"]
  by (simp add: b41_session_attach_def now_ns_def silent_os_def neg_errno_def failed_def zero_session_def Let_def)

end
