(* ===== verification/Gpueb_Sram.thy ===== *)
theory Gpueb_Sram
  imports Tetris_Prelude
begin

text \<open>
  The owner of the GPU controller's SRAM, \<^verbatim>\<open>patches/gpu/sram-owner/mt6878-gpueb-sram-core.c\<close>:
  one whole region is opened, two windows of it (general registers and mailbox) are leased to
  clients, and ranges are handed out only inside a leased window. The module also tiles the
  transmit half of the mailbox into the eleven message slots.
\<close>

unbundle bit_operations_syntax

section \<open>Data\<close>

definition GPUEB_SRAM_BASE :: u64 where "GPUEB_SRAM_BASE = 0x13c00000"
definition GPUEB_SRAM_SIZE :: u64 where "GPUEB_SRAM_SIZE = 0x40000"
definition GPUEB_GPR_OFFSET :: u64 where "GPUEB_GPR_OFFSET = 0x3fd1c"
definition GPUEB_GPR_SIZE :: u64 where "GPUEB_GPR_SIZE = 0x64"
definition GPUEB_MBOX_OFFSET :: u64 where "GPUEB_MBOX_OFFSET = 0x3fd80"
definition GPUEB_MBOX_SIZE :: u64 where "GPUEB_MBOX_SIZE = 0x280"

lemmas sram_map_defs = GPUEB_SRAM_BASE_def GPUEB_SRAM_SIZE_def GPUEB_GPR_OFFSET_def GPUEB_GPR_SIZE_def
  GPUEB_MBOX_OFFSET_def GPUEB_MBOX_SIZE_def

text \<open>
  A value of the C enumeration of windows is an unsigned number; the switch over it has a
  default branch, so the numbers past the named ones are kept.
\<close>

type_synonym gpueb_sram_window = nat

abbreviation (input) GPUEB_WINDOW_GPR :: gpueb_sram_window where "GPUEB_WINDOW_GPR \<equiv> 0"
abbreviation (input) GPUEB_WINDOW_MBOX :: gpueb_sram_window where "GPUEB_WINDOW_MBOX \<equiv> 1"

datatype gpueb_sram_phase = GPUEB_SRAM_NEW | GPUEB_SRAM_OWNED | GPUEB_SRAM_QUARANTINED | GPUEB_SRAM_CLOSED

record gpueb_sram_range =
  range_start :: u64
  range_size :: u64

record gpueb_sram_core =
  sram_phase :: gpueb_sram_phase
  sram_clients :: u32
  whole :: gpueb_sram_range

section \<open>Operations\<close>

text \<open>The static table of \<^verbatim>\<open>gpueb_sram_tx_slot\<close>, in 32-bit words.\<close>

definition slot_words :: "u32 list" where
  "slot_words = [4, 8, 3, 6, 9, 4, 6, 6, 1, 4, 3]"

definition gpueb_sram_tx_slot :: "u32 \<Rightarrow> u32 \<Rightarrow> u64 ptr \<Rightarrow> int \<times> u64 ptr" where
  "gpueb_sram_tx_slot channel count offset =
    (if offset = Null \<or> unat channel \<ge> length slot_words \<or> count \<noteq> slot_words ! unat channel
     then (- EINVAL, offset)
     else (0, store offset (fold (\<lambda>w start. start + ucast w * 4) (take (unat channel) slot_words) 0)))"

text \<open>The client bit \<^verbatim>\<open>1U << type\<close>.\<close>

definition window_bit :: "gpueb_sram_window \<Rightarrow> u32" where
  "window_bit type = push_bit type 1"

definition window_profile :: "gpueb_sram_window \<Rightarrow> (u64 \<times> u64) option" where
  "window_profile type =
    (if type = GPUEB_WINDOW_GPR then Some (GPUEB_GPR_OFFSET, GPUEB_GPR_SIZE)
     else if type = GPUEB_WINDOW_MBOX then Some (GPUEB_MBOX_OFFSET, GPUEB_MBOX_SIZE)
     else None)"

definition gpueb_sram_validate :: "u64 \<Rightarrow> u64 \<Rightarrow> int" where
  "gpueb_sram_validate start sz =
    (if sz = 0 \<or> start > NOT 0 - (sz - 1) then - ERANGE
     else if start \<noteq> GPUEB_SRAM_BASE \<or> sz \<noteq> GPUEB_SRAM_SIZE then - EINVAL
     else if GPUEB_GPR_OFFSET > sz \<or> GPUEB_GPR_SIZE > sz - GPUEB_GPR_OFFSET \<or>
             GPUEB_GPR_OFFSET + GPUEB_GPR_SIZE \<noteq> GPUEB_MBOX_OFFSET \<or>
             GPUEB_MBOX_OFFSET > sz \<or> GPUEB_MBOX_SIZE \<noteq> sz - GPUEB_MBOX_OFFSET
     then - ERANGE
     else 0)"

fun gpueb_sram_open :: "gpueb_sram_core ptr \<Rightarrow> u64 \<Rightarrow> u64 \<Rightarrow> int \<times> gpueb_sram_core ptr" where
  "gpueb_sram_open Null start sz = (- EINVAL, Null)"
| "gpueb_sram_open (At p core) start sz =
    (if sram_phase core \<noteq> GPUEB_SRAM_NEW then (- EBUSY, At p core)
     else let ret = gpueb_sram_validate start sz in
       if ret \<noteq> 0 then (ret, At p core)
       else (0, At p (core\<lparr> whole := \<lparr> range_start = start, range_size = sz \<rparr>, sram_clients := 0,
                           sram_phase := GPUEB_SRAM_OWNED \<rparr>)))"

fun gpueb_sram_claim_window :: "gpueb_sram_core ptr \<Rightarrow> gpueb_sram_window \<Rightarrow> int \<times> gpueb_sram_core ptr" where
  "gpueb_sram_claim_window Null type = (- EINVAL, Null)"
| "gpueb_sram_claim_window (At p core) type =
    (if window_profile type = None then (- EINVAL, At p core)
     else if sram_phase core \<noteq> GPUEB_SRAM_OWNED then (- ESHUTDOWN, At p core)
     else if sram_clients core AND window_bit type \<noteq> 0 then (- EBUSY, At p core)
     else (0, At p (core\<lparr> sram_clients := sram_clients core OR window_bit type \<rparr>)))"

fun gpueb_sram_put_window :: "gpueb_sram_core ptr \<Rightarrow> gpueb_sram_window \<Rightarrow> int \<times> gpueb_sram_core ptr" where
  "gpueb_sram_put_window Null type = (- EINVAL, Null)"
| "gpueb_sram_put_window (At p core) type =
    (if window_profile type = None then (- EINVAL, At p core)
     else if sram_clients core AND window_bit type = 0 then (- ENOENT, At p core)
     else (0, At p (core\<lparr> sram_clients := sram_clients core AND NOT (window_bit type) \<rparr>)))"

fun gpueb_sram_window_range ::
  "gpueb_sram_core ptr \<Rightarrow> gpueb_sram_window \<Rightarrow> u64 \<Rightarrow> u64 \<Rightarrow> gpueb_sram_range ptr \<Rightarrow> int \<times> gpueb_sram_range ptr" where
  "gpueb_sram_window_range Null type offset sz rng = (- EINVAL, rng)"
| "gpueb_sram_window_range (At p core) type offset sz rng =
    (if rng = Null then (- EINVAL, rng)
     else case window_profile type of
       None \<Rightarrow> (- EINVAL, rng)
     | Some (base, capacity) \<Rightarrow>
         if sram_phase core \<noteq> GPUEB_SRAM_OWNED then (- ESHUTDOWN, rng)
         else if sram_clients core AND window_bit type = 0 then (- ENOENT, rng)
         else if sz = 0 \<or> offset AND 3 \<noteq> 0 \<or> sz AND 3 \<noteq> 0 \<or> offset > capacity \<or> sz > capacity - offset
         then (- ERANGE, rng)
         else (0, store rng \<lparr> range_start = range_start (whole core) + base + offset, range_size = sz \<rparr>))"

fun gpueb_sram_quarantine :: "gpueb_sram_core ptr \<Rightarrow> int \<times> gpueb_sram_core ptr" where
  "gpueb_sram_quarantine Null = (- EINVAL, Null)"
| "gpueb_sram_quarantine (At p core) =
    (if sram_phase core = GPUEB_SRAM_QUARANTINED then (0, At p core)
     else if sram_phase core \<noteq> GPUEB_SRAM_OWNED then (- EINVAL, At p core)
     else (0, At p (core\<lparr> sram_phase := GPUEB_SRAM_QUARANTINED \<rparr>)))"

fun gpueb_sram_close :: "gpueb_sram_core ptr \<Rightarrow> int \<times> gpueb_sram_core ptr" where
  "gpueb_sram_close Null = (- EINVAL, Null)"
| "gpueb_sram_close (At p core) =
    (if sram_phase core = GPUEB_SRAM_QUARANTINED \<or> sram_clients core \<noteq> 0 then (- EBUSY, At p core)
     else if sram_phase core \<noteq> GPUEB_SRAM_OWNED then (- EINVAL, At p core)
     else (0, At p (core\<lparr> sram_phase := GPUEB_SRAM_CLOSED \<rparr>)))"

section \<open>Specification: leases of windows\<close>

text \<open>
  The abstract owner holds the set of leased windows. A lease is granted only while the region
  is owned and the window is free, it may be returned in every phase, quarantine is entered
  from the owned phase and never left, and the region is closed only when nothing is leased.
\<close>

datatype sram_call = Open u64 u64 | Claim gpueb_sram_window | Put gpueb_sram_window | Quarantine | Close

type_synonym sram_lease = "gpueb_sram_phase \<times> gpueb_sram_window set"

fun lease_step :: "sram_call \<Rightarrow> sram_lease \<Rightarrow> sram_lease \<times> int" where
  "lease_step (Open start sz) (phase, held) =
    (if phase \<noteq> GPUEB_SRAM_NEW then ((phase, held), - EBUSY)
     else if sz = 0 \<or> unat start + unat sz > 2 ^ 64 then ((phase, held), - ERANGE)
     else if start = GPUEB_SRAM_BASE \<and> sz = GPUEB_SRAM_SIZE then ((GPUEB_SRAM_OWNED, {}), 0)
     else ((phase, held), - EINVAL))"
| "lease_step (Claim type) (phase, held) =
    (if type \<notin> {GPUEB_WINDOW_GPR, GPUEB_WINDOW_MBOX} then ((phase, held), - EINVAL)
     else if phase \<noteq> GPUEB_SRAM_OWNED then ((phase, held), - ESHUTDOWN)
     else if type \<in> held then ((phase, held), - EBUSY)
     else ((phase, insert type held), 0))"
| "lease_step (Put type) (phase, held) =
    (if type \<notin> {GPUEB_WINDOW_GPR, GPUEB_WINDOW_MBOX} then ((phase, held), - EINVAL)
     else if type \<notin> held then ((phase, held), - ENOENT)
     else ((phase, held - {type}), 0))"
| "lease_step Quarantine (phase, held) =
    (if phase \<in> {GPUEB_SRAM_OWNED, GPUEB_SRAM_QUARANTINED} then ((GPUEB_SRAM_QUARANTINED, held), 0)
     else ((phase, held), - EINVAL))"
| "lease_step Close (phase, held) =
    (if phase = GPUEB_SRAM_QUARANTINED \<or> held \<noteq> {} then ((phase, held), - EBUSY)
     else if phase = GPUEB_SRAM_OWNED then ((GPUEB_SRAM_CLOSED, held), 0)
     else ((phase, held), - EINVAL))"

fun sram_step :: "sram_call \<Rightarrow> gpueb_sram_core ptr \<Rightarrow> gpueb_sram_core ptr \<times> int" where
  "sram_step (Open start sz) core = prod.swap (gpueb_sram_open core start sz)"
| "sram_step (Claim type) core = prod.swap (gpueb_sram_claim_window core type)"
| "sram_step (Put type) core = prod.swap (gpueb_sram_put_window core type)"
| "sram_step Quarantine core = prod.swap (gpueb_sram_quarantine core)"
| "sram_step Close core = prod.swap (gpueb_sram_close core)"

definition lease_of :: "gpueb_sram_core ptr \<Rightarrow> sram_lease" where
  "lease_of p = (sram_phase (contents p), {n. bit (sram_clients (contents p)) n})"

definition zero_sram :: gpueb_sram_core where
  "zero_sram = \<lparr> sram_phase = GPUEB_SRAM_NEW, sram_clients = 0, whole = \<lparr> range_start = 0, range_size = 0 \<rparr> \<rparr>"

definition sram_ok :: "gpueb_sram_core ptr \<Rightarrow> bool" where
  "sram_ok p \<longleftrightarrow> p \<noteq> Null \<and> {n. bit (sram_clients (contents p)) n} \<subseteq> {GPUEB_WINDOW_GPR, GPUEB_WINDOW_MBOX} \<and>
     (if sram_phase (contents p) = GPUEB_SRAM_NEW then sram_clients (contents p) = 0
      else whole (contents p) = \<lparr> range_start = GPUEB_SRAM_BASE, range_size = GPUEB_SRAM_SIZE \<rparr>)"

section \<open>Lemmas\<close>

lemma bit_window_bit: "bit (window_bit n) m \<longleftrightarrow> m = n \<and> n < 32"
  by (auto simp: window_bit_def bit_simps)

lemma and_push_bit_1: "n < 32 \<Longrightarrow> w AND window_bit n = 0 \<longleftrightarrow> \<not> bit w n"
  using bit_and_iff [of w "window_bit n"] bit_imp_le_length [of w] by (auto simp: bit_eq_iff [where ?'a = u32] bit_window_bit simp del: bit_simps)

lemma window_profile_iff: "window_profile type = None \<longleftrightarrow> type \<notin> {GPUEB_WINDOW_GPR, GPUEB_WINDOW_MBOX}"
  by (simp add: window_profile_def)

lemma window_small: "window_profile type \<noteq> None \<Longrightarrow> type < 32"
  by (auto simp: window_profile_def split: if_splits)

lemma bits_claim: "n < 32 \<Longrightarrow> {m. bit (w OR window_bit n :: u32) m} = insert n {m. bit w m}"
  by (auto simp: bit_or_iff bit_window_bit)

lemma bits_put: "{m. bit (w AND NOT (window_bit n) :: u32) m} = {m. bit w m} - {n}"
  using bit_imp_le_length [of w] by (auto simp: bit_and_iff bit_not_iff bit_window_bit)

lemma no_bits: "{m. bit (w :: u32) m} = {} \<longleftrightarrow> w = 0"
  using bit_eqI [of w 0] by auto

text \<open>The overflow test of \<^verbatim>\<open>gpueb_sram_validate\<close> is the test that the region ends below \<open>2^64\<close>.\<close>

lemma region_wraps_iff:
  fixes start sz :: u64
  assumes "sz \<noteq> 0"
  shows "start > NOT 0 - (sz - 1) \<longleftrightarrow> unat start + unat sz > 2 ^ 64"
proof -
  have pos: "0 < unat sz" using assms by (simp add: unat_gt_0)
  have le: "sz - 1 \<le> (NOT 0 :: u64)" by simp
  have one: "unat (sz - 1) = unat sz - 1" using assms by (simp add: unat_minus_one)
  have "unat (NOT 0 :: u64) = 2 ^ 64 - 1" by (simp add: unsigned_minus_1_eq_mask mask_eq_exp_minus_1)
  then have "unat (NOT 0 - (sz - 1)) = 2 ^ 64 - 1 - (unat sz - 1)"
    using unat_sub [OF le] one by simp
  then show ?thesis using pos unsigned_less [of sz, where ?'a = nat] by (auto simp: word_less_nat_alt)
qed

lemma validate_result:
  "gpueb_sram_validate start sz =
    (if sz = 0 \<or> unat start + unat sz > 2 ^ 64 then - ERANGE
     else if start = GPUEB_SRAM_BASE \<and> sz = GPUEB_SRAM_SIZE then 0 else - EINVAL)"
  using region_wraps_iff [of sz start] by (auto simp: gpueb_sram_validate_def sram_map_defs)

lemma sram_step_refines:
  assumes "sram_ok p"
  shows "lease_step call (lease_of p) = (lease_of (fst (sram_step call p)), snd (sram_step call p))"
proof -
  obtain a c where p: "p = At a c" using assms by (cases p) (auto simp: sram_ok_def)
  have n: "n < 32" if "n = 0 \<or> n = 1" for n :: nat using that by auto
  show ?thesis
  proof (cases call)
    case (Open start sz)
    then show ?thesis by (simp add: p lease_of_def validate_result)
  next
    case (Claim type)
    then show ?thesis
      by (auto simp: p lease_of_def window_profile_def and_push_bit_1 bits_claim n)
  next
    case (Put type)
    then show ?thesis
      by (auto simp: p lease_of_def window_profile_def and_push_bit_1 bits_put n)
  qed (use no_bits [of "sram_clients c"] in \<open>auto simp: p lease_of_def\<close>)
qed

lemma sram_step_ok:
  assumes "sram_ok p"
  shows "sram_ok (fst (sram_step call p))"
proof -
  obtain a c where p: "p = At a c" using assms by (cases p) (auto simp: sram_ok_def)
  note ok = assms [unfolded p]
  have n: "n < 32" if "n = 0 \<or> n = 1" for n :: nat using that by auto
  show ?thesis
  proof (cases call)
    case (Open start sz)
    then show ?thesis using ok by (auto simp: p sram_ok_def validate_result Let_def)
  next
    case (Claim type)
    then show ?thesis using ok
      by (auto simp: p sram_ok_def window_profile_def and_push_bit_1 bits_claim n)
  next
    case (Put type)
    then show ?thesis using ok
      by (auto simp: p sram_ok_def window_profile_def and_push_bit_1 bits_put n)
  qed (use ok in \<open>auto simp: p sram_ok_def\<close>)
qed

lemma sram_ok_start: "sram_ok (At a zero_sram)"
  by (simp add: sram_ok_def zero_sram_def)

lemma lease_of_start: "lease_of (At a zero_sram) = (GPUEB_SRAM_NEW, {})"
  by (simp add: lease_of_def zero_sram_def)

interpretation sram_leases: refined_owner sram_step sram_ok lease_step lease_of
  by unfold_locales (rule sram_step_ok, assumption, rule sram_step_refines)

text \<open>The window of a type as a set of physical addresses.\<close>

definition window_addresses :: "gpueb_sram_window \<Rightarrow> nat set" where
  "window_addresses type =
    (if type = GPUEB_WINDOW_GPR then {0x13c3fd1c ..< 0x13c3fd80}
     else if type = GPUEB_WINDOW_MBOX then {0x13c3fd80 ..< 0x13c40000} else {})"

definition range_addresses :: "gpueb_sram_range \<Rightarrow> nat set" where
  "range_addresses r = {unat (range_start r) ..< unat (range_start r) + unat (range_size r)}"

lemma window_range_inside:
  assumes ok: "sram_ok (At a c)"
    and run: "gpueb_sram_window_range (At a c) type offset sz (At b old) = (0, At b r)"
  shows "type \<in> snd (lease_of (At a c)) \<and> sram_phase c = GPUEB_SRAM_OWNED \<and> range_addresses r \<noteq> {} \<and>
    range_addresses r \<subseteq> window_addresses type"
proof -
  obtain base cap where prof: "window_profile type = Some (base, cap)"
    using run by (cases "window_profile type") auto
  have live: "sram_phase c = GPUEB_SRAM_OWNED" and held: "sram_clients c AND window_bit type \<noteq> 0"
    and sz: "sz \<noteq> 0" "offset \<le> cap" "sz \<le> cap - offset"
    and r: "r = \<lparr> range_start = range_start (whole c) + base + offset, range_size = sz \<rparr>"
    using run prof by (auto split: if_splits)
  have w: "range_start (whole c) = GPUEB_SRAM_BASE" using ok live by (simp add: sram_ok_def)
  have fit: "unat offset + unat sz \<le> unat cap" "0 < unat sz"
    using sz unat_sub [OF sz(2)] by (auto simp: word_le_nat_alt unat_gt_0)
  have cases: "type = 0 \<and> unat (GPUEB_SRAM_BASE + base) = 0x13c3fd1c \<and> unat cap = 0x64 \<or>
      type = 1 \<and> unat (GPUEB_SRAM_BASE + base) = 0x13c3fd80 \<and> unat cap = 0x280"
    using prof by (auto simp: window_profile_def sram_map_defs split: if_splits)
  have "unat (GPUEB_SRAM_BASE + base + offset) = unat (GPUEB_SRAM_BASE + base) + unat offset"
    using cases fit by (intro unat_add_small) auto
  moreover have "bit (sram_clients c) type"
    using held and_push_bit_1 [OF window_small, of type "sram_clients c"] prof by auto
  ultimately show ?thesis
    using cases fit live w by (auto simp: r range_addresses_def window_addresses_def lease_of_def)
qed

lemma slot_fold: "fold (\<lambda>w start. start + ucast w * 4) (ws :: u32 list) (a :: u64) =
    a + of_nat (\<Sum>w\<leftarrow>ws. 4 * unat w)"
  by (induction ws arbitrary: a) (simp_all add: algebra_simps)

section \<open>Properties\<close>

text \<open>
  C19. Over every sequence of calls the owner behaves as the abstract table of leases: it
  answers every call with the status the table gives, and its phase and client bits are the
  table's phase and set of leased windows. In particular a window is never leased twice, the
  region is closed only with no lease outstanding, and quarantine is never left.
\<close>

theorem sram_refines_leases:
  "let (p, results) = run_ops sram_step calls (At a zero_sram);
       (table, expected) = run_ops lease_step calls (GPUEB_SRAM_NEW, {}) in
   table = lease_of p \<and> results = expected \<and> sram_ok p"
  using sram_leases.refines_run [OF sram_ok_start, of calls a] sram_leases.inv_run [OF sram_ok_start, of calls a]
  by (simp add: lease_of_start case_prod_unfold Let_def)

text \<open>
  C20. In every state the owner can reach, a range that is handed out belongs to a window that
  is leased at that moment, is not empty, and lies inside that window of the owned SRAM; the
  two windows are disjoint, so no range of one client reaches the other's.
\<close>

theorem sram_ranges_confined:
  assumes "fst (run_ops sram_step calls (At a zero_sram)) = At b core"
    and "gpueb_sram_window_range (At b core) type offset sz (At q old) = (0, At q r)"
  shows "sram_phase core = GPUEB_SRAM_OWNED \<and> type \<in> snd (lease_of (At b core)) \<and>
    range_addresses r \<noteq> {} \<and> range_addresses r \<subseteq> window_addresses type \<and>
    window_addresses type \<subseteq> {unat GPUEB_SRAM_BASE ..< unat GPUEB_SRAM_BASE + unat GPUEB_SRAM_SIZE} \<and>
    window_addresses GPUEB_WINDOW_GPR \<inter> window_addresses GPUEB_WINDOW_MBOX = {}"
proof -
  have "sram_ok (At b core)" using sram_leases.inv_run [OF sram_ok_start, of calls a] assms(1) by simp
  from window_range_inside [OF this assms(2)] show ?thesis
    by (auto simp: window_addresses_def sram_map_defs)
qed

theorem sram_ranges_confined_witness:
  "let core = \<lparr> sram_phase = GPUEB_SRAM_OWNED, sram_clients = 2,
         whole = \<lparr> range_start = GPUEB_SRAM_BASE, range_size = GPUEB_SRAM_SIZE \<rparr> \<rparr>;
       r = \<lparr> range_start = 0x13c3fd90, range_size = 32 \<rparr> in
   fst (run_ops sram_step [Open GPUEB_SRAM_BASE GPUEB_SRAM_SIZE, Claim 1] (At 64 zero_sram)) = At 64 core \<and>
   range_addresses r \<subseteq> window_addresses 1"
proof -
  let ?core = "\<lparr> sram_phase = GPUEB_SRAM_OWNED, sram_clients = 2,
         whole = \<lparr> range_start = GPUEB_SRAM_BASE, range_size = GPUEB_SRAM_SIZE \<rparr> \<rparr>"
  let ?r = "\<lparr> range_start = 0x13c3fd90, range_size = 32 \<rparr>"
  have run: "fst (run_ops sram_step [Open GPUEB_SRAM_BASE GPUEB_SRAM_SIZE, Claim 1] (At 64 zero_sram)) = At 64 ?core"
    by (simp add: validate_result zero_sram_def window_profile_def window_bit_def Let_def sram_map_defs)
  have rng: "gpueb_sram_window_range (At 64 ?core) 1 16 32 (At 128 ?r) = (0, At 128 ?r)"
    by (simp add: window_profile_def window_bit_def sram_map_defs)
  show ?thesis
    using sram_ranges_confined [OF run rng] run by (simp add: Let_def)
qed

text \<open>
  The transmit slots tile the front of the mailbox: slot 0 starts at offset 0, each slot
  starts where the slot before it ends, the last of the eleven ends at byte 216, inside the
  mailbox window; a request with another channel or another word count is refused and leaves
  the output untouched.
\<close>

lemma tx_slots_tile_mailbox:
  "(\<forall>channel count b old. gpueb_sram_tx_slot channel count (At b old) =
      (if unat channel < 11 \<and> count = slot_words ! unat channel
       then (0, At b (of_nat (\<Sum>w\<leftarrow>take (unat channel) slot_words. 4 * unat w))) else (- EINVAL, At b old))) \<and>
   (\<Sum>w\<leftarrow>slot_words. 4 * unat w) = 216 \<and> 216 \<le> unat GPUEB_MBOX_SIZE"
proof -
  have "216 = (\<Sum>w\<leftarrow>slot_words. 4 * unat w)" "216 \<le> unat GPUEB_MBOX_SIZE" "length slot_words = 11"
    by (simp_all add: slot_words_def sram_map_defs)
  then show ?thesis
    using slot_fold [where a = 0] by (auto simp: gpueb_sram_tx_slot_def)
qed

end
