(* ===== verification/Gpueb_Io.thy ===== *)
theory Gpueb_Io
  imports Gpueb_Sram
begin

text \<open>
  The register scope of the GPU controller, \<^verbatim>\<open>patches/gpu/mmio-scope/mt6878-gpueb-io-core.c\<close>
  with the two accessors of \<^verbatim>\<open>mt6878-gpueb-io.c\<close>: counted users, one eight-word message out,
  one eight-word message in, register reads, and a quarantine that no operation leaves. The
  accessors are called through a table of callbacks, which is a parameter here; every call of
  one is recorded in a trace.
\<close>

unbundle bit_operations_syntax

section \<open>Data\<close>

datatype gpueb_io_region = GPUEB_IO_GPR | GPUEB_IO_DATA | GPUEB_IO_SEND | GPUEB_IO_SET | GPUEB_IO_RECV
  | GPUEB_IO_CLEAR | GPUEB_IO_REGION_COUNT

datatype gpueb_io_phase = GPUEB_IO_UNPROVEN | GPUEB_IO_TRANSACTION | GPUEB_IO_QUIESCED | GPUEB_IO_QUARANTINED

record gpueb_io_core =
  io_phase :: gpueb_io_phase
  users :: u32
  physical_uncertain :: u32
  io_first_error :: int

text \<open>
  A callback returns its status and, for a read, the value it leaves behind its pointer. The
  C structure holds function pointers, which may be null.
\<close>

record 'w gpueb_io_ops =
  read32 :: "(gpueb_io_region \<Rightarrow> u32 \<Rightarrow> 'w \<Rightarrow> (int \<times> u32) \<times> 'w) option"
  write32 :: "(gpueb_io_region \<Rightarrow> u32 \<Rightarrow> u32 \<Rightarrow> 'w \<Rightarrow> int \<times> 'w) option"

datatype io_event = Read32 gpueb_io_region u32 | Write32 gpueb_io_region u32 u32

type_synonym 'w bus = "'w \<times> io_event list"

definition GPUEB_IO_WORDS :: nat where "GPUEB_IO_WORDS = 8"
definition GPUEB_IO_TX :: u32 where "GPUEB_IO_TX = 0x10"
definition GPUEB_IO_RX :: u32 where "GPUEB_IO_RX = 0xe8"
definition GPUEB_IO_CHANNEL :: u32 where "GPUEB_IO_CHANNEL = push_bit 1 1"
definition GPUEB_IO_GPR_SIZE :: u32 where "GPUEB_IO_GPR_SIZE = 0x64"
definition GPUEB_IO_DATA_SIZE :: u32 where "GPUEB_IO_DATA_SIZE = 0x280"

lemmas io_map_defs = GPUEB_IO_WORDS_def GPUEB_IO_TX_def GPUEB_IO_RX_def GPUEB_IO_CHANNEL_def
  GPUEB_IO_GPR_SIZE_def GPUEB_IO_DATA_SIZE_def

section \<open>Operations\<close>

definition gpueb_io_bounds :: "gpueb_io_region \<Rightarrow> u32 \<Rightarrow> u32 \<Rightarrow> int" where
  "gpueb_io_bounds region offset sz =
    (let check = (\<lambda>capacity. if sz = 0 \<or> offset AND 3 \<noteq> 0 \<or> sz AND 3 \<noteq> 0 \<or> offset > capacity \<or> sz > capacity - offset
                   then - ERANGE else 0)
     in case region of
          GPUEB_IO_GPR \<Rightarrow> check GPUEB_IO_GPR_SIZE
        | GPUEB_IO_DATA \<Rightarrow> check GPUEB_IO_DATA_SIZE
        | GPUEB_IO_SEND \<Rightarrow> check 4
        | GPUEB_IO_SET \<Rightarrow> check 4
        | GPUEB_IO_RECV \<Rightarrow> check 4
        | GPUEB_IO_CLEAR \<Rightarrow> check 4
        | _ \<Rightarrow> - EINVAL)"

text \<open>Calls through the table: the callback runs and the access is recorded.\<close>

definition call_read32 :: "'w gpueb_io_ops ptr \<Rightarrow> gpueb_io_region \<Rightarrow> u32 \<Rightarrow> 'w bus \<Rightarrow> int \<times> u32 \<times> 'w bus" where
  "call_read32 ops region offset d =
    (case the (read32 (contents ops)) region offset (fst d) of
       ((ret, v), w) \<Rightarrow> (ret, v, (w, snd d @ [Read32 region offset])))"

definition call_write32 :: "'w gpueb_io_ops ptr \<Rightarrow> gpueb_io_region \<Rightarrow> u32 \<Rightarrow> u32 \<Rightarrow> 'w bus \<Rightarrow> int \<times> 'w bus" where
  "call_write32 ops region offset v d =
    (case the (write32 (contents ops)) region offset v (fst d) of
       (ret, w) \<Rightarrow> (ret, (w, snd d @ [Write32 region offset v])))"

fun io_guard :: "gpueb_io_core ptr \<Rightarrow> 'w gpueb_io_ops ptr \<Rightarrow> int \<times> gpueb_io_core ptr" where
  "io_guard Null ops = (- EINVAL, Null)"
| "io_guard core Null = (- EINVAL, core)"
| "io_guard (At p core) (At q ops) =
    (if read32 ops = None \<or> write32 ops = None then (- EINVAL, At p core)
     else if io_first_error core \<noteq> 0 then (io_first_error core, At p core)
     else if io_phase core \<noteq> GPUEB_IO_TRANSACTION then (- EHOSTDOWN, At p core)
     else if users core = 0 then (- ENXIO, At p core)
     else (0, At p (core\<lparr> physical_uncertain := 1 \<rparr>)))"

fun gpueb_io_get :: "gpueb_io_core ptr \<Rightarrow> int \<times> gpueb_io_core ptr" where
  "gpueb_io_get Null = (- EINVAL, Null)"
| "gpueb_io_get (At p core) =
    (if io_phase core = GPUEB_IO_QUIESCED \<or> io_phase core = GPUEB_IO_QUARANTINED then (- ESHUTDOWN, At p core)
     else if users core = NOT 0 then (- EOVERFLOW, At p core)
     else (0, At p (core\<lparr> users := users core + 1 \<rparr>)))"

fun gpueb_io_put :: "gpueb_io_core ptr \<Rightarrow> int \<times> gpueb_io_core ptr" where
  "gpueb_io_put Null = (- EINVAL, Null)"
| "gpueb_io_put (At p core) =
    (if users core = 0 then (- EINVAL, At p core) else (0, At p (core\<lparr> users := users core - 1 \<rparr>)))"

fun gpueb_io_quarantine :: "gpueb_io_core ptr \<Rightarrow> int \<Rightarrow> int \<times> gpueb_io_core ptr" where
  "gpueb_io_quarantine Null err = (- EINVAL, Null)"
| "gpueb_io_quarantine (At p core) err =
    (if err \<ge> 0 then (- EINVAL, At p core)
     else let core = (if io_first_error core = 0 then core\<lparr> io_first_error := err \<rparr> else core);
              core = core\<lparr> physical_uncertain := 1, io_phase := GPUEB_IO_QUARANTINED \<rparr>
       in (io_first_error core, At p core))"

definition io_fault :: "gpueb_io_core ptr \<Rightarrow> int \<Rightarrow> int \<times> gpueb_io_core ptr" where
  "io_fault core err = gpueb_io_quarantine core (if err < 0 then err else - EIO)"

text \<open>The two loops over the eight words; the list holds the values \<^verbatim>\<open>i\<close> still takes.\<close>

fun tx_loop :: "'w gpueb_io_ops ptr \<Rightarrow> u32 list \<Rightarrow> nat list \<Rightarrow> 'w bus \<Rightarrow> int \<times> 'w bus" where
  "tx_loop ops words [] d = (0, d)"
| "tx_loop ops words (i # is) d =
    (case call_write32 ops GPUEB_IO_DATA (GPUEB_IO_TX + of_nat i * 4) (words ! i) d of
       (ret, d) \<Rightarrow> if ret \<noteq> 0 then (ret, d) else tx_loop ops words is d)"

fun rx_loop :: "'w gpueb_io_ops ptr \<Rightarrow> u32 list \<Rightarrow> nat list \<Rightarrow> 'w bus \<Rightarrow> int \<times> u32 list \<times> 'w bus" where
  "rx_loop ops received [] d = (0, received, d)"
| "rx_loop ops received (i # is) d =
    (case call_read32 ops GPUEB_IO_DATA (GPUEB_IO_RX + of_nat i * 4) d of
       (ret, v, d) \<Rightarrow> if ret \<noteq> 0 then (ret, received, d) else rx_loop ops (received[i := v]) is d)"

definition gpueb_io_tx ::
  "gpueb_io_core ptr \<Rightarrow> 'w gpueb_io_ops ptr \<Rightarrow> u32 list ptr \<Rightarrow> nat \<Rightarrow> 'w bus \<Rightarrow> int \<times> gpueb_io_core ptr \<times> 'w bus" where
  "gpueb_io_tx core ops words count d =
    (if words = Null \<or> count \<noteq> GPUEB_IO_WORDS then (- EINVAL, core, d)
     else case io_guard core ops of (ret, core) \<Rightarrow>
     if ret \<noteq> 0 then (ret, core, d)
     else case call_read32 ops GPUEB_IO_SEND 0 d of (ret, pending, d) \<Rightarrow>
     if ret \<noteq> 0 then (case io_fault core ret of (ret, core) \<Rightarrow> (ret, core, d))
     else if pending AND GPUEB_IO_CHANNEL \<noteq> 0 then (- EBUSY, core, d)
     else case tx_loop ops (contents words) [0 ..< GPUEB_IO_WORDS] d of (ret, d) \<Rightarrow>
     if ret \<noteq> 0 then (case io_fault core ret of (ret, core) \<Rightarrow> (ret, core, d))
     else case call_write32 ops GPUEB_IO_SET 0 GPUEB_IO_CHANNEL d of (ret, d) \<Rightarrow>
     if ret \<noteq> 0 then (case io_fault core ret of (ret, core) \<Rightarrow> (ret, core, d)) else (0, core, d))"

text \<open>The local array \<^verbatim>\<open>received\<close> is uninitialised in C; every word of it is written before it is copied out.\<close>

definition gpueb_io_rx ::
  "gpueb_io_core ptr \<Rightarrow> 'w gpueb_io_ops ptr \<Rightarrow> u32 list ptr \<Rightarrow> nat \<Rightarrow> 'w bus \<Rightarrow>
   int \<times> gpueb_io_core ptr \<times> u32 list ptr \<times> 'w bus" where
  "gpueb_io_rx core ops words count d =
    (if words = Null \<or> count \<noteq> GPUEB_IO_WORDS then (- EINVAL, core, words, d)
     else case io_guard core ops of (ret, core) \<Rightarrow>
     if ret \<noteq> 0 then (ret, core, words, d)
     else case call_read32 ops GPUEB_IO_RECV 0 d of (ret, pending, d) \<Rightarrow>
     if ret \<noteq> 0 then (case io_fault core ret of (ret, core) \<Rightarrow> (ret, core, words, d))
     else if pending AND GPUEB_IO_CHANNEL = 0 then (- EAGAIN, core, words, d)
     else case rx_loop ops (replicate GPUEB_IO_WORDS 0) [0 ..< GPUEB_IO_WORDS] d of (ret, received, d) \<Rightarrow>
     if ret \<noteq> 0 then (case io_fault core ret of (ret, core) \<Rightarrow> (ret, core, words, d))
     else case call_write32 ops GPUEB_IO_CLEAR 0 GPUEB_IO_CHANNEL d of (ret, d) \<Rightarrow>
     if ret \<noteq> 0 then (case io_fault core ret of (ret, core) \<Rightarrow> (ret, core, words, d))
     else (0, core, store words (blit (contents words) 0 received), d))"

definition gpueb_io_gpr_read ::
  "gpueb_io_core ptr \<Rightarrow> 'w gpueb_io_ops ptr \<Rightarrow> u32 \<Rightarrow> u32 ptr \<Rightarrow> 'w bus \<Rightarrow>
   int \<times> gpueb_io_core ptr \<times> u32 ptr \<times> 'w bus" where
  "gpueb_io_gpr_read core ops offset out d =
    (if out = Null then (- EINVAL, core, out, d)
     else let ret = gpueb_io_bounds GPUEB_IO_GPR offset 4 in
     if ret \<noteq> 0 then (ret, core, out, d)
     else case io_guard core ops of (ret, core) \<Rightarrow>
     if ret \<noteq> 0 then (ret, core, out, d)
     else case call_read32 ops GPUEB_IO_GPR offset d of (ret, result, d) \<Rightarrow>
     if ret \<noteq> 0 then (case io_fault core ret of (ret, core) \<Rightarrow> (ret, core, out, d))
     else (0, core, store out result, d))"

fun gpueb_io_quiesce :: "gpueb_io_core ptr \<Rightarrow> int \<times> gpueb_io_core ptr" where
  "gpueb_io_quiesce Null = (- EINVAL, Null)"
| "gpueb_io_quiesce (At p core) =
    (let core = (if io_phase core = GPUEB_IO_TRANSACTION then core\<lparr> physical_uncertain := 1 \<rparr> else core);
         core = (if io_phase core \<noteq> GPUEB_IO_QUARANTINED then core\<lparr> io_phase := GPUEB_IO_QUIESCED \<rparr> else core)
     in (0, At p core))"

fun gpueb_io_can_destroy :: "gpueb_io_core ptr \<Rightarrow> int" where
  "gpueb_io_can_destroy Null = - EINVAL"
| "gpueb_io_can_destroy (At p core) =
    (if users core \<noteq> 0 \<or> physical_uncertain core \<noteq> 0 \<or> io_phase core = GPUEB_IO_TRANSACTION \<or>
        io_phase core = GPUEB_IO_QUARANTINED then - EBUSY else 0)"

section \<open>The accessors of the driver\<close>

text \<open>
  \<^verbatim>\<open>scope_read32\<close> and \<^verbatim>\<open>scope_write32\<close> over the register file: \<^verbatim>\<open>readl\<close> and \<^verbatim>\<open>writel\<close> on a
  mapped region are parameters, since a register may answer anything.
\<close>

record 'w registers =
  readl :: "gpueb_io_region \<Rightarrow> u32 \<Rightarrow> 'w \<Rightarrow> u32 \<times> 'w"
  writel :: "gpueb_io_region \<Rightarrow> u32 \<Rightarrow> u32 \<Rightarrow> 'w \<Rightarrow> 'w"

definition scope_read32 :: "'w registers \<Rightarrow> gpueb_io_region \<Rightarrow> u32 \<Rightarrow> 'w \<Rightarrow> (int \<times> u32) \<times> 'w" where
  "scope_read32 regs region offset w =
    (let ret = gpueb_io_bounds region offset 4 in
     if ret \<noteq> 0 then ((ret, 0), w)
     else case readl regs region offset w of (v, w) \<Rightarrow> ((0, v), w))"

definition scope_write32 :: "'w registers \<Rightarrow> gpueb_io_region \<Rightarrow> u32 \<Rightarrow> u32 \<Rightarrow> 'w \<Rightarrow> int \<times> 'w" where
  "scope_write32 regs region offset v w =
    (let ret = gpueb_io_bounds region offset 4 in
     if ret \<noteq> 0 then (ret, w)
     else if region \<noteq> GPUEB_IO_DATA \<and> region \<noteq> GPUEB_IO_SET \<and> region \<noteq> GPUEB_IO_CLEAR then (- EPERM, w)
     else (0, writel regs region offset v w))"

definition mmio_ops :: "'w registers \<Rightarrow> 'w gpueb_io_ops" where
  "mmio_ops regs = \<lparr> read32 = Some (scope_read32 regs), write32 = Some (scope_write32 regs) \<rparr>"

section \<open>Specification: transactions\<close>

text \<open>
  A transaction is a fixed script of accesses. It is carried out up to some point; where it
  stops early the owner is unchanged (nothing was accessed), or merely marked (the channel was
  not in the right state), or quarantined with the status returned as its first error.
\<close>

definition tx_script :: "u32 list \<Rightarrow> io_event list" where
  "tx_script ws = Read32 GPUEB_IO_SEND 0 #
     map (\<lambda>i. Write32 GPUEB_IO_DATA (GPUEB_IO_TX + of_nat i * 4) (ws ! i)) [0 ..< 8] @
     [Write32 GPUEB_IO_SET 0 GPUEB_IO_CHANNEL]"

definition rx_script :: "io_event list" where
  "rx_script = Read32 GPUEB_IO_RECV 0 #
     map (\<lambda>i. Read32 GPUEB_IO_DATA (GPUEB_IO_RX + of_nat i * 4)) [0 ..< 8] @
     [Write32 GPUEB_IO_CLEAR 0 GPUEB_IO_CHANNEL]"

definition transaction ::
  "io_event list \<Rightarrow> gpueb_io_core \<Rightarrow> io_event list \<Rightarrow> int \<Rightarrow> gpueb_io_core \<Rightarrow> io_event list \<Rightarrow> bool" where
  "transaction script c tr ret c' tr' \<longleftrightarrow>
    (\<exists>n \<le> length script. tr' = tr @ take n script \<and>
      (if n = 0 then c' = c \<and> ret \<noteq> 0
       else c' = c\<lparr> physical_uncertain := 1 \<rparr> \<and> (n = length script \<and> ret = 0 \<or> n = 1 \<and> ret \<in> {- EBUSY, - EAGAIN}) \<or>
            c' = c\<lparr> physical_uncertain := 1, io_first_error := ret, io_phase := GPUEB_IO_QUARANTINED \<rparr> \<and> ret < 0))"

lemma transaction_none: "ret \<noteq> 0 \<Longrightarrow> transaction script c tr ret c tr"
  unfolding transaction_def by (rule exI [of _ 0]) simp

lemma transaction_busy:
  "script = e # es \<Longrightarrow> ret \<in> {- EBUSY, - EAGAIN} \<Longrightarrow>
   transaction script c tr ret (c\<lparr> physical_uncertain := 1 \<rparr>) (tr @ [e])"
  unfolding transaction_def by (rule exI [of _ 1]) simp

lemma transaction_fault:
  "0 < n \<Longrightarrow> n \<le> length script \<Longrightarrow> ret < 0 \<Longrightarrow>
   transaction script c tr ret (c\<lparr> physical_uncertain := 1, io_first_error := ret, io_phase := GPUEB_IO_QUARANTINED \<rparr>)
     (tr @ take n script)"
  unfolding transaction_def by (rule exI [of _ n]) simp

lemma transaction_whole:
  "0 < length script \<Longrightarrow> transaction script c tr 0 (c\<lparr> physical_uncertain := 1 \<rparr>) (tr @ script)"
  unfolding transaction_def by (rule exI [of _ "length script"]) simp

section \<open>Lemmas\<close>

lemma io_guard_cases:
  obtains ret where "io_guard (At p c) ops = (ret, At p c)" "ret \<noteq> 0"
    | "io_guard (At p c) ops = (0, At p (c\<lparr> physical_uncertain := 1 \<rparr>))" "io_first_error c = 0"
      "io_phase c = GPUEB_IO_TRANSACTION" "users c \<noteq> 0"
proof (cases "fst (io_guard (At p c) ops) = 0")
  case True
  then show thesis by (intro that(2)) (cases ops; auto split: if_splits)+
next
  case False
  then show thesis by (intro that(1) [of "fst (io_guard (At p c) ops)"]) (cases ops; auto)+
qed

text \<open>A fault of an owner without an error so far quarantines it with that error.\<close>

lemma io_fault_first:
  assumes "io_first_error c = 0"
  shows "\<exists>r < 0. io_fault (At p (c\<lparr> physical_uncertain := 1 \<rparr>)) e =
    (r, At p (c\<lparr> physical_uncertain := 1, io_first_error := r, io_phase := GPUEB_IO_QUARANTINED \<rparr>))"
  using assms by (intro exI [of _ "if e < 0 then e else - EIO"]) (auto simp: io_fault_def Let_def)

lemma call_read32_trace: "call_read32 ops region off d = (ret, v, d') \<Longrightarrow> snd d' = snd d @ [Read32 region off]"
  by (auto simp: call_read32_def split: prod.splits)

lemma call_write32_trace: "call_write32 ops region off v d = (ret, d') \<Longrightarrow> snd d' = snd d @ [Write32 region off v]"
  by (auto simp: call_write32_def split: prod.splits)

lemma tx_loop_trace:
  assumes "tx_loop ops ws is d = (ret, d')"
  shows "\<exists>n \<le> length is. (if ret = 0 then n = length is else 0 < n) \<and> snd d' = snd d @
    take n (map (\<lambda>i. Write32 GPUEB_IO_DATA (GPUEB_IO_TX + of_nat i * 4) (ws ! i)) is)"
  using assms
proof (induction "is" arbitrary: d)
  case Nil
  then show ?case by auto
next
  case (Cons i "is")
  obtain r e where w: "call_write32 ops GPUEB_IO_DATA (GPUEB_IO_TX + of_nat i * 4) (ws ! i) d = (r, e)" by (metis prod.exhaust)
  note tr = call_write32_trace [OF w]
  show ?case
  proof (cases "r = 0")
    case True
    then obtain n where "n \<le> length is" "if ret = 0 then n = length is else 0 < n"
        "snd d' = snd e @ take n (map (\<lambda>i. Write32 GPUEB_IO_DATA (GPUEB_IO_TX + of_nat i * 4) (ws ! i)) is)"
      using Cons.IH [where d = e] Cons.prems w by auto
    then show ?thesis using tr by (intro exI [of _ "Suc n"]) auto
  next
    case False
    then show ?thesis using Cons.prems w tr by (intro exI [of _ 1]) auto
  qed
qed

lemma rx_loop_trace:
  assumes "rx_loop ops xs is d = (ret, ys, d')"
  shows "\<exists>n \<le> length is. (if ret = 0 then n = length is else 0 < n) \<and> snd d' = snd d @
    take n (map (\<lambda>i. Read32 GPUEB_IO_DATA (GPUEB_IO_RX + of_nat i * 4)) is)"
  using assms
proof (induction "is" arbitrary: d xs)
  case Nil
  then show ?case by auto
next
  case (Cons i "is")
  obtain r v e where w: "call_read32 ops GPUEB_IO_DATA (GPUEB_IO_RX + of_nat i * 4) d = (r, v, e)"
    by (metis prod.exhaust)
  note tr = call_read32_trace [OF w]
  show ?case
  proof (cases "r = 0")
    case True
    then obtain n where "n \<le> length is" "if ret = 0 then n = length is else 0 < n"
        "snd d' = snd e @ take n (map (\<lambda>i. Read32 GPUEB_IO_DATA (GPUEB_IO_RX + of_nat i * 4)) is)"
      using Cons.IH [where d = e and xs = "xs[i := v]"] Cons.prems w by auto
    then show ?thesis using tr by (intro exI [of _ "Suc n"]) auto
  next
    case False
    then show ?thesis using Cons.prems w tr by (intro exI [of _ 1]) auto
  qed
qed

lemma fault_transaction:
  assumes "io_first_error c = 0" and "io_fault (At p (c\<lparr> physical_uncertain := 1 \<rparr>)) e = (ret, core)"
    and "tr' = tr @ take k script" and "0 < k" and "k \<le> length script"
  shows "\<exists>c'. core = At p c' \<and> transaction script c tr ret c' tr'"
  using io_fault_first [OF assms(1), of p e] assms(2-) transaction_fault [of k script _ c tr] by auto

lemma tx_transaction:
  assumes "gpueb_io_tx (At p c) ops words count d = (ret, core, d')"
  shows "\<exists>c'. core = At p c' \<and> transaction (tx_script (contents words)) c (snd d) ret c' (snd d')"
proof (cases "words = Null \<or> count \<noteq> GPUEB_IO_WORDS")
  case True
  then show ?thesis using assms by (auto simp: gpueb_io_tx_def transaction_none)
next
  case args: False
  let ?s = "tx_script (contents words)"
  have len: "length ?s = 10" and hd: "?s = Read32 GPUEB_IO_SEND 0 # tl ?s"
    and one: "take 1 ?s = [Read32 GPUEB_IO_SEND 0]" by (simp_all add: tx_script_def)
  note run = assms [unfolded gpueb_io_tx_def]
  show ?thesis
  proof (cases rule: io_guard_cases [of p c ops])
    case (1 r)
    then show ?thesis using args assms by (auto simp: gpueb_io_tx_def transaction_none)
  next
    case 2
    obtain r1 v e where rd: "call_read32 ops GPUEB_IO_SEND 0 d = (r1, v, e)" by (metis prod.exhaust)
    obtain r2 e2 where lp: "tx_loop ops (contents words) [0 ..< GPUEB_IO_WORDS] e = (r2, e2)" by (metis prod.exhaust)
    obtain r3 e3 where wr: "call_write32 ops GPUEB_IO_SET 0 GPUEB_IO_CHANNEL e2 = (r3, e3)" by (metis prod.exhaust)
    obtain n where n: "n \<le> 8" "if r2 = 0 then n = 8 else 0 < n" "snd e2 = snd d @ take (Suc n) ?s"
      using tx_loop_trace [OF lp] call_read32_trace [OF rd]
      by (auto simp: tx_script_def GPUEB_IO_WORDS_def simp del: upt_rec_numeral)
    have whole: "snd e3 = snd d @ ?s" if "r2 = 0"
      using n that call_write32_trace [OF wr] by (simp add: tx_script_def)
    note fault = fault_transaction [OF 2(2), of p]
    consider "r1 \<noteq> 0" | "r1 = 0" "v AND GPUEB_IO_CHANNEL \<noteq> 0" | "r1 = 0" "v AND GPUEB_IO_CHANNEL = 0" "r2 \<noteq> 0"
      | "r1 = 0" "v AND GPUEB_IO_CHANNEL = 0" "r2 = 0" "r3 \<noteq> 0"
      | "r1 = 0" "v AND GPUEB_IO_CHANNEL = 0" "r2 = 0" "r3 = 0" by blast
    then show ?thesis
    proof cases
      case 1
      then show ?thesis
        using run args 2 rd call_read32_trace [OF rd] one len
        by (intro fault [of r1 _ _ _ _ 1]) (auto split: prod.splits)
    next
      case a: 2
      then show ?thesis using run args 2 rd call_read32_trace [OF rd] transaction_busy [OF hd] by auto
    next
      case a: 3
      then show ?thesis
        using run args 2 rd lp n len by (intro fault [of r2 _ _ _ _ "Suc n"]) (auto split: prod.splits)
    next
      case a: 4
      then show ?thesis
        using run args 2 rd lp wr whole len by (intro fault [of r3 _ _ _ _ 10]) (auto split: prod.splits)
    next
      case a: 5
      then show ?thesis using run args 2 rd lp wr whole transaction_whole [of ?s c "snd d"] len by auto
    qed
  qed
qed

text \<open>The words that successive reads of the receive slot return.\<close>

fun words_read :: "'w gpueb_io_ops ptr \<Rightarrow> nat list \<Rightarrow> 'w bus \<Rightarrow> u32 list" where
  "words_read ops [] d = []"
| "words_read ops (i # is) d =
    (case call_read32 ops GPUEB_IO_DATA (GPUEB_IO_RX + of_nat i * 4) d of (ret, v, d) \<Rightarrow> v # words_read ops is d)"

lemma rx_loop_words:
  assumes "rx_loop ops xs [k ..< length xs] d = (0, ys, d')" and "k \<le> length xs"
  shows "ys = take k xs @ words_read ops [k ..< length xs] d"
  using assms
proof (induction "length xs - k" arbitrary: k xs d)
  case 0
  then show ?case by simp
next
  case (Suc m)
  then have k: "k < length xs" "[k ..< length xs] = k # [Suc k ..< length xs]" by (simp_all add: upt_rec)
  obtain r v e where rd: "call_read32 ops GPUEB_IO_DATA (GPUEB_IO_RX + of_nat k * 4) d = (r, v, e)"
    by (metis prod.exhaust)
  have "rx_loop ops (xs[k := v]) [Suc k ..< length (xs[k := v])] e = (0, ys, d')"
    using Suc.prems(1) k rd by (auto split: if_splits)
  from Suc.hyps(1) [OF _ this] Suc.hyps(2) k show ?case
    by (simp add: rd take_Suc_conv_app_nth)
qed

lemma rx_transaction:
  assumes "gpueb_io_rx (At p c) ops words count d = (ret, core, out, d')"
  shows "\<exists>c'. core = At p c' \<and> transaction rx_script c (snd d) ret c' (snd d') \<and>
    out = (if ret = 0 then store words (blit (contents words) 0
             (words_read ops [0 ..< 8] (snd (snd (call_read32 ops GPUEB_IO_RECV 0 d))))) else words)"
proof (cases "words = Null \<or> count \<noteq> GPUEB_IO_WORDS")
  case True
  then show ?thesis using assms by (auto simp: gpueb_io_rx_def transaction_none)
next
  case args: False
  let ?s = "rx_script"
  have len: "length ?s = 10" and hd: "?s = Read32 GPUEB_IO_RECV 0 # tl ?s"
    and one: "take 1 ?s = [Read32 GPUEB_IO_RECV 0]" by (simp_all add: rx_script_def)
  note run = assms [unfolded gpueb_io_rx_def]
  show ?thesis
  proof (cases rule: io_guard_cases [of p c ops])
    case (1 r)
    then show ?thesis using args assms by (auto simp: gpueb_io_rx_def transaction_none)
  next
    case 2
    obtain r1 v e where rd: "call_read32 ops GPUEB_IO_RECV 0 d = (r1, v, e)" by (metis prod.exhaust)
    obtain r2 ys e2 where lp: "rx_loop ops (replicate GPUEB_IO_WORDS 0) [0 ..< GPUEB_IO_WORDS] e = (r2, ys, e2)"
      by (metis prod.exhaust)
    obtain r3 e3 where wr: "call_write32 ops GPUEB_IO_CLEAR 0 GPUEB_IO_CHANNEL e2 = (r3, e3)" by (metis prod.exhaust)
    obtain n where n: "n \<le> 8" "if r2 = 0 then n = 8 else 0 < n" "snd e2 = snd d @ take (Suc n) ?s"
      using rx_loop_trace [OF lp] call_read32_trace [OF rd]
      by (auto simp: rx_script_def GPUEB_IO_WORDS_def simp del: upt_rec_numeral)
    have whole: "snd e3 = snd d @ ?s" if "r2 = 0"
      using n that call_write32_trace [OF wr] by (simp add: rx_script_def)
    have ys: "ys = words_read ops [0 ..< 8] e" if "r2 = 0"
      using rx_loop_words [of ops "replicate 8 0" 0 e ys e2] lp that by (simp add: GPUEB_IO_WORDS_def)
    have fault: ?thesis if "io_fault (At p (c\<lparr> physical_uncertain := 1 \<rparr>)) f = (ret, core)" "out = words"
      "snd d' = snd d @ take k ?s" "0 < k" "k \<le> 10" for f k
      using fault_transaction [OF 2(2) that(1,3,4)] io_fault_first [OF 2(2), of p f] that len by auto
    consider "r1 \<noteq> 0" | "r1 = 0" "v AND GPUEB_IO_CHANNEL = 0" | "r1 = 0" "v AND GPUEB_IO_CHANNEL \<noteq> 0" "r2 \<noteq> 0"
      | "r1 = 0" "v AND GPUEB_IO_CHANNEL \<noteq> 0" "r2 = 0" "r3 \<noteq> 0"
      | "r1 = 0" "v AND GPUEB_IO_CHANNEL \<noteq> 0" "r2 = 0" "r3 = 0" by blast
    then show ?thesis
    proof cases
      case 1
      then show ?thesis
        using run args 2 rd call_read32_trace [OF rd] one len by (intro fault [of r1 1]) (auto split: prod.splits)
    next
      case a: 2
      then show ?thesis using run args 2 rd call_read32_trace [OF rd] transaction_busy [OF hd] by auto
    next
      case a: 3
      then show ?thesis
        using run args 2 rd lp n len by (intro fault [of r2 "Suc n"]) (auto split: prod.splits)
    next
      case a: 4
      then show ?thesis
        using run args 2 rd lp wr whole len by (intro fault [of r3 10]) (auto split: prod.splits)
    next
      case a: 5
      then show ?thesis
        using run args 2 rd lp wr whole transaction_whole [of ?s c "snd d"] len ys by auto
    qed
  qed
qed

lemma gpr_transaction:
  assumes "gpueb_io_gpr_read (At p c) ops off out d = (ret, core, out', d')"
  shows "\<exists>c'. core = At p c' \<and> transaction [Read32 GPUEB_IO_GPR off] c (snd d) ret c' (snd d') \<and>
    (snd d' = snd d \<or> gpueb_io_bounds GPUEB_IO_GPR off 4 = 0)"
proof (cases "out = Null \<or> gpueb_io_bounds GPUEB_IO_GPR off 4 \<noteq> 0")
  case True
  then show ?thesis
    using assms by (cases "out = Null") (auto simp: gpueb_io_gpr_read_def Let_def transaction_none)
next
  case args: False
  note run = assms [unfolded gpueb_io_gpr_read_def Let_def]
  show ?thesis
  proof (cases rule: io_guard_cases [of p c ops])
    case (1 r)
    then show ?thesis using args run by (auto simp: transaction_none)
  next
    case 2
    obtain r1 v e where rd: "call_read32 ops GPUEB_IO_GPR off d = (r1, v, e)" by (metis prod.exhaust)
    note tr = call_read32_trace [OF rd]
    show ?thesis
    proof (cases "r1 = 0")
      case True
      then show ?thesis using run args 2 rd tr transaction_whole [of "[Read32 GPUEB_IO_GPR off]" c "snd d"] by auto
    next
      case False
      then have "\<exists>c'. core = At p c' \<and> transaction [Read32 GPUEB_IO_GPR off] c (snd d) ret c' (snd d')"
        using run args 2 rd tr by (intro fault_transaction [OF 2(2), of p r1 _ _ _ _ 1]) (auto split: prod.splits)
      then show ?thesis using args by simp
    qed
  qed
qed

section \<open>Runs\<close>

datatype io_call = Io_get | Io_put | Io_tx "u32 list ptr" nat | Io_rx "u32 list ptr" nat | Io_gpr_read u32 "u32 ptr"
  | Io_quiesce | Io_quarantine int

definition io_step ::
  "'w gpueb_io_ops ptr \<Rightarrow> io_call \<Rightarrow> gpueb_io_core ptr \<times> 'w bus \<Rightarrow> (gpueb_io_core ptr \<times> 'w bus) \<times> int" where
  "io_step ops call s = (case s of (core, d) \<Rightarrow> (case call of
      Io_get \<Rightarrow> (case gpueb_io_get core of (ret, core) \<Rightarrow> ((core, d), ret))
    | Io_put \<Rightarrow> (case gpueb_io_put core of (ret, core) \<Rightarrow> ((core, d), ret))
    | Io_tx words count \<Rightarrow> (case gpueb_io_tx core ops words count d of (ret, core, d) \<Rightarrow> ((core, d), ret))
    | Io_rx words count \<Rightarrow> (case gpueb_io_rx core ops words count d of (ret, core, out, d) \<Rightarrow> ((core, d), ret))
    | Io_gpr_read off out \<Rightarrow> (case gpueb_io_gpr_read core ops off out d of (ret, core, out, d) \<Rightarrow> ((core, d), ret))
    | Io_quiesce \<Rightarrow> (case gpueb_io_quiesce core of (ret, core) \<Rightarrow> ((core, d), ret))
    | Io_quarantine err \<Rightarrow> (case gpueb_io_quarantine core err of (ret, core) \<Rightarrow> ((core, d), ret))))"

text \<open>
  The accesses the scope may make: aligned reads inside a region; writes only to the eight
  words of the transmit slot, and of the channel's own bit to the doorbell and the clear register.
\<close>

fun permitted :: "io_event \<Rightarrow> bool" where
  "permitted (Read32 region off) \<longleftrightarrow> gpueb_io_bounds region off 4 = 0"
| "permitted (Write32 region off v) \<longleftrightarrow> gpueb_io_bounds region off 4 = 0 \<and>
    (case region of
       GPUEB_IO_DATA \<Rightarrow> 0x10 \<le> off \<and> off < 0x30
     | GPUEB_IO_SET \<Rightarrow> v = 2
     | GPUEB_IO_CLEAR \<Rightarrow> v = 2
     | _ \<Rightarrow> False)"

definition io_ok :: "gpueb_io_core ptr \<times> 'w bus \<Rightarrow> bool" where
  "io_ok s \<longleftrightarrow> (case s of (core, (w, tr)) \<Rightarrow> core \<noteq> Null \<and>
     io_first_error (contents core) \<le> 0 \<and>
     (io_first_error (contents core) \<noteq> 0 \<longrightarrow> io_phase (contents core) = GPUEB_IO_QUARANTINED) \<and>
     (tr \<noteq> [] \<longrightarrow> physical_uncertain (contents core) \<noteq> 0) \<and> (\<forall>e \<in> set tr. permitted e))"

lemma permitted_scripts:
  "e \<in> set (tx_script ws) \<Longrightarrow> permitted e"
  "e \<in> set rx_script \<Longrightarrow> permitted e"
  by (auto simp: tx_script_def rx_script_def upt_rec gpueb_io_bounds_def io_map_defs Let_def)

lemma transaction_events:
  "transaction script c tr ret c' tr' \<Longrightarrow> e \<in> set tr' \<Longrightarrow> e \<notin> set tr \<Longrightarrow> e \<in> set script"
  by (auto simp: transaction_def dest: in_set_takeD)

lemma transaction_state:
  assumes "transaction script c tr ret c' tr'"
  shows "c' = c \<and> tr' = tr \<or> physical_uncertain c' = 1 \<and>
    (io_first_error c' = io_first_error c \<and> io_phase c' = io_phase c \<or>
     io_first_error c' < 0 \<and> io_phase c' = GPUEB_IO_QUARANTINED)"
proof -
  obtain n where "tr' = tr @ take n script"
      "if n = 0 then c' = c \<and> ret \<noteq> 0
       else c' = c\<lparr> physical_uncertain := 1 \<rparr> \<and> (n = length script \<and> ret = 0 \<or> n = 1 \<and> ret \<in> {- EBUSY, - EAGAIN}) \<or>
            c' = c\<lparr> physical_uncertain := 1, io_first_error := ret, io_phase := GPUEB_IO_QUARANTINED \<rparr> \<and> ret < 0"
    using assms by (auto simp: transaction_def)
  then consider "c' = c" "tr' = tr" | "c' = c\<lparr> physical_uncertain := 1 \<rparr>"
    | "c' = c\<lparr> physical_uncertain := 1, io_first_error := ret, io_phase := GPUEB_IO_QUARANTINED \<rparr>" "ret < 0"
    by (cases "n = 0") auto
  then show ?thesis by cases simp_all
qed

lemma transaction_ok:
  assumes ok: "io_ok (At p c, (w, tr))" and tra: "transaction script c tr ret c' tr'"
    and perm: "\<And>e. e \<in> set tr' \<Longrightarrow> e \<notin> set tr \<Longrightarrow> permitted e"
  shows "io_ok (At p c', (v, tr'))"
proof -
  have "\<forall>e \<in> set tr'. permitted e" using ok perm by (auto simp: io_ok_def)
  then show ?thesis
    using ok transaction_state [OF tra] by (auto simp: io_ok_def)
qed

lemma io_step_ok:
  assumes "io_ok s"
  shows "io_ok (fst (io_step ops call s))"
proof -
  obtain p c w tr where s: "s = (At p c, (w, tr))" 
    using assms by (cases s; cases "fst s") (auto simp: io_ok_def)
  note ok = assms [unfolded s]
  show ?thesis
  proof (cases call)
    case (Io_tx words count)
    obtain ret core w' tr' where run: "gpueb_io_tx (At p c) ops words count (w, tr) = (ret, core, (w', tr'))"
      by (metis prod.exhaust)
    from tx_transaction [OF run] obtain c' where c': "core = At p c'"
      and tra: "transaction (tx_script (contents words)) c tr ret c' tr'" by auto
    from transaction_ok [OF ok tra permitted_scripts(1) [OF transaction_events [OF tra]]] show ?thesis by (simp add: s Io_tx io_step_def run c')
  next
    case (Io_rx words count)
    obtain ret core out w' tr' where run: "gpueb_io_rx (At p c) ops words count (w, tr) = (ret, core, out, (w', tr'))"
      by (metis prod.exhaust)
    from rx_transaction [OF run] obtain c' where c': "core = At p c'"
      and tra: "transaction rx_script c tr ret c' tr'" by auto
    from transaction_ok [OF ok tra permitted_scripts(2) [OF transaction_events [OF tra]]] show ?thesis by (simp add: s Io_rx io_step_def run c')
  next
    case (Io_gpr_read off out)
    obtain ret core out' w' tr' where run: "gpueb_io_gpr_read (At p c) ops off out (w, tr) = (ret, core, out', (w', tr'))"
      by (metis prod.exhaust)
    from gpr_transaction [OF run] obtain c' where c': "core = At p c'"
      and tra: "transaction [Read32 GPUEB_IO_GPR off] c tr ret c' tr'"
      and b: "tr' = tr \<or> gpueb_io_bounds GPUEB_IO_GPR off 4 = 0" by auto
    from b have "permitted e" if "e \<in> set tr'" "e \<notin> set tr" for e
      using transaction_events [OF tra that] that by auto
    from transaction_ok [OF ok tra this] show ?thesis by (simp add: s Io_gpr_read io_step_def run c')
  qed (use ok in \<open>auto simp: s io_step_def io_ok_def Let_def\<close>)
qed

interpretation io_kept: invariant_owner "io_step ops" io_ok for ops :: "'w gpueb_io_ops ptr"
  by unfold_locales (rule io_step_ok)

text \<open>A quarantined scope.\<close>

definition io_dead :: "gpueb_io_core ptr \<Rightarrow> bool" where
  "io_dead core \<longleftrightarrow> core \<noteq> Null \<and> io_first_error (contents core) \<noteq> 0 \<and> io_phase (contents core) = GPUEB_IO_QUARANTINED"

lemma io_guard_dead: "io_dead core \<Longrightarrow> fst (io_guard core ops) \<noteq> 0 \<and> snd (io_guard core ops) = core"
  by (cases core; cases ops) (auto simp: io_dead_def)

lemma io_step_dead:
  assumes "io_dead core" 
  shows "snd (fst (io_step ops call (core, d))) = d \<and> io_dead (fst (fst (io_step ops call (core, d)))) \<and>
    io_first_error (contents (fst (fst (io_step ops call (core, d))))) = io_first_error (contents core)"
proof -
  obtain p c where core: "core = At p c" using assms by (cases core) (auto simp: io_dead_def)
  obtain r where g: "io_guard core ops = (r, core)" "r \<noteq> 0"
    using io_guard_dead [OF assms, of ops] by (metis prod.collapse)
  show ?thesis
    using assms g
    by (cases call) (auto simp: core io_step_def gpueb_io_tx_def gpueb_io_rx_def gpueb_io_gpr_read_def io_dead_def Let_def)
qed

interpretation io_latch: latched_owner "io_step ops" "\<lambda>s. io_dead (fst s)" "\<lambda>s. io_first_error (contents (fst s))"
  for ops :: "'w gpueb_io_ops ptr"
  by unfold_locales (metis io_step_dead prod.collapse)+

lemma io_run_silent: "io_dead (fst s) \<Longrightarrow> snd (fst (run_ops (io_step ops) calls s)) = snd s"
proof (induction calls arbitrary: s)
  case (Cons x xs)
  have "snd (fst (io_step ops x s)) = snd s" "io_dead (fst (fst (io_step ops x s)))"
    using io_step_dead [OF Cons.prems, of ops x "snd s"] by simp_all
  then show ?case using Cons.IH by simp
qed simp

section \<open>The transmit transaction on the driver's accessors\<close>

lemma write_in_bounds:
  assumes "permitted (Write32 region off v)"
  shows "call_write32 (At q (mmio_ops regs)) region off v (w, tr) = (0, (writel regs region off v w, tr @ [Write32 region off v]))"
  using assms by (cases region) (auto simp: call_write32_def mmio_ops_def scope_write32_def)

lemma tx_loop_delivers:
  assumes "\<forall>i \<in> set is. permitted (Write32 GPUEB_IO_DATA (GPUEB_IO_TX + of_nat i * 4) (ws ! i))"
  shows "fst (tx_loop (At q (mmio_ops regs)) ws is d) = 0"
  using assms by (induction "is" arbitrary: d) (auto simp: write_in_bounds)

lemma tx_words_permitted:
  "\<forall>i \<in> set [0 ..< GPUEB_IO_WORDS]. permitted (Write32 GPUEB_IO_DATA (GPUEB_IO_TX + of_nat i * 4) (ws ! i))"
  by (simp add: upt_rec gpueb_io_bounds_def io_map_defs Let_def)

lemma tx_returns_0:
  assumes "io_phase c = GPUEB_IO_TRANSACTION" and "users c \<noteq> 0" and "io_first_error c = 0"
    and "fst (readl regs GPUEB_IO_SEND 0 w) AND GPUEB_IO_CHANNEL = 0"
  shows "fst (gpueb_io_tx (At p c) (At q (mmio_ops regs)) (At b ws) GPUEB_IO_WORDS (w, tr)) = 0"
proof -
  let ?ops = "At q (mmio_ops regs)"
  obtain v u where rd: "readl regs GPUEB_IO_SEND 0 w = (v, u)" by fastforce
  have g: "io_guard (At p c) ?ops = (0, At p (c\<lparr> physical_uncertain := 1 \<rparr>))"
    using assms by (simp add: mmio_ops_def)
  have r: "call_read32 ?ops GPUEB_IO_SEND 0 (w, tr) = (0, v, (u, tr @ [Read32 GPUEB_IO_SEND 0]))"
    using rd by (simp add: call_read32_def mmio_ops_def scope_read32_def gpueb_io_bounds_def)
  obtain d where l: "tx_loop ?ops ws [0 ..< GPUEB_IO_WORDS] (u, tr @ [Read32 GPUEB_IO_SEND 0]) = (0, d)"
    using tx_loop_delivers [OF tx_words_permitted, of q regs ws "(u, tr @ [Read32 GPUEB_IO_SEND 0])"]
    by (metis prod.collapse)
  obtain u2 t2 where d: "d = (u2, t2)" by fastforce
  have "permitted (Write32 GPUEB_IO_SET 0 GPUEB_IO_CHANNEL)" by (simp add: gpueb_io_bounds_def io_map_defs Let_def)
  note wr = write_in_bounds [OF this, of q regs u2 t2]
  show ?thesis
    using assms rd by (simp add: gpueb_io_tx_def g r l d wr del: io_guard.simps)
qed

section \<open>Properties\<close>

text \<open>
  C21. On the driver's accessors a transmission succeeds whenever a user holds the scope, a
  transaction is open, no error is latched and the channel is free: the status register is
  read once, the eight words are written in order to the transmit slot of channel 1, and the
  doorbell rings once, after the last word. The slot is the one the SRAM owner's table gives
  to channel 1.
\<close>

theorem tx_delivers:
  assumes "io_phase c = GPUEB_IO_TRANSACTION" and "users c \<noteq> 0" and "io_first_error c = 0"
    and "fst (readl regs GPUEB_IO_SEND 0 w) AND GPUEB_IO_CHANNEL = 0"
  shows "\<exists>v. gpueb_io_tx (At p c) (At q (mmio_ops regs)) (At b ws) GPUEB_IO_WORDS (w, tr) =
      (0, At p (c\<lparr> physical_uncertain := 1 \<rparr>), (v, tr @ tx_script ws)) \<and>
    gpueb_sram_tx_slot 1 8 (At a old) = (0, At a (ucast GPUEB_IO_TX))"
proof -
  obtain core v tr' where run: "gpueb_io_tx (At p c) (At q (mmio_ops regs)) (At b ws) GPUEB_IO_WORDS (w, tr) = (0, core, (v, tr'))"
    using tx_returns_0 [OF assms, of p q b ws tr] by (metis prod.collapse)
  obtain c' where "core = At p c'" "transaction (tx_script ws) c tr 0 c' tr'"
    using tx_transaction [OF run] by auto
  then have "core = At p (c\<lparr> physical_uncertain := 1 \<rparr>)" "tr' = tr @ tx_script ws"
    by (auto simp: transaction_def split: if_splits)
  moreover have "gpueb_sram_tx_slot 1 8 (At a old) = (0, At a (ucast GPUEB_IO_TX))"
    by (simp add: gpueb_sram_tx_slot_def slot_words_def GPUEB_IO_TX_def)
  ultimately show ?thesis using run by auto
qed

definition idle_registers :: "unit registers" where
  "idle_registers = \<lparr> readl = (\<lambda>region off w. (0, w)), writel = (\<lambda>region off v w. w) \<rparr>"

theorem tx_delivers_witness:
  "fst (gpueb_io_tx (At 64 \<lparr> io_phase = GPUEB_IO_TRANSACTION, users = 1, physical_uncertain = 0, io_first_error = 0 \<rparr>)
     (At 128 (mmio_ops idle_registers)) (At 256 [1, 2, 3, 4, 5, 6, 7, 8]) GPUEB_IO_WORDS ((), [])) = 0"
  using tx_delivers [of "\<lparr> io_phase = GPUEB_IO_TRANSACTION, users = 1, physical_uncertain = 0, io_first_error = 0 \<rparr>"
      idle_registers "()" 64 128 256 "[1, 2, 3, 4, 5, 6, 7, 8]" "[]" 0 0]
  by (auto simp: idle_registers_def)

text \<open>
  C22. Whatever the callbacks answer, a transmission and a reception carry out their script of
  accesses up to some point and nothing else: each stops before its first access with the
  owner unchanged, after the status register because the channel is not ready, or at a failing
  access, and then the owner is quarantined with the returned status as its first error; it
  returns 0 exactly when the whole script ran. The caller's buffer changes only on success,
  and then holds the eight words read.
\<close>

theorem io_transactions_complete:
  "(case gpueb_io_tx (At p c) ops words count d of (ret, core, d') \<Rightarrow>
     \<exists>c'. core = At p c' \<and> transaction (tx_script (contents words)) c (snd d) ret c' (snd d')) \<and>
   (case gpueb_io_rx (At p c) ops words count d of (ret, core, out, d') \<Rightarrow>
     \<exists>c'. core = At p c' \<and> transaction rx_script c (snd d) ret c' (snd d') \<and>
       out = (if ret = 0 then store words (blit (contents words) 0
               (words_read ops [0 ..< 8] (snd (snd (call_read32 ops GPUEB_IO_RECV 0 d))))) else words))"
proof
  show "case gpueb_io_tx (At p c) ops words count d of (ret, core, d') \<Rightarrow>
     \<exists>c'. core = At p c' \<and> transaction (tx_script (contents words)) c (snd d) ret c' (snd d')"
    by (split prod.split)+ (use tx_transaction in blast)
  obtain ret core out d' where run: "gpueb_io_rx (At p c) ops words count d = (ret, core, out, d')"
    by (metis prod.exhaust)
  show "case gpueb_io_rx (At p c) ops words count d of (ret, core, out, d') \<Rightarrow>
     \<exists>c'. core = At p c' \<and> transaction rx_script c (snd d) ret c' (snd d') \<and>
       out = (if ret = 0 then store words (blit (contents words) 0
               (words_read ops [0 ..< 8] (snd (snd (call_read32 ops GPUEB_IO_RECV 0 d))))) else words)"
    unfolding run prod.case by (rule rx_transaction [OF run])
qed


text \<open>
  C24. A quarantined scope stays quarantined with its first error, and makes no access any more,
  whatever is called.
\<close>

theorem io_quarantine_final:
  assumes "io_dead core"
  shows "case run_ops (io_step ops) calls (core, d) of ((core', d'), results) \<Rightarrow>
    io_dead core' \<and> io_first_error (contents core') = io_first_error (contents core) \<and> d' = d"
  using io_latch.failed_run [of "(core, d)" ops calls] io_latch.err_run [of "(core, d)" ops calls]
    io_run_silent [of "(core, d)" ops calls] assms
  by (simp add: case_prod_unfold)

theorem io_quarantine_final_witness:
  "case run_ops (io_step (At 128 (mmio_ops idle_registers))) [Io_get, Io_tx (At 256 [1, 2, 3, 4, 5, 6, 7, 8]) 8, Io_quiesce]
      (snd (gpueb_io_quarantine (At 64 \<lparr> io_phase = GPUEB_IO_TRANSACTION, users = 1, physical_uncertain = 0, io_first_error = 0 \<rparr>) (- 5)), ((), [])) of
     ((core', d'), results) \<Rightarrow> io_dead core' \<and> io_first_error (contents core') = - 5 \<and> d' = ((), [])"
  using io_quarantine_final [where core = "snd (gpueb_io_quarantine (At 64 \<lparr> io_phase = GPUEB_IO_TRANSACTION, users = 1, physical_uncertain = 0, io_first_error = 0 \<rparr>) (- 5))"
      and ops = "At 128 (mmio_ops idle_registers)" and calls = "[Io_get, Io_tx (At 256 [1, 2, 3, 4, 5, 6, 7, 8]) 8, Io_quiesce]" and d = "((), [])"]
  by (simp add: io_dead_def Let_def)

end
