(* ===== verification/Gpueb_Segments.thy ===== *)
theory Gpueb_Segments
  imports Tetris_Prelude
begin

text \<open>
  The inspector of GPU controller firmware images of
  \<^verbatim>\<open>patches/gpu/uboot-segments/tetris_gpueb_segments.c\<close>: the vendor's partition framing and RISC-V
  ELF files of both classes are reduced to a table of segments, with every size and address kept
  at 64 bits. The theorem shows that a loader that follows a table never leaves the file or the
  announced memory span and never writes a byte twice.
\<close>

unbundle bit_operations_syntax

section \<open>Data\<close>

definition TETRIS_GPUEB_MAX_SEGMENTS :: nat where [simp]: "TETRIS_GPUEB_MAX_SEGMENTS = 16"

datatype tetris_gpueb_segment_format =
  TETRIS_GPUEB_SEGMENTS_UNKNOWN | TETRIS_GPUEB_SEGMENTS_RISCV_ELF32 |
  TETRIS_GPUEB_SEGMENTS_RISCV_ELF64 | TETRIS_GPUEB_SEGMENTS_MTK_PT

record tetris_gpueb_segment =
  seg_file_offset :: u32
  seg_file_bytes :: u32
  seg_memory_offset :: u32
  seg_memory_bytes :: u32
  seg_flags :: u32
  seg_pt_id :: u32
  seg_pt_alignment :: u32

record tetris_gpueb_segment_info =
  info_format :: tetris_gpueb_segment_format
  info_count :: nat
  info_memory_span :: u32
  info_entry_offset :: u32
  info_trailer_bytes :: u32
  info_segments :: "tetris_gpueb_segment list"

definition zero_segment :: tetris_gpueb_segment where
  "zero_segment = \<lparr> seg_file_offset = 0, seg_file_bytes = 0, seg_memory_offset = 0, seg_memory_bytes = 0,
     seg_flags = 0, seg_pt_id = 0, seg_pt_alignment = 0 \<rparr>"

definition zero_info :: tetris_gpueb_segment_info where
  "zero_info = \<lparr> info_format = TETRIS_GPUEB_SEGMENTS_UNKNOWN, info_count = 0, info_memory_span = 0,
     info_entry_offset = 0, info_trailer_bytes = 0,
     info_segments = replicate TETRIS_GPUEB_MAX_SEGMENTS zero_segment \<rparr>"

text \<open>Five words and sixteen segments of seven words.\<close>

definition sizeof_info :: u64 where "sizeof_info = 468"

section \<open>Helpers\<close>

definition little :: "bytes \<Rightarrow> nat \<Rightarrow> u64" where
  "little p n = fold (\<lambda>i v. v OR push_bit (8 * i) (ucast (p ! i))) [0..<n] 0"

definition within :: "u64 \<Rightarrow> u64 \<Rightarrow> u64 \<Rightarrow> bool" where
  "within offset len limit \<longleftrightarrow> offset \<le> limit \<and> len \<le> limit - offset"

definition intersects :: "u64 \<Rightarrow> u64 \<Rightarrow> u64 \<Rightarrow> u64 \<Rightarrow> bool" where
  "intersects a na b nb \<longleftrightarrow> na \<noteq> 0 \<and> nb \<noteq> 0 \<and> (if a \<le> b then b - a < na else a - b < nb)"

section \<open>The partition framing\<close>

text \<open>One record, with its offset after the header; the loop appends to the segments found so far.\<close>

definition pt_segment :: "bytes \<Rightarrow> u64 \<Rightarrow> tetris_gpueb_segment" where
  "pt_segment h offset = zero_segment\<lparr> seg_file_offset := ucast (offset + 24),
     seg_file_bytes := ucast (little (drop 8 h) 4), seg_pt_id := ucast (little (drop 16 h) 4),
     seg_pt_alignment := ucast (little (drop 12 h) 4) \<rparr>"

function pt_loop :: "bytes \<Rightarrow> u64 \<Rightarrow> u64 \<Rightarrow> tetris_gpueb_segment list \<Rightarrow>
    int + u64 \<times> tetris_gpueb_segment list" where
  "pt_loop p bytes offset segments =
    (let h = drop (unat offset) p in
     if bytes - offset \<ge> 24 \<and> little h 4 = 0x58901690 then
       if length segments \<ge> TETRIS_GPUEB_MAX_SEGMENTS \<or> little (drop 4 h) 4 \<noteq> 24 \<or> little (drop 20 h) 4 \<noteq> 0
       then Inl (- EINVAL)
       else let len = little (drop 8 h) 4; alignment = little (drop 12 h) 4 in
         if len = 0 \<or> alignment = 0 \<or> alignment > 0x10000 \<or> alignment AND (alignment - 1) \<noteq> 0 \<or>
            len > bytes - offset - 24 then Inl (- EINVAL)
         else let aligned = (len + alignment - 1) AND NOT (alignment - 1) in
           if aligned > bytes - offset - 24 then Inl (- EINVAL)
           else pt_loop p bytes (offset + (24 + aligned)) (segments @ [pt_segment h offset])
     else Inr (offset, segments))"
  by auto
termination by (relation "measure (\<lambda>(p, bytes, offset, segments). 16 - length segments)") auto

text \<open>The characters of the digest after the marker, in ASCII.\<close>

definition hex_digit :: "u8 \<Rightarrow> bool" where
  "hex_digit c \<longleftrightarrow> 0x30 \<le> c \<and> c \<le> 0x39 \<or> 0x61 \<le> c \<and> c \<le> 0x66"

definition inspect_pt :: "bytes \<Rightarrow> u64 \<Rightarrow> int + tetris_gpueb_segment_info" where
  "inspect_pt p bytes =
    (case pt_loop p bytes 0 [] of
       Inl e \<Rightarrow> Inl e
     | Inr (offset, segments) \<Rightarrow>
         if segments = [] then Inl (- EINVAL)
         else let result = zero_info\<lparr> info_count := length segments,
                             info_segments := blit (info_segments zero_info) 0 segments \<rparr> in
           if offset \<noteq> bytes then
             let tail = take (unat (bytes - offset)) (drop (unat offset) p) in
             if bytes - offset \<noteq> 43 \<or> take 3 tail \<noteq> [0x45, 0x4e, 0x44] then Inl (- EINVAL)
             else if \<not> list_all hex_digit (drop 3 tail) then Inl (- EINVAL)
             else Inr (result\<lparr> info_trailer_bytes := 43, info_format := TETRIS_GPUEB_SEGMENTS_MTK_PT \<rparr>)
           else Inr (result\<lparr> info_format := TETRIS_GPUEB_SEGMENTS_MTK_PT \<rparr>))"

section \<open>ELF\<close>

record segment_load =
  load_file :: u64
  load_filesz :: u64
  load_addr :: u64
  load_memsz :: u64
  load_flags :: u64

record load_state =
  st_loads :: "segment_load list"
  st_base :: u64
  st_limit :: u64
  st_entry_found :: bool

text \<open>\<open>narrow\<close> is class 1: addresses and sizes of four bytes instead of eight.\<close>

definition word_of :: "bool \<Rightarrow> bytes \<Rightarrow> nat \<Rightarrow> nat \<Rightarrow> u64" where
  "word_of narrow p at32 at64 = little (drop (if narrow then at32 else at64) p) (if narrow then 4 else 8)"

definition header_load :: "bool \<Rightarrow> bytes \<Rightarrow> segment_load" where
  "header_load narrow h =
     \<lparr> load_file = word_of narrow h 4 8, load_filesz = word_of narrow h 16 32,
       load_addr = word_of narrow h 12 24, load_memsz = word_of narrow h 20 40,
       load_flags = little (drop (if narrow then 24 else 4) h) 4 \<rparr>"

definition load_refused :: "bool \<Rightarrow> u64 \<Rightarrow> segment_load \<Rightarrow> u64 \<Rightarrow> bool" where
  "load_refused narrow bytes l align \<longleftrightarrow>
     load_memsz l = 0 \<or> load_filesz l > load_memsz l \<or> load_memsz l > 0x40000 \<or>
     load_addr l > NOT 0 - load_memsz l \<or>
     narrow \<and> load_addr l + load_memsz l > 0x100000000 \<or>
     \<not> within (load_file l) (load_filesz l) bytes \<or> load_flags l AND 4 = 0 \<or> load_flags l AND NOT 7 \<noteq> 0 \<or>
     align > 1 \<and> (align AND (align - 1) \<noteq> 0 \<or> align > 0x10000 \<or>
       load_addr l AND (align - 1) \<noteq> load_file l AND (align - 1))"

definition load_conflict :: "segment_load \<Rightarrow> segment_load \<Rightarrow> bool" where
  "load_conflict l m \<longleftrightarrow>
     intersects (load_addr l) (load_memsz l) (load_addr m) (load_memsz m) \<or>
     intersects (load_file l) (load_filesz l) (load_file m) (load_filesz m)"

definition add_load :: "u64 \<Rightarrow> segment_load \<Rightarrow> load_state \<Rightarrow> load_state" where
  "add_load entry l st =
     \<lparr> st_loads = st_loads st @ [l],
       st_base = (if load_addr l < st_base st then load_addr l else st_base st),
       st_limit = (if load_addr l + load_memsz l > st_limit st then load_addr l + load_memsz l else st_limit st),
       st_entry_found = (st_entry_found st \<or>
         load_flags l AND 1 \<noteq> 0 \<and> entry \<ge> load_addr l \<and> entry - load_addr l < load_filesz l) \<rparr>"

fun ph_loop :: "bool \<Rightarrow> u64 \<Rightarrow> u64 \<Rightarrow> bytes list \<Rightarrow> load_state \<Rightarrow> int + load_state" where
  "ph_loop narrow bytes entry [] st = Inr st"
| "ph_loop narrow bytes entry (h # hs) st =
    (if little h 4 = 0 then ph_loop narrow bytes entry hs st
     else if little h 4 \<noteq> 1 then Inl (- EINVAL)
     else let l = header_load narrow h in
       if load_addr l \<noteq> word_of narrow h 8 16 then Inl (- EINVAL)
       else if load_refused narrow bytes l (word_of narrow h 28 48) then Inl (- EINVAL)
       else if list_ex (load_conflict l) (st_loads st) then Inl (- EINVAL)
       else ph_loop narrow bytes entry hs (add_load entry l st))"

definition segment_of :: "u64 \<Rightarrow> segment_load \<Rightarrow> tetris_gpueb_segment" where
  "segment_of base l = zero_segment\<lparr> seg_file_offset := ucast (load_file l), seg_file_bytes := ucast (load_filesz l),
     seg_memory_offset := ucast (load_addr l - base), seg_memory_bytes := ucast (load_memsz l),
     seg_flags := ucast (load_flags l) \<rparr>"

definition elf_info :: "bool \<Rightarrow> u64 \<Rightarrow> load_state \<Rightarrow> int + tetris_gpueb_segment_info" where
  "elf_info narrow entry st =
    (if st_loads st = [] \<or> \<not> st_entry_found st \<or> st_limit st - st_base st > 0x40000 then Inl (- EINVAL)
     else Inr (zero_info\<lparr>
       info_format := (if narrow then TETRIS_GPUEB_SEGMENTS_RISCV_ELF32 else TETRIS_GPUEB_SEGMENTS_RISCV_ELF64),
       info_count := length (st_loads st),
       info_memory_span := ucast (st_limit st - st_base st),
       info_entry_offset := ucast (entry - st_base st),
       info_segments := blit (info_segments zero_info) 0 (map (segment_of (st_base st)) (st_loads st)) \<rparr>))"

definition inspect_elf :: "bytes \<Rightarrow> u64 \<Rightarrow> int + tetris_gpueb_segment_info" where
  "inspect_elf p bytes =
    (if bytes < 16 \<or> p ! 4 \<noteq> 1 \<and> p ! 4 \<noteq> 2 \<or> p ! 5 \<noteq> 1 \<or> p ! 6 \<noteq> 1 then Inl (- EINVAL)
     else
       let narrow = (p ! 4 = 1); ehsize = (if narrow then 52 else 64); phsize = (if narrow then 32 else 56) in
       if bytes < ehsize \<or> little (drop 16 p) 2 \<noteq> 2 \<or> little (drop 18 p) 2 \<noteq> 243 \<or> little (drop 20 p) 4 \<noteq> 1 \<or>
          little (drop (if narrow then 40 else 52) p) 2 \<noteq> ehsize \<or>
          little (drop (if narrow then 42 else 54) p) 2 \<noteq> phsize then Inl (- EINVAL)
       else
         let entry = word_of narrow p 24 24; phoff = word_of narrow p 28 32;
             phnum = little (drop (if narrow then 44 else 56) p) 2 in
         if phnum = 0 \<or> phnum > 16 \<or> phoff < ehsize \<or> \<not> within phoff (phnum * phsize) bytes then Inl (- EINVAL)
         else
           case ph_loop narrow bytes entry
                  (map (\<lambda>i. drop (unat phoff + i * unat phsize) p) [0..<unat phnum])
                  \<lparr> st_loads = [], st_base = NOT 0, st_limit = 0, st_entry_found = False \<rparr> of
             Inl e \<Rightarrow> Inl e
           | Inr st \<Rightarrow> elf_info narrow entry st)"

definition tetris_gpueb_inspect_segments ::
  "bytes ptr \<Rightarrow> u64 \<Rightarrow> tetris_gpueb_segment_info ptr \<Rightarrow> int \<times> tetris_gpueb_segment_info ptr" where
  "tetris_gpueb_inspect_segments authenticated bytes out =
    (let input = address authenticated; output = address out; p = contents authenticated;
         finish = (\<lambda>r. case r of Inl e \<Rightarrow> (e, out) | Inr info \<Rightarrow> (0, store out info)) in
     if authenticated = Null \<or> out = Null \<or> bytes = 0 \<or> bytes > 0x100000 \<or>
        bytes > NOT 0 - input \<or> sizeof_info > NOT 0 - output \<or>
        input < output + sizeof_info \<and> output < input + bytes then (- EINVAL, out)
     else if bytes \<ge> 4 \<and> little p 4 = 0x58901690 then finish (inspect_pt p bytes)
     else if bytes < 4 \<or> take 4 p \<noteq> [0x7f, 0x45, 0x4c, 0x46] then (0, store out zero_info)
     else finish (inspect_elf p bytes))"

section \<open>What a table promises\<close>

definition apart :: "nat \<Rightarrow> nat \<Rightarrow> nat \<Rightarrow> nat \<Rightarrow> bool" where
  "apart a na b nb \<longleftrightarrow> {a..<a + na} \<inter> {b..<b + nb} = {}"

definition in_file :: "u64 \<Rightarrow> tetris_gpueb_segment \<Rightarrow> bool" where
  "in_file bytes g \<longleftrightarrow> unat (seg_file_offset g) + unat (seg_file_bytes g) \<le> unat bytes"

definition file_apart :: "tetris_gpueb_segment \<Rightarrow> tetris_gpueb_segment \<Rightarrow> bool" where
  "file_apart g k \<longleftrightarrow> apart (unat (seg_file_offset g)) (unat (seg_file_bytes g))
     (unat (seg_file_offset k)) (unat (seg_file_bytes k))"

definition memory_apart :: "tetris_gpueb_segment \<Rightarrow> tetris_gpueb_segment \<Rightarrow> bool" where
  "memory_apart g k \<longleftrightarrow> apart (unat (seg_memory_offset g)) (unat (seg_memory_bytes g))
     (unat (seg_memory_offset k)) (unat (seg_memory_bytes k))"

definition in_memory :: "nat \<Rightarrow> tetris_gpueb_segment \<Rightarrow> bool" where
  "in_memory span g \<longleftrightarrow> unat (seg_file_bytes g) \<le> unat (seg_memory_bytes g) \<and>
     unat (seg_memory_offset g) + unat (seg_memory_bytes g) \<le> span"

definition holds_entry :: "nat \<Rightarrow> tetris_gpueb_segment \<Rightarrow> bool" where
  "holds_entry entry g \<longleftrightarrow> seg_flags g AND 1 \<noteq> 0 \<and> unat (seg_memory_offset g) \<le> entry \<and>
     entry < unat (seg_memory_offset g) + unat (seg_file_bytes g)"

definition table_sound :: "u64 \<Rightarrow> tetris_gpueb_segment_info \<Rightarrow> bool" where
  "table_sound bytes info =
    (let segments = take (info_count info) (info_segments info) in
     case info_format info of
       TETRIS_GPUEB_SEGMENTS_UNKNOWN \<Rightarrow> info = zero_info
     | TETRIS_GPUEB_SEGMENTS_MTK_PT \<Rightarrow>
         0 < length segments \<and> length segments = info_count info \<and>
         list_all (in_file bytes) segments \<and> sorted_wrt file_apart segments
     | _ \<Rightarrow>
         length segments = info_count info \<and>
         list_all (in_file bytes) segments \<and> sorted_wrt file_apart segments \<and>
         unat (info_memory_span info) \<le> 0x40000 \<and>
         list_all (in_memory (unat (info_memory_span info))) segments \<and> sorted_wrt memory_apart segments \<and>
         list_ex (holds_entry (unat (info_entry_offset info))) segments)"

section \<open>ELF tables are sound\<close>

lemma within_iff: "within offset len limit \<longleftrightarrow> unat offset + unat len \<le> unat limit"
  using unat_sub [of offset limit] by (auto simp: within_def word_le_nat_alt)

lemma intersects_iff:
  "intersects a na b nb \<longleftrightarrow> \<not> apart (unat a) (unat na) (unat b) (unat nb)"
proof (cases "na = 0 \<or> nb = 0")
  case True
  then show ?thesis by (auto simp: intersects_def apart_def)
next
  case False
  then have pos: "0 < unat na" "0 < unat nb" by (simp_all add: unat_gt_0)
  show ?thesis
  proof (cases "a \<le> b")
    case True
    then have le: "unat a \<le> unat b" "unat (b - a) = unat b - unat a" by (simp_all add: unat_sub word_le_nat_alt)
    have "apart (unat a) (unat na) (unat b) (unat nb) \<longleftrightarrow> unat a + unat na \<le> unat b"
      using le pos by (auto simp: apart_def disjoint_iff)
    then show ?thesis using True False le by (auto simp: intersects_def word_less_nat_alt)
  next
    case ba: False
    then have le: "unat b < unat a" "unat (a - b) = unat a - unat b"
      using unat_sub [of b a] by (simp_all add: word_le_nat_alt)
    have "apart (unat a) (unat na) (unat b) (unat nb) \<longleftrightarrow> unat b + unat nb \<le> unat a"
      using le pos by (auto simp: apart_def disjoint_iff)
    then show ?thesis using ba False le by (auto simp: intersects_def word_less_nat_alt)
  qed
qed

definition load_ok :: "u64 \<Rightarrow> segment_load \<Rightarrow> bool" where
  "load_ok bytes l \<longleftrightarrow> unat (load_filesz l) \<le> unat (load_memsz l) \<and> 0 < unat (load_memsz l) \<and>
     unat (load_memsz l) \<le> 0x40000 \<and> unat (load_addr l) + unat (load_memsz l) < 2 ^ 64 \<and>
     unat (load_file l) + unat (load_filesz l) \<le> unat bytes"

definition loads_apart :: "segment_load \<Rightarrow> segment_load \<Rightarrow> bool" where
  "loads_apart l m \<longleftrightarrow>
     apart (unat (load_addr l)) (unat (load_memsz l)) (unat (load_addr m)) (unat (load_memsz m)) \<and>
     apart (unat (load_file l)) (unat (load_filesz l)) (unat (load_file m)) (unat (load_filesz m))"

definition load_entry :: "u64 \<Rightarrow> segment_load \<Rightarrow> bool" where
  "load_entry entry l \<longleftrightarrow> load_flags l AND 1 \<noteq> 0 \<and> unat (load_addr l) \<le> unat entry \<and>
     unat entry < unat (load_addr l) + unat (load_filesz l)"

definition loads_inv :: "u64 \<Rightarrow> u64 \<Rightarrow> load_state \<Rightarrow> bool" where
  "loads_inv bytes entry st \<longleftrightarrow>
     (\<forall>l \<in> set (st_loads st). load_ok bytes l \<and> unat (st_base st) \<le> unat (load_addr l) \<and>
        unat (load_addr l) + unat (load_memsz l) \<le> unat (st_limit st)) \<and>
     sorted_wrt loads_apart (st_loads st) \<and>
     (st_entry_found st \<longrightarrow> (\<exists>l \<in> set (st_loads st). load_entry entry l))"

lemma load_admitted:
  assumes "\<not> load_refused narrow bytes l align"
  shows "load_ok bytes l"
proof -
  have "unat (NOT 0 - load_memsz l :: u64) = 2 ^ 64 - 1 - unat (load_memsz l)"
    using unat_sub [of "load_memsz l" "- 1"] by (simp add: unsigned_minus_1_eq_mask mask_eq_exp_minus_1)
  moreover have "unat (load_memsz l) < 2 ^ 64" using unsigned_less [of "load_memsz l", where ?'a = nat] by simp
  ultimately show ?thesis
    using assms by (auto simp: load_refused_def load_ok_def within_iff word_less_nat_alt unat_gt_0)
qed

lemma apart_commute: "apart a na b nb \<longleftrightarrow> apart b nb a na"
  by (auto simp: apart_def)

lemma add_load_inv:
  assumes "loads_inv bytes entry st" and "\<not> load_refused narrow bytes l align"
    and "\<not> list_ex (load_conflict l) (st_loads st)"
  shows "loads_inv bytes entry (add_load entry l st)"
proof -
  note ok = load_admitted [OF assms(2)]
  have sum: "unat (load_addr l + load_memsz l) = unat (load_addr l) + unat (load_memsz l)"
    using ok by (simp add: load_ok_def unat_add_lem [THEN iffD1])
  have apart: "loads_apart m l" if "m \<in> set (st_loads st)" for m
    using assms(3) that apart_commute
    by (auto simp: list_ex_iff load_conflict_def intersects_iff loads_apart_def)
  have entry: "load_entry entry l"
    if "load_flags l AND 1 \<noteq> 0" "load_addr l \<le> entry" "entry - load_addr l < load_filesz l"
    using that by (auto simp: load_entry_def unat_sub word_le_nat_alt word_less_nat_alt)
  have each: "load_ok bytes m \<and> unat (st_base st) \<le> unat (load_addr m) \<and>
      unat (load_addr m) + unat (load_memsz m) \<le> unat (st_limit st)" if "m \<in> set (st_loads st)" for m
    using assms(1) that by (simp add: loads_inv_def)
  have old: "sorted_wrt loads_apart (st_loads st)" "st_entry_found st \<longrightarrow> (\<exists>l \<in> set (st_loads st). load_entry entry l)"
    using assms(1) by (simp_all add: loads_inv_def)
  have "load_ok bytes m \<and> unat (st_base (add_load entry l st)) \<le> unat (load_addr m) \<and>
      unat (load_addr m) + unat (load_memsz m) \<le> unat (st_limit (add_load entry l st))"
    if "m \<in> set (st_loads st) \<or> m = l" for m
    using that each [of m] ok sum by (auto simp: add_load_def word_less_nat_alt)
  moreover have "sorted_wrt loads_apart (st_loads st @ [l])"
    using old(1) apart by (simp add: sorted_wrt_append)
  ultimately show ?thesis
    using old(2) entry by (auto simp: loads_inv_def add_load_def)
qed

lemma ph_loop_inv:
  "ph_loop narrow bytes entry hs st = Inr st' \<Longrightarrow> loads_inv bytes entry st \<Longrightarrow>
   loads_inv bytes entry st' \<and> length (st_loads st') \<le> length (st_loads st) + length hs"
proof (induction hs arbitrary: st)
  case (Cons h hs)
  show ?case
  proof (cases "little h 4 = 0")
    case True
    then show ?thesis using Cons.IH [of st] Cons.prems by auto
  next
    case False
    let ?l = "header_load narrow h"
    have step: "\<not> load_refused narrow bytes ?l (word_of narrow h 28 48)" "\<not> list_ex (load_conflict ?l) (st_loads st)"
        "ph_loop narrow bytes entry hs (add_load entry ?l st) = Inr st'"
      using Cons.prems(1) False by (auto simp: Let_def split: if_splits)
    have "length (st_loads (add_load entry ?l st)) = Suc (length (st_loads st))" by (simp add: add_load_def)
    then show ?thesis
      using Cons.IH [OF step(3)] add_load_inv [OF Cons.prems(2) step(1,2)] by simp
  qed
qed simp

lemma unat_narrow: "unat w < 2 ^ 32 \<Longrightarrow> unat (ucast (w :: u64) :: u32) = unat w"
  by (simp add: unsigned_ucast_eq take_bit_nat_eq_self)

lemma segment_of_fields:
  assumes "load_ok bytes l" and "bytes \<le> 0x100000" and "unat base \<le> unat (load_addr l)"
    and "unat (load_addr l) + unat (load_memsz l) \<le> unat base + 0x40000"
  shows "unat (seg_file_offset (segment_of base l)) = unat (load_file l)"
    "unat (seg_file_bytes (segment_of base l)) = unat (load_filesz l)"
    "unat (seg_memory_offset (segment_of base l)) = unat (load_addr l) - unat base"
    "unat (seg_memory_bytes (segment_of base l)) = unat (load_memsz l)"
    "seg_flags (segment_of base l) AND 1 \<noteq> 0 \<longleftrightarrow> load_flags l AND 1 \<noteq> 0"
proof -
  have b: "unat bytes \<le> 0x100000" using assms(2) by (simp add: word_le_nat_alt)
  have d: "unat (load_addr l - base) = unat (load_addr l) - unat base"
    using assms(3) by (simp add: unat_sub word_le_nat_alt)
  show "unat (seg_file_offset (segment_of base l)) = unat (load_file l)"
    "unat (seg_file_bytes (segment_of base l)) = unat (load_filesz l)"
    "unat (seg_memory_bytes (segment_of base l)) = unat (load_memsz l)"
    using assms(1) b by (simp_all add: segment_of_def load_ok_def unat_narrow)
  show "unat (seg_memory_offset (segment_of base l)) = unat (load_addr l) - unat base"
    using assms(4) d by (simp add: segment_of_def unat_narrow)
  show "seg_flags (segment_of base l) AND 1 \<noteq> 0 \<longleftrightarrow> load_flags l AND 1 \<noteq> 0"
    by (simp add: segment_of_def and_one_eq flip: bit_0 odd_iff_mod_2_eq_one) (simp add: bit_simps)
qed

lemma apart_shift: "c \<le> a \<Longrightarrow> c \<le> b \<Longrightarrow> apart a na b nb \<Longrightarrow> apart (a - c) na (b - c) nb"
proof -
  assume c: "c \<le> a" "c \<le> b" and ab: "apart a na b nb"
  have "x + c \<in> {a..<a + na} \<inter> {b..<b + nb}" if "x \<in> {a - c..<a - c + na} \<inter> {b - c..<b - c + nb}" for x
    using that c by auto
  then show "apart (a - c) na (b - c) nb" using ab unfolding apart_def by blast
qed

lemma elf_info_sound:
  assumes st: "loads_inv bytes entry st" and count: "length (st_loads st) \<le> 16" and bytes: "bytes \<le> 0x100000"
    and info: "elf_info narrow entry st = Inr info"
  shows "table_sound bytes info"
proof -
  let ?b = "st_base st" and ?n = "st_limit st" and ?ls = "st_loads st"
  let ?segs = "map (segment_of ?b) ?ls"
  have ls: "?ls \<noteq> []" and found: "st_entry_found st" and span: "?n - ?b \<le> 0x40000"
    and i: "info = zero_info\<lparr>
       info_format := (if narrow then TETRIS_GPUEB_SEGMENTS_RISCV_ELF32 else TETRIS_GPUEB_SEGMENTS_RISCV_ELF64),
       info_count := length ?ls, info_memory_span := ucast (?n - ?b), info_entry_offset := ucast (entry - ?b),
       info_segments := blit (info_segments zero_info) 0 ?segs \<rparr>"
    using info by (auto simp: elf_info_def not_less split: if_splits)
  have each: "load_ok bytes l" "unat ?b \<le> unat (load_addr l)" "unat (load_addr l) + unat (load_memsz l) \<le> unat ?n"
    if "l \<in> set ?ls" for l using st that by (simp_all add: loads_inv_def)
  have bn: "unat ?b \<le> unat ?n" using each(2,3) [OF hd_in_set [OF ls]] by linarith
  then have d: "unat (?n - ?b) = unat ?n - unat ?b" by (simp add: unat_sub word_le_nat_alt)
  then have le: "unat ?n - unat ?b \<le> 0x40000" using span by (simp add: word_le_nat_alt)
  have hi: "unat (load_addr l) + unat (load_memsz l) \<le> unat ?b + 0x40000" if "l \<in> set ?ls" for l
    using each(3) [OF that] le bn by linarith
  note f = segment_of_fields [OF each(1) bytes each(2) hi]
  have segs: "take (info_count info) (info_segments info) = ?segs"
    using count unfolding i by (simp add: blit_def)
  have spn: "unat (info_memory_span info) = unat ?n - unat ?b"
    unfolding i using d le by (simp add: unat_narrow)
  obtain e where e: "e \<in> set ?ls" "load_entry entry e" using st found by (auto simp: loads_inv_def)
  have "unat ?b \<le> unat entry" "unat entry - unat ?b < 0x40000"
    using e each [OF e(1)] hi [OF e(1)] by (auto simp: load_entry_def load_ok_def)
  then have ent: "unat (info_entry_offset info) = unat entry - unat ?b"
    unfolding i by (simp add: unat_narrow unat_sub word_le_nat_alt)
  have "holds_entry (unat entry - unat ?b) (segment_of ?b e)"
    using e(2) each [OF e(1)] f [OF e(1) e(1) e(1)] by (auto simp: holds_entry_def load_entry_def)
  then have entry: "list_ex (holds_entry (unat (info_entry_offset info))) ?segs"
    using e(1) ent by (auto simp: list_ex_iff)
  have "in_file bytes (segment_of ?b l)" "in_memory (unat ?n - unat ?b) (segment_of ?b l)" if "l \<in> set ?ls" for l
    using each [OF that] unfolding in_file_def in_memory_def f [OF that that that] load_ok_def by linarith+
  then have "list_all (in_file bytes) ?segs" "list_all (in_memory (unat ?n - unat ?b)) ?segs"
    by (simp_all add: list_all_iff)
  moreover have "sorted_wrt loads_apart ?ls" using st by (simp add: loads_inv_def)
  then have "sorted_wrt file_apart ?segs" "sorted_wrt memory_apart ?segs"
    unfolding sorted_wrt_map
    by (rule sorted_wrt_mono_rel [rotated], use each f apart_shift in \<open>simp add: loads_apart_def file_apart_def memory_apart_def\<close>)+
  ultimately show ?thesis
    using entry le spn segs by (simp add: table_sound_def i)
qed

section \<open>Partition tables are sound\<close>

text \<open>Clearing low bits after adding them never goes below the start.\<close>

lemma clear_bits_ge:
  fixes x m :: u64
  shows "unat x - unat m \<le> unat (x AND NOT m)"
proof -
  have "x = (x AND m) OR (x AND NOT m)" by (rule bit_word_eqI) (auto simp: bit_simps)
  also have "\<dots> = (x AND m) + (x AND NOT m)"
    by (rule disjunctive_add_eq_or [symmetric]) (rule bit_word_eqI, auto simp: bit_simps)
  finally have "x - (x AND m) = x AND NOT m" by (metis add_diff_cancel_left')
  moreover have "x AND m \<le> x" "x AND m \<le> m" by (simp_all add: word_and_le2 word_and_le1)
  ultimately have "unat (x AND NOT m) = unat x - unat (x AND m)" "unat (x AND m) \<le> unat m"
    using unat_sub [of "x AND m" x] by (simp_all add: word_le_nat_alt)
  then show ?thesis by simp
qed

definition ends_by :: "nat \<Rightarrow> tetris_gpueb_segment \<Rightarrow> bool" where
  "ends_by k g \<longleftrightarrow> unat (seg_file_offset g) + unat (seg_file_bytes g) \<le> k"

definition pt_inv :: "u64 \<Rightarrow> u64 \<Rightarrow> tetris_gpueb_segment list \<Rightarrow> bool" where
  "pt_inv bytes offset segments \<longleftrightarrow> unat offset \<le> unat bytes \<and> length segments \<le> 16 \<and>
     list_all (ends_by (unat offset)) segments \<and> sorted_wrt file_apart segments"

lemma pt_step:
  assumes inv: "pt_inv bytes offset segments" and bytes: "bytes \<le> 0x100000"
    and room: "bytes - offset \<ge> 24" and count: "length segments < 16"
    and len: "little (drop 8 h) 4 \<le> bytes - offset - 24" and al: "little (drop 12 h) 4 \<noteq> 0" "little (drop 12 h) 4 \<le> 0x10000"
    and aligned: "(little (drop 8 h) 4 + little (drop 12 h) 4 - 1) AND NOT (little (drop 12 h) 4 - 1) \<le> bytes - offset - 24"
  shows "pt_inv bytes (offset + (24 + ((little (drop 8 h) 4 + little (drop 12 h) 4 - 1) AND NOT (little (drop 12 h) 4 - 1))))
     (segments @ [pt_segment h offset])"
proof -
  define l where "l = little (drop 8 h) 4"
  define a where "a = little (drop 12 h) 4"
  define x where "x = (l + a - 1) AND NOT (a - 1)"
  have b: "unat bytes \<le> 0x100000" using bytes by (simp add: word_le_nat_alt)
  have o: "unat offset \<le> unat bytes" using inv by (simp add: pt_inv_def)
  then have d: "unat (bytes - offset) = unat bytes - unat offset" by (simp add: unat_sub word_le_nat_alt)
  have r: "24 \<le> unat bytes - unat offset" using room d by (simp add: word_le_nat_alt)
  have d24: "unat (bytes - offset - 24) = unat bytes - unat offset - 24"
    using room d by (simp add: unat_sub)
  have lb: "unat l \<le> unat bytes - unat offset - 24" using len d24 by (simp add: l_def word_le_nat_alt)
  have xb: "unat x \<le> unat bytes - unat offset - 24" using aligned d24 by (simp add: x_def l_def a_def word_le_nat_alt)
  have ab: "0 < unat a" "unat a \<le> 0x10000" using al by (simp_all add: a_def word_le_nat_alt unat_gt_0)
  have "unat (l + a) = unat l + unat a" using lb ab b by (simp add: unat_add_lem [THEN iffD1])
  then have la: "unat (l + a - 1) = unat l + unat a - 1" "unat (a - 1) = unat a - 1"
    using ab by (simp_all add: unat_sub word_le_nat_alt)
  have xl: "unat l \<le> unat x" using clear_bits_ge [of "l + a - 1" "a - 1"] la ab by (simp add: x_def)
  have "unat (24 + x) = 24 + unat x" using xb b by (simp add: unat_add_lem [THEN iffD1])
  then have new: "unat (offset + (24 + x)) = unat offset + 24 + unat x"
    using xb b r by (simp add: unat_add_lem [THEN iffD1])
  have o24: "unat (offset + 24) = unat offset + 24" using r b by (simp add: unat_add_lem [THEN iffD1])
  have seg: "unat (seg_file_offset (pt_segment h offset)) = unat offset + 24"
      "unat (seg_file_bytes (pt_segment h offset)) = unat l"
    using o24 r b lb by (simp_all add: pt_segment_def unat_narrow l_def)
  have "file_apart g (pt_segment h offset)" if "g \<in> set segments" for g
    using inv that unfolding file_apart_def seg by (auto simp: pt_inv_def list_all_iff ends_by_def apart_def)
  moreover have "ends_by (unat offset + 24 + unat x) g" if "g \<in> set segments" for g
    using inv that by (auto simp: pt_inv_def list_all_iff ends_by_def)
  ultimately have "pt_inv bytes (offset + (24 + x)) (segments @ [pt_segment h offset])"
    using inv r xb xl count unfolding pt_inv_def new
    by (simp add: sorted_wrt_append list_all_iff ends_by_def seg)
  then show ?thesis by (simp only: x_def l_def a_def)
qed

declare pt_loop.simps [simp del]

lemma pt_loop_inv:
  "pt_loop p bytes offset segments = Inr (offset', segments') \<Longrightarrow> bytes \<le> 0x100000 \<Longrightarrow>
   pt_inv bytes offset segments \<Longrightarrow> pt_inv bytes offset' segments'"
proof (induction p bytes offset segments rule: pt_loop.induct)
  case (1 p bytes offset segments)
  let ?h = "drop (unat offset) p"
  show ?case
  proof (cases "bytes - offset \<ge> 24 \<and> little ?h 4 = 0x58901690")
    case False
    then show ?thesis using 1(2,4) by (auto simp: pt_loop.simps [of p bytes offset segments] Let_def)
  next
    case True
    define l where "l = little (drop 8 ?h) 4"
    define a where "a = little (drop 12 ?h) 4"
    define x where "x = (l + a - 1) AND NOT (a - 1)"
    note u = l_def [symmetric] a_def [symmetric] x_def [symmetric]
    have unfolded: "pt_loop p bytes offset segments =
      (if length segments \<ge> TETRIS_GPUEB_MAX_SEGMENTS \<or> little (drop 4 ?h) 4 \<noteq> 24 \<or> little (drop 20 ?h) 4 \<noteq> 0 then Inl (- EINVAL)
       else if l = 0 \<or> a = 0 \<or> a > 0x10000 \<or> a AND (a - 1) \<noteq> 0 \<or> l > bytes - offset - 24 then Inl (- EINVAL)
       else if x > bytes - offset - 24 then Inl (- EINVAL)
       else pt_loop p bytes (offset + (24 + x)) (segments @ [pt_segment ?h offset]))"
      unfolding pt_loop.simps [of p bytes offset segments] Let_def u if_P [OF True] ..
    have g: "\<not> (length segments \<ge> TETRIS_GPUEB_MAX_SEGMENTS \<or> little (drop 4 ?h) 4 \<noteq> 24 \<or> little (drop 20 ?h) 4 \<noteq> 0)"
      "\<not> (l = 0 \<or> a = 0 \<or> a > 0x10000 \<or> a AND (a - 1) \<noteq> 0 \<or> l > bytes - offset - 24)" "\<not> x > bytes - offset - 24"
      using 1(2) unfolding unfolded by (auto split: if_splits)
    have next_call: "pt_loop p bytes (offset + (24 + x)) (segments @ [pt_segment ?h offset]) = Inr (offset', segments')"
      using 1(2) unfolding unfolded if_not_P [OF g(1)] if_not_P [OF g(2)] if_not_P [OF g(3)] .
    have "pt_inv bytes (offset + (24 + x)) (segments @ [pt_segment ?h offset])"
      using pt_step [OF 1(4,3), of ?h, unfolded u] True g by (simp add: not_less not_le)
    then show ?thesis
      using 1(1) [OF refl True g(1) l_def a_def _ x_def] g(2,3) next_call 1(3) by simp
  qed
qed

lemma pt_loop_error: "pt_loop p bytes offset segments = Inl e \<Longrightarrow> e = - EINVAL"
  by (induction p bytes offset segments rule: pt_loop.induct)
    (subst (asm) (2) pt_loop.simps, auto simp: Let_def split: if_splits)

lemma ph_loop_error: "ph_loop narrow bytes entry hs st = Inl e \<Longrightarrow> e = - EINVAL"
  by (induction hs arbitrary: st) (auto simp: Let_def split: if_splits)

lemma inspect_pt_sound:
  assumes "inspect_pt p bytes = Inr info" and "bytes \<le> 0x100000"
  shows "table_sound bytes info"
proof -
  obtain offset segments where loop: "pt_loop p bytes 0 [] = Inr (offset, segments)"
    using assms(1) by (auto simp: inspect_pt_def split: sum.splits)
  have inv: "pt_inv bytes offset segments"
    using pt_loop_inv [OF loop assms(2)] by (simp add: pt_inv_def)
  have seg: "segments \<noteq> []" and info: "info_format info = TETRIS_GPUEB_SEGMENTS_MTK_PT"
      "info_count info = length segments" "info_segments info = blit (info_segments zero_info) 0 segments"
    using assms(1) loop by (auto simp: inspect_pt_def Let_def split: if_splits)
  have "take (length segments) (blit (info_segments zero_info) 0 segments) = segments"
    by (simp add: blit_def)
  moreover have "list_all (in_file bytes) segments"
    using inv by (auto simp: pt_inv_def list_all_iff ends_by_def in_file_def)
  ultimately show ?thesis
    using inv seg info by (simp add: table_sound_def pt_inv_def)
qed

lemma inspect_elf_sound:
  assumes "inspect_elf p bytes = Inr info" and "bytes \<le> 0x100000"
  shows "table_sound bytes info"
proof -
  define phnum where "phnum narrow = little (drop (if narrow then 44 else 56) p) 2" for narrow
  define init where "init = \<lparr> st_loads = [], st_base = NOT 0, st_limit = 0, st_entry_found = False \<rparr>"
  obtain narrow entry hs st where loop: "ph_loop narrow bytes entry hs init = Inr st"
      and info: "elf_info narrow entry st = Inr info" and hs: "length hs \<le> 16"
  proof -
    have "\<not> phnum narrow > 16 \<Longrightarrow> unat (phnum narrow) \<le> 16" for narrow by (simp add: word_less_nat_alt)
    then show ?thesis
      using assms(1) that unfolding inspect_elf_def Let_def init_def [symmetric] phnum_def [symmetric]
      by (auto split: if_splits sum.splits)
  qed
  have "loads_inv bytes entry init" by (simp add: init_def loads_inv_def)
  then have "loads_inv bytes entry st" "length (st_loads st) \<le> 16"
    using ph_loop_inv [OF loop] hs by (simp_all add: init_def)
  then show ?thesis using elf_info_sound assms(2) info by blast
qed

text \<open>A one-record partition file and its table.\<close>

definition sample_pt :: bytes where
  "sample_pt = put32 0x58901690 @ put32 24 @ put32 3 @ put32 4 @ put32 99 @ put32 0 @ [1, 2, 3, 0]"

lemma sample_pt_accepted:
  "tetris_gpueb_inspect_segments (At 0x1000 sample_pt) 28 (At 0x9000 zero_info) =
   (0, At 0x9000 (zero_info\<lparr> info_format := TETRIS_GPUEB_SEGMENTS_MTK_PT, info_count := 1,
     info_segments := zero_segment\<lparr> seg_file_offset := 24, seg_file_bytes := 3, seg_pt_id := 99,
       seg_pt_alignment := 4 \<rparr> # replicate 15 zero_segment \<rparr>))"
  by code_simp

text \<open>
  C25. The segment inspector of GPU firmware: whatever bytes it is given, it either refuses with
  its output untouched, or announces an unknown format with an empty table, or announces a
  table that is safe to follow. Every segment lies inside the file and the file ranges are
  pairwise disjoint; for an ELF image the memory ranges are pairwise disjoint too and lie inside the announced
  span of at most 256 KiB, no segment has more file bytes than memory, and the entry point lies
  in the file-backed part of an executable segment. No 64-bit address wraps on the way.
\<close>
theorem segments_table_sound:
  "let (result, out) = tetris_gpueb_inspect_segments (At a p) bytes (At b old) in
   if result = 0 then bytes \<le> 0x100000 \<and> out = At b (contents out) \<and> table_sound bytes (contents out)
   else result = - EINVAL \<and> out = At b old"
proof -
  have pt: "e = - EINVAL" if "inspect_pt p bytes = Inl e" for e
    using that pt_loop_error [of p bytes 0 "[]"] by (auto simp: inspect_pt_def Let_def split: sum.splits if_splits)
  have elf: "e = - EINVAL" if "inspect_elf p bytes = Inl e" for e
    using that ph_loop_error by (auto simp: inspect_elf_def elf_info_def Let_def split: sum.splits if_splits)
  have zero: "table_sound bytes zero_info" by (simp add: table_sound_def) (simp add: zero_info_def)
  show ?thesis
    using pt elf zero inspect_pt_sound [of p bytes] inspect_elf_sound [of p bytes]
    by (auto simp: tetris_gpueb_inspect_segments_def Let_def split: sum.splits)
qed

end
