(* ===== verification/Modem_Layout.thy ===== *)
theory Modem_Layout
  imports Tetris_Prelude
begin

text \<open>
  The memory layout of the modem, \<^verbatim>\<open>patches/modem/drafts/runtime-metadata/layout_model.h\<close>:
  the map that splits the firmware window into blocks and annotates them (\<^verbatim>\<open>annotate\<close>,
  \<^verbatim>\<open>tetris_metadata_memory\<close>, \<^verbatim>\<open>padding\<close>), and the plan that places the shared-memory entries
  (\<^verbatim>\<open>smem_place\<close>, \<^verbatim>\<open>tetris_modem_plan_smem_b41\<close>).
\<close>

unbundle bit_operations_syntax

section \<open>Data\<close>

definition TETRIS_MODEM_MAX_BLOCKS :: nat where "TETRIS_MODEM_MAX_BLOCKS = 32"

record tetris_modem_layout =
  memory_size :: u32
  logical_image_size :: u32
  layout_rom_size :: u32
  dsp_offset :: u32
  dsp_capacity :: u32
  dsp_size :: u32
  region_count :: u32

record tetris_modem_block =
  block_offset :: u32
  block_size :: u32
  block_info :: u32
  block_attributes :: u32
  physical :: u64

record tetris_modem_memory_map =
  block_count :: nat
  blocks :: "tetris_modem_block list"

record tetris_modem_smem_entry =
  entry_id :: u32
  entry_offset :: u32
  entry_size :: u32
  entry_flags :: u32

record tetris_modem_smem_inputs =
  drdi_version :: u32
  udc_en :: u32
  consys_size :: u32
  nv_cache_size :: u32
  ccb_gear :: u32

record tetris_modem_smem_plan =
  nc :: "tetris_modem_smem_entry list"
  cache :: "tetris_modem_smem_entry list"
  nc_capacity :: u32
  cache_capacity :: u32
  nc_rows :: u32
  cache_rows :: u32

section \<open>The block map\<close>

definition chk_word :: "bytes \<Rightarrow> u32" where
  "chk_word p = ucast (p ! 0) OR push_bit 8 (ucast (p ! 1)) OR
                push_bit 16 (ucast (p ! 2)) OR push_bit 24 (ucast (p ! 3))"

definition contained :: "u32 \<Rightarrow> u32 \<Rightarrow> u32 \<Rightarrow> bool" where
  "contained offset sz limit \<longleftrightarrow> sz \<noteq> 0 \<and> offset < limit \<and> sz \<le> limit - offset"

text \<open>The pieces a block is split into: what lies before the range, the range, what lies after.\<close>

definition split_parts :: "tetris_modem_block \<Rightarrow> u32 \<Rightarrow> u32 \<Rightarrow> u32 \<Rightarrow> u32 \<Rightarrow> tetris_modem_block list" where
  "split_parts old offset sz info attributes =
    (let fin = offset + sz in
     (if offset \<noteq> block_offset old then [old\<lparr> block_size := offset - block_offset old \<rparr>] else []) @
     [old\<lparr> block_offset := offset, block_size := sz, block_info := block_info old OR info,
           block_attributes := block_attributes old OR attributes \<rparr>] @
     (if fin \<noteq> block_offset old + block_size old
      then [old\<lparr> block_offset := fin, block_size := block_offset old + block_size old - fin \<rparr>] else []))"

text \<open>The loop of \<^verbatim>\<open>annotate\<close>; the list holds the indices still to be visited.\<close>

fun annotate_from ::
  "tetris_modem_memory_map \<Rightarrow> u32 \<Rightarrow> u32 \<Rightarrow> u32 \<Rightarrow> u32 \<Rightarrow> nat list \<Rightarrow> int \<times> tetris_modem_memory_map" where
  "annotate_from mp offset sz info attributes [] = (- ERANGE, mp)"
| "annotate_from mp offset sz info attributes (i # is) =
    (let old = blocks mp ! i in
     if offset < block_offset old \<or> offset - block_offset old \<ge> block_size old
     then annotate_from mp offset sz info attributes is
     else if sz > block_size old - (offset - block_offset old) then (- ERANGE, mp)
     else if offset = block_offset old \<and> sz = block_size old \<and> block_info old AND info = info \<and>
             block_attributes old AND attributes = attributes
     then (- EINVAL, mp)
     else let parts = split_parts old offset sz info attributes; count = length parts in
       if count - 1 > TETRIS_MODEM_MAX_BLOCKS - block_count mp then (- E2BIG, mp)
       else let moved = blit (blocks mp) (i + count) (take (block_count mp - i - 1) (drop (i + 1) (blocks mp)))
         in (0, mp\<lparr> blocks := blit moved i parts, block_count := block_count mp + (count - 1) \<rparr>))"

definition annotate ::
  "tetris_modem_memory_map \<Rightarrow> u32 \<Rightarrow> u32 \<Rightarrow> u32 \<Rightarrow> u32 \<Rightarrow> int \<times> tetris_modem_memory_map" where
  "annotate mp offset sz info attributes =
    (if sz = 0 then (- EINVAL, mp)
     else annotate_from mp offset sz info attributes [0 ..< block_count mp])"

text \<open>The loops of \<^verbatim>\<open>tetris_metadata_memory\<close> over regions, cacheable windows and DRDI windows.\<close>

fun annotate_regions :: "bytes \<Rightarrow> nat list \<Rightarrow> tetris_modem_memory_map \<Rightarrow> int \<times> tetris_modem_memory_map" where
  "annotate_regions header [] out = (0, out)"
| "annotate_regions header (i # is) out =
    (case annotate out (chk_word (drop (196 + 8 * i) header)) (chk_word (drop (200 + 8 * i) header)) (push_bit i 1) 0 of
       (ret, out) \<Rightarrow> if ret \<noteq> 0 then (ret, out) else annotate_regions header is out)"

fun annotate_cacheable ::
  "bytes \<Rightarrow> u64 \<Rightarrow> tetris_modem_layout \<Rightarrow> nat list \<Rightarrow> tetris_modem_memory_map \<Rightarrow> int \<times> tetris_modem_memory_map" where
  "annotate_cacheable header rom_size layout [] out = (0, out)"
| "annotate_cacheable header rom_size layout (i # is) out =
    (let offset = chk_word (drop (0x11c + 8 * i) header); sz = chk_word (drop (0x120 + 8 * i) header) in
     if sz = 0 then annotate_cacheable header rom_size layout is out
     else if \<not> contained offset sz (memory_size layout) \<or> ucast offset < rom_size \<or>
             (offset < dsp_offset layout + dsp_capacity layout \<and> dsp_offset layout < offset + sz)
     then (- ERANGE, out)
     else case annotate out offset sz 0 4 of
       (ret, out) \<Rightarrow> if ret \<noteq> 0 then (ret, out) else annotate_cacheable header rom_size layout is out)"

fun annotate_drdi :: "bytes \<Rightarrow> tetris_modem_layout \<Rightarrow> nat list \<Rightarrow> tetris_modem_memory_map \<Rightarrow> int \<times> tetris_modem_memory_map" where
  "annotate_drdi header layout [] out = (0, out)"
| "annotate_drdi header layout (i # is) out =
    (let field = (if i = 2 then 0x164 else 0x16c + 8 * i);
         offset = chk_word (drop field header); sz = chk_word (drop (field + 4) header) in
     if sz = 0 then annotate_drdi header layout is out
     else if \<not> contained offset sz (memory_size layout) then (- ERANGE, out)
     else case annotate out offset sz 0 (push_bit i 0x20) of
       (ret, out) \<Rightarrow> if ret \<noteq> 0 then (ret, out) else annotate_drdi header layout is out)"

definition zero_block :: tetris_modem_block where
  "zero_block = \<lparr> block_offset = 0, block_size = 0, block_info = 0, block_attributes = 0, physical = 0 \<rparr>"

definition locate :: "u64 \<Rightarrow> tetris_modem_memory_map \<Rightarrow> tetris_modem_memory_map" where
  "locate base mp = mp\<lparr> blocks := map (\<lambda>b. b\<lparr> physical := base + ucast (block_offset b) \<rparr>) (take (block_count mp) (blocks mp)) @
     drop (block_count mp) (blocks mp) \<rparr>"

definition tetris_metadata_memory ::
  "bytes \<Rightarrow> u64 \<Rightarrow> u64 \<Rightarrow> u64 \<Rightarrow> tetris_modem_memory_map ptr \<Rightarrow> int \<times> tetris_modem_memory_map ptr" where
  "tetris_metadata_memory chk rom_size base capacity mp =
    (if mp = Null \<or> base = 0 \<or> capacity = 0 \<or> capacity > 0xffffffff \<or> base > NOT 0 - capacity then (- EINVAL, mp)
     else let layout = \<lparr> memory_size = chk_word (drop 172 chk), logical_image_size = 0, layout_rom_size = 0,
                         dsp_offset = chk_word (drop 184 chk), dsp_capacity = chk_word (drop 188 chk), dsp_size = 0,
                         region_count = chk_word (drop 192 chk) \<rparr>;
              out = \<lparr> block_count = 1,
                      blocks = (replicate TETRIS_MODEM_MAX_BLOCKS zero_block)[0 := zero_block\<lparr> block_size := ucast capacity \<rparr>] \<rparr>
     in case annotate out 0 (memory_size layout) 0 1 of (ret, out) \<Rightarrow>
     if ret \<noteq> 0 then (ret, mp)
     else case annotate_regions chk [0 ..< unat (region_count layout)] out of (ret, out) \<Rightarrow>
     if ret \<noteq> 0 then (ret, mp)
     else case annotate out (dsp_offset layout) (dsp_capacity layout) 0 2 of (ret, out) \<Rightarrow>
     if ret \<noteq> 0 then (ret, mp)
     else case annotate_cacheable chk rom_size layout [0 ..< 8] out of (ret, out) \<Rightarrow>
     if ret \<noteq> 0 then (ret, mp)
     else case annotate_drdi chk layout [0 ..< 3] out of (ret, out) \<Rightarrow>
     if ret \<noteq> 0 then (ret, mp)
     else (0, store mp (locate base out)))"

text \<open>The three passes of \<^verbatim>\<open>padding\<close>.\<close>

fun padding_mark :: "tetris_modem_block list \<Rightarrow> tetris_modem_block list \<times> nat" where
  "padding_mark [] = ([], 0)"
| "padding_mark (b # bs) =
    (case padding_mark bs of (rest, candidates) \<Rightarrow>
     if block_attributes b AND 8 \<noteq> 0 then (b # rest, candidates + 1)
     else if block_attributes b AND 4 \<noteq> 0
     then if (case bs of [] \<Rightarrow> False | c # _ \<Rightarrow> block_info b AND block_info c AND 0xff \<noteq> 0)
          then (b\<lparr> block_attributes := block_attributes b OR 8 \<rparr> # rest, candidates + 1)
          else (b\<lparr> block_attributes := block_attributes b OR 0x10 \<rparr> # rest, candidates)
     else (b # rest, candidates))"

definition retained :: "tetris_modem_block \<Rightarrow> tetris_modem_block" where
  "retained b = b\<lparr> block_attributes := block_attributes b OR 0x10 \<rparr>"

fun padding_biggest :: "tetris_modem_block list \<Rightarrow> nat \<Rightarrow> u32 \<Rightarrow> nat \<Rightarrow> u32 \<times> nat" where
  "padding_biggest [] i biggest index = (biggest, index)"
| "padding_biggest (b # bs) i biggest index =
    (if block_attributes b AND 0x18 = 8 \<and> block_size b > biggest
     then padding_biggest bs (i + 1) (block_size b) i
     else padding_biggest bs (i + 1) biggest index)"

definition padding :: "tetris_modem_memory_map \<Rightarrow> tetris_modem_memory_map" where
  "padding mp =
    (case padding_mark (take (block_count mp) (blocks mp)) of (bs, candidates) \<Rightarrow>
     let rest = drop (block_count mp) (blocks mp) in
     if candidates \<le> 1
     then mp\<lparr> blocks := map (\<lambda>b. if block_attributes b AND 8 \<noteq> 0 then retained b else b) bs @ rest \<rparr>
     else case padding_biggest bs 0 0 0 of (biggest, index) \<Rightarrow>
       if biggest \<noteq> 0 then mp\<lparr> blocks := bs[index := retained (bs ! index)] @ rest \<rparr>
       else mp\<lparr> blocks := bs @ rest \<rparr>)"

section \<open>The shared-memory plan\<close>

text \<open>
  The loop of \<^verbatim>\<open>smem_place\<close> over the entries with their alignments: the placed entries, the
  rows and the cursor. On an error the entries placed so far keep their offsets.
\<close>

fun place_entries ::
  "tetris_modem_smem_entry list \<Rightarrow> u32 list \<Rightarrow> u32 \<Rightarrow> u64 \<Rightarrow> u32 \<Rightarrow> int \<times> tetris_modem_smem_entry list \<times> u64 \<times> u32" where
  "place_entries (e # es) (a # as) limit cursor rows =
    (let offset = (if a \<noteq> 0 then (cursor + ucast a - 1) AND NOT (ucast a - 1) else cursor);
         rows = (if offset \<noteq> cursor then rows + 1 else rows);
         cursor = offset + ucast (entry_size e) in
     if cursor > ucast limit then (- ERANGE, e # es, cursor, rows)
     else case place_entries es as limit cursor rows of (ret, placed, cursor, rows) \<Rightarrow>
       (ret, e\<lparr> entry_offset := ucast offset \<rparr> # placed, cursor, rows))"
| "place_entries es _ limit cursor rows = (0, es, cursor, rows)"

definition smem_place ::
  "tetris_modem_smem_entry list \<Rightarrow> u32 list \<Rightarrow> u32 \<Rightarrow> u32 \<Rightarrow> int \<times> tetris_modem_smem_entry list \<times> u32 \<times> u32" where
  "smem_place entries alignments limit capacity =
    (case place_entries entries alignments limit 0 (of_nat (length entries)) of (ret, placed, cursor, rows) \<Rightarrow>
     if ret \<noteq> 0 then (ret, placed, capacity, rows)
     else let cursor = (cursor + 0xffff) AND NOT 0xffff in
       if cursor = 0 \<or> cursor > ucast limit then (- ERANGE, placed, capacity, rows)
       else (0, placed, ucast cursor, rows))"

definition nc_ids :: "u32 list" where
  "nc_ids = [31, 12, 13, 37, 18, 14, 15, 33, 0, 16, 4, 7, 8, 9, 19, 20, 40, 41]"

definition nc_sizes :: "u32 list" where
  "nc_sizes = [0x10000, 0x800, 0x6000, 0x8000, 0, 0x1000, 0x400, 0x200, 0x200,
     0x8000, 0x1000, 0x2000, 0xb000, 0xd000, 0xb4400, 0x1e400, 0, 0x10000]"

definition nc_align :: "u32 list" where
  "nc_align = (replicate 18 0)[17 := 0x1000]"

definition cache_align :: "u32 list" where
  "cache_align = [0x10000, 0x40, 0x100000, 0x10000, 0x80]"

definition ccb_size_of_gear :: "u32 \<Rightarrow> u32 option" where
  "ccb_size_of_gear gear =
    (if gear = 0 \<or> gear = 1 then Some 0x1600000
     else if gear = 2 then Some 0xc00000
     else if gear = 3 then Some 0
     else if gear = 4 then Some 0x2000000
     else if gear = 11 then Some 0x400000
     else if gear = 12 then Some 0x4000000
     else if gear = 13 then Some 0x6000000
     else if gear = 16 then Some 0xc000000
     else None)"

definition nc_entries :: "tetris_modem_smem_entry list" where
  "nc_entries = map2 (\<lambda>i s. \<lparr> entry_id = i, entry_offset = 0, entry_size = s, entry_flags = 1 \<rparr>) nc_ids nc_sizes"

definition cache_entries :: "tetris_modem_smem_inputs \<Rightarrow> u32 \<Rightarrow> tetris_modem_smem_entry list" where
  "cache_entries inputs ccb_size =
    [\<lparr> entry_id = 22, entry_offset = 0, entry_size = consys_size inputs, entry_flags = 0x4a \<rparr>,
     \<lparr> entry_id = 32, entry_offset = 0,
       entry_size = (if nv_cache_size inputs \<noteq> 0 then nv_cache_size inputs else 0x300000), entry_flags = 2 \<rparr>,
     \<lparr> entry_id = 1, entry_offset = 0, entry_size = ccb_size, entry_flags = 2 \<rparr>,
     \<lparr> entry_id = 28, entry_offset = 0, entry_size = (if udc_en inputs \<noteq> 0 then 0x80000 else 0), entry_flags = 2 \<rparr>,
     \<lparr> entry_id = 24, entry_offset = 0, entry_size = 0x60000, entry_flags = 2 \<rparr>]"

definition tetris_modem_plan_smem_b41 ::
  "tetris_modem_smem_inputs ptr \<Rightarrow> tetris_modem_smem_plan ptr \<Rightarrow> int \<times> tetris_modem_smem_plan ptr" where
  "tetris_modem_plan_smem_b41 inputs plan =
    (if inputs = Null \<or> plan = Null then (- EINVAL, plan)
     else let i = contents inputs in
     if drdi_version i \<noteq> 3 \<or> udc_en i > 1 then (- EINVAL, plan)
     else case ccb_size_of_gear (ccb_gear i) of
       None \<Rightarrow> (- EINVAL, plan)
     | Some ccb_size \<Rightarrow>
       (case smem_place nc_entries nc_align 0xa000000 0 of (ret, nc', nc_cap, nc_r) \<Rightarrow>
        if ret \<noteq> 0 then (ret, plan)
        else case smem_place (cache_entries i ccb_size) cache_align 0x8000000 0 of (ret, cache', cache_cap, cache_r) \<Rightarrow>
        if ret \<noteq> 0 then (ret, plan)
        else (0, store plan \<lparr> nc = nc', cache = cache', nc_capacity = nc_cap, cache_capacity = cache_cap,
                              nc_rows = nc_r, cache_rows = cache_r \<rparr>)))"

section \<open>Specification: tilings and tags\<close>

text \<open>
  Consecutive non-empty blocks from one address to another, and what a map says about an
  address: the information and attribute bits of the block that holds it.
\<close>

fun tiles :: "nat \<Rightarrow> tetris_modem_block list \<Rightarrow> nat \<Rightarrow> bool" where
  "tiles a [] b \<longleftrightarrow> a = b"
| "tiles a (x # xs) b \<longleftrightarrow> unat (block_offset x) = a \<and> 0 < unat (block_size x) \<and> tiles (a + unat (block_size x)) xs b"

fun tag_at :: "tetris_modem_block list \<Rightarrow> nat \<Rightarrow> (u32 \<times> u32) option" where
  "tag_at [] a = None"
| "tag_at (x # xs) a =
    (if unat (block_offset x) \<le> a \<and> a < unat (block_offset x) + unat (block_size x)
     then Some (block_info x, block_attributes x) else tag_at xs a)"

definition live :: "tetris_modem_memory_map \<Rightarrow> tetris_modem_block list" where
  "live mp = take (block_count mp) (blocks mp)"

definition map_ok :: "nat \<Rightarrow> tetris_modem_memory_map \<Rightarrow> bool" where
  "map_ok n mp \<longleftrightarrow> length (blocks mp) = TETRIS_MODEM_MAX_BLOCKS \<and> block_count mp \<le> TETRIS_MODEM_MAX_BLOCKS \<and>
     n < 2 ^ 32 \<and> tiles 0 (live mp) n"

text \<open>An annotation request, and its effect on what is known about an address.\<close>

type_synonym request = "u32 \<times> u32 \<times> u32 \<times> u32"

fun covers :: "request \<Rightarrow> nat \<Rightarrow> bool" where
  "covers (offset, sz, info, attributes) a \<longleftrightarrow> unat offset \<le> a \<and> a < unat offset + unat sz"

fun add_tag :: "nat \<Rightarrow> request \<Rightarrow> u32 \<times> u32 \<Rightarrow> u32 \<times> u32" where
  "add_tag a (offset, sz, info, attributes) (i, t) =
    (if covers (offset, sz, info, attributes) a then (i OR info, t OR attributes) else (i, t))"

section \<open>Lemmas on tilings\<close>

lemma tiles_append: "tiles a (xs @ ys) b \<longleftrightarrow> (\<exists>c. tiles a xs c \<and> tiles c ys b)"
  by (induction xs arbitrary: a) auto

lemma tiles_le: "tiles a xs b \<Longrightarrow> a \<le> b"
  by (induction xs arbitrary: a) force+

lemma tag_at_append: "tag_at (xs @ ys) a = (case tag_at xs a of None \<Rightarrow> tag_at ys a | Some t \<Rightarrow> Some t)"
  by (induction xs) auto

lemma tag_at_outside: "tiles p xs q \<Longrightarrow> a < p \<or> q \<le> a \<Longrightarrow> tag_at xs a = None"
proof (induction xs arbitrary: p)
  case (Cons x xs)
  then show ?case using tiles_le [of "p + unat (block_size x)" xs q] by fastforce
qed simp

lemma tag_at_inside: "tiles p xs q \<Longrightarrow> p \<le> a \<Longrightarrow> a < q \<Longrightarrow> tag_at xs a \<noteq> None"
  by (induction xs arbitrary: p) auto

text \<open>The range of a request lies inside the block it splits.\<close>

definition fits :: "u32 \<Rightarrow> u32 \<Rightarrow> tetris_modem_block \<Rightarrow> bool" where
  "fits offset sz b \<longleftrightarrow> unat (block_offset b) \<le> unat offset \<and>
     unat offset + unat sz \<le> unat (block_offset b) + unat (block_size b)"

lemma fits_iff:
  assumes "unat (block_offset b) + unat (block_size b) < 2 ^ 32" and "sz \<noteq> 0"
  shows "fits offset sz b \<longleftrightarrow> \<not> (offset < block_offset b \<or> offset - block_offset b \<ge> block_size b) \<and>
     \<not> sz > block_size b - (offset - block_offset b)"
proof (cases "offset < block_offset b")
  case True
  then show ?thesis by (auto simp: fits_def word_less_nat_alt)
next
  case False
  then have le: "block_offset b \<le> offset" by simp
  have d: "unat (offset - block_offset b) = unat offset - unat (block_offset b)" using unat_sub [OF le] .
  have pos: "0 < unat sz" using assms(2) by (simp add: unat_gt_0)
  show ?thesis
  proof (cases "offset - block_offset b < block_size b")
    case True
    then have "unat (block_size b - (offset - block_offset b)) = unat (block_size b) - (unat offset - unat (block_offset b))"
      using unat_sub [of "offset - block_offset b" "block_size b"] d by simp
    then show ?thesis using True False le d pos
      by (auto simp: fits_def word_less_nat_alt word_le_nat_alt)
  next
    case out: False
    then show ?thesis using False le d pos by (auto simp: fits_def word_less_nat_alt word_le_nat_alt not_less)
  qed
qed

lemma split_ends:
  assumes small: "unat (block_offset old) + unat (block_size old) < 2 ^ 32" and fit: "fits offset sz old"
  shows "unat (offset + sz) = unat offset + unat sz"
  "unat (block_offset old + block_size old) = unat (block_offset old) + unat (block_size old)"
  "unat (offset - block_offset old) = unat offset - unat (block_offset old)"
  "unat (block_offset old + block_size old - (offset + sz)) =
     unat (block_offset old) + unat (block_size old) - (unat offset + unat sz)"
proof -
  show e: "unat (offset + sz) = unat offset + unat sz"
    using small fit by (auto simp: fits_def unat_add_lem [THEN iffD1])
  show t: "unat (block_offset old + block_size old) = unat (block_offset old) + unat (block_size old)"
    using small by (auto simp: unat_add_lem [THEN iffD1])
  show "unat (offset - block_offset old) = unat offset - unat (block_offset old)"
    using fit by (intro unat_sub) (simp add: fits_def word_le_nat_alt)
  show "unat (block_offset old + block_size old - (offset + sz)) =
     unat (block_offset old) + unat (block_size old) - (unat offset + unat sz)"
    using fit e t by (subst unat_sub) (auto simp: fits_def word_le_nat_alt)
qed

lemma split_tiles:
  assumes "unat (block_offset old) + unat (block_size old) < 2 ^ 32" and "fits offset sz old" and "sz \<noteq> 0"
  shows "tiles (unat (block_offset old)) (split_parts old offset sz info attributes)
    (unat (block_offset old) + unat (block_size old))"
proof -
  note ends = split_ends [OF assms(1,2)]
  have pos: "0 < unat sz" using assms(3) by (simp add: unat_gt_0)
  have eqs: "offset = block_offset old \<longleftrightarrow> unat offset = unat (block_offset old)"
      "offset + sz = block_offset old + block_size old \<longleftrightarrow> unat offset + unat sz = unat (block_offset old) + unat (block_size old)"
    using ends by (simp_all add: word_unat_eq_iff)
  show ?thesis
    using assms(2) pos unfolding split_parts_def Let_def
    by (auto simp: fits_def eqs ends tiles_append)
qed

lemma split_tag:
  assumes "unat (block_offset old) + unat (block_size old) < 2 ^ 32" and "fits offset sz old"
  shows "tag_at (split_parts old offset sz info attributes) a =
    map_option (add_tag a (offset, sz, info, attributes)) (tag_at [old] a)"
proof -
  note ends = split_ends [OF assms]
  have eqs: "offset = block_offset old \<longleftrightarrow> unat offset = unat (block_offset old)"
      "offset + sz = block_offset old + block_size old \<longleftrightarrow> unat offset + unat sz = unat (block_offset old) + unat (block_size old)"
    using ends by (simp_all add: word_unat_eq_iff)
  show ?thesis
    using assms(2) unfolding split_parts_def Let_def
    by (auto simp: fits_def eqs ends tag_at_append)
qed

text \<open>Splitting one block of a tiling leaves a tiling, and adds the tag where the request covers.\<close>

lemma tiles_block: "tiles p (xs @ old # ys) q \<Longrightarrow> tiles p xs (unat (block_offset old)) \<and>
    unat (block_offset old) + unat (block_size old) \<le> q \<and> tiles (unat (block_offset old) + unat (block_size old)) ys q"
  using tiles_le by (fastforce simp: tiles_append)

lemma split_in_tiling:
  assumes til: "tiles 0 (xs @ old # ys) n" and n: "n < 2 ^ 32" and "fits offset sz old" and "sz \<noteq> 0"
  shows "tiles 0 (xs @ split_parts old offset sz info attributes @ ys) n"
    and "tag_at (xs @ split_parts old offset sz info attributes @ ys) a =
      map_option (add_tag a (offset, sz, info, attributes)) (tag_at (xs @ old # ys) a)"
proof -
  note b = tiles_block [OF til]
  then have small: "unat (block_offset old) + unat (block_size old) < 2 ^ 32" using n by simp
  show "tiles 0 (xs @ split_parts old offset sz info attributes @ ys) n"
    using b split_tiles [OF small assms(3,4)] by (auto simp: tiles_append)
  have same: "map_option (add_tag a (offset, sz, info, attributes)) t = t"
    if "\<not> covers (offset, sz, info, attributes) a" for t
    using that by (cases t) auto
  consider "a < unat (block_offset old)" | "unat (block_offset old) \<le> a" "a < unat (block_offset old) + unat (block_size old)"
    | "unat (block_offset old) + unat (block_size old) \<le> a" by linarith
  then show "tag_at (xs @ split_parts old offset sz info attributes @ ys) a =
      map_option (add_tag a (offset, sz, info, attributes)) (tag_at (xs @ old # ys) a)"
  proof cases
    case 1
    then have "tag_at [old] a = None" "tag_at ys a = None" using b tag_at_outside by auto
    moreover have "\<not> covers (offset, sz, info, attributes) a" using 1 assms(3) by (auto simp: fits_def)
    ultimately show ?thesis
      using split_tag [OF small assms(3), of info attributes a] same 1
      by (auto simp: tag_at_append split: option.split)
  next
    case 2
    then have "tag_at xs a = None" using b tag_at_outside by auto
    then show ?thesis
      using split_tag [OF small assms(3), of info attributes a] 2 by (auto simp: tag_at_append)
  next
    case 3
    then have "tag_at xs a = None" using b tag_at_outside by auto
    moreover have "tag_at [old] a = None" using 3 by auto
    moreover have "\<not> covers (offset, sz, info, attributes) a" using 3 assms(3) by (auto simp: fits_def)
    ultimately show ?thesis
      using split_tag [OF small assms(3), of info attributes a] same 3 by (auto simp: tag_at_append)
  qed
qed

section \<open>The annotation loop\<close>

lemma live_split:
  assumes "i < block_count mp" and "block_count mp \<le> length (blocks mp)"
  shows "live mp = take i (blocks mp) @ blocks mp ! i # take (block_count mp - i - 1) (drop (i + 1) (blocks mp))"
proof -
  have "live mp = take i (live mp) @ live mp ! i # drop (Suc i) (live mp)"
    using assms by (intro id_take_nth_drop) (simp add: live_def)
  then show ?thesis using assms by (simp add: live_def drop_take)
qed

lemma blit_before: "i + length ps \<le> length bs \<Longrightarrow> blit (blit bs (i + length ps) zs) i ps = take i bs @ ps @ zs @ drop (i + length ps + length zs) bs"
  by (simp add: blit_def min_def)

lemma array_split:
  assumes "i < c" and "c + (length parts - 1) \<le> length bs" and "parts \<noteq> []"
  shows "length (blit (blit bs (i + length parts) (take (c - i - 1) (drop (i + 1) bs))) i parts) = length bs"
    and "take (c + (length parts - 1)) (blit (blit bs (i + length parts) (take (c - i - 1) (drop (i + 1) bs))) i parts) =
      take i bs @ parts @ take (c - i - 1) (drop (i + 1) bs)"
proof -
  let ?zs = "take (c - i - 1) (drop (i + 1) bs)"
  have k: "0 < length parts" using assms(3) by simp
  then have le: "i + length parts \<le> length bs" using assms(1,2) by linarith
  have "c \<le> length bs" using assms(2) by linarith
  then have zs: "length ?zs = c - i - 1" using diff_le_mono [of c "length bs" "i + 1"] by simp
  have ti: "length (take i bs) = i" using le by simp
  have total: "c + (length parts - 1) = length (take i bs @ parts @ ?zs)"
    using assms(1,2) k zs by (simp only: length_append length_take) linarith
  show "take (c + (length parts - 1)) (blit (blit bs (i + length parts) ?zs) i parts) = take i bs @ parts @ ?zs"
    unfolding blit_before [OF le] total by (metis append.assoc append_eq_conv_conj)
  show "length (blit (blit bs (i + length parts) ?zs) i parts) = length bs"
    unfolding blit_before [OF le] using assms(1,2) k zs ti by (simp only: length_append length_drop) linarith
qed

lemma split_parts_not_Nil: "split_parts old offset sz info attributes \<noteq> []"
  by (simp add: split_parts_def Let_def)

lemma block_small:
  assumes "map_ok n mp" and "i < block_count mp"
  shows "unat (block_offset (blocks mp ! i)) + unat (block_size (blocks mp ! i)) < 2 ^ 32"
  using assms live_split [of i mp]
    tiles_block [of 0 "take i (blocks mp)" "blocks mp ! i" "take (block_count mp - i - 1) (drop (i + 1) (blocks mp))" n]
  by (auto simp: map_ok_def)

text \<open>A successful annotation splits the one block that holds the range; otherwise the map is untouched.\<close>

definition split_at ::
  "u32 \<Rightarrow> u32 \<Rightarrow> u32 \<Rightarrow> u32 \<Rightarrow> tetris_modem_memory_map \<Rightarrow> tetris_modem_memory_map \<Rightarrow> bool" where
  "split_at offset sz info attributes mp mp' \<longleftrightarrow> length (blocks mp') = TETRIS_MODEM_MAX_BLOCKS \<and>
     block_count mp' \<le> TETRIS_MODEM_MAX_BLOCKS \<and>
     (\<exists>xs old ys. live mp = xs @ old # ys \<and> fits offset sz old \<and>
        live mp' = xs @ split_parts old offset sz info attributes @ ys)"

lemma annotate_from_cases:
  assumes ok: "map_ok n mp" and pos: "sz \<noteq> 0" and "\<forall>i \<in> set is. i < block_count mp"
    and "annotate_from mp offset sz info attributes is = (ret, mp')"
  shows "ret < 0 \<and> mp' = mp \<or> ret = 0 \<and> split_at offset sz info attributes mp mp'"
  using assms(3,4)
proof (induction "is")
  case Nil
  then show ?case by simp
next
  case (Cons i "is")
  let ?b = "blocks mp ! i"
  let ?same = "offset = block_offset ?b \<and> sz = block_size ?b \<and> block_info ?b AND info = info \<and>
     block_attributes ?b AND attributes = attributes" and ?parts = "split_parts (blocks mp ! i) offset sz info attributes"
  have i: "i < block_count mp" using Cons.prems by simp
  note fit = fits_iff [OF block_small [OF ok i] pos, of offset]
  have len: "length (blocks mp) = 32" "block_count mp \<le> 32" using ok by (simp_all add: map_ok_def TETRIS_MODEM_MAX_BLOCKS_def)
  show ?case
  proof (cases "offset < block_offset ?b \<or> offset - block_offset ?b \<ge> block_size ?b")
    case True
    then show ?thesis using Cons by (simp add: Let_def)
  next
    case False
    note body = Cons.prems(2) [unfolded annotate_from.simps Let_def if_not_P [OF False]]
    consider "sz > block_size ?b - (offset - block_offset ?b)"
      | "\<not> sz > block_size ?b - (offset - block_offset ?b)" "?same"
      | "\<not> sz > block_size ?b - (offset - block_offset ?b)" "\<not> ?same" "length ?parts - 1 > TETRIS_MODEM_MAX_BLOCKS - block_count mp"
      | "\<not> sz > block_size ?b - (offset - block_offset ?b)" "\<not> ?same" "\<not> length ?parts - 1 > TETRIS_MODEM_MAX_BLOCKS - block_count mp"
      by blast
    then show ?thesis
    proof cases
      case 1
      from body [unfolded if_P [OF this]] show ?thesis by simp
    next
      case 2
      from body [unfolded if_not_P [OF 2(1)] if_P [OF 2(2)]] show ?thesis by simp
    next
      case 3
      from body [unfolded if_not_P [OF 3(1)] if_not_P [OF 3(2)] if_P [OF 3(3)]] show ?thesis by simp
    next
      case 4
      then have room: "block_count mp + (length ?parts - 1) \<le> length (blocks mp)"
        using len by (simp add: TETRIS_MODEM_MAX_BLOCKS_def)
      note arr = array_split [OF i room split_parts_not_Nil]
      have run: "ret = 0" "mp' = mp\<lparr> blocks := blit (blit (blocks mp) (i + length ?parts)
            (take (block_count mp - i - 1) (drop (i + 1) (blocks mp)))) i ?parts,
          block_count := block_count mp + (length ?parts - 1) \<rparr>"
        using body [unfolded if_not_P [OF 4(1)] if_not_P [OF 4(2)] if_not_P [OF 4(3)]] by (simp_all only: prod.inject)
      have "live mp' = take i (blocks mp) @ ?parts @ take (block_count mp - i - 1) (drop (i + 1) (blocks mp))"
        using arr(2) by (simp add: run live_def)
      moreover have "length (blocks mp') = 32" "block_count mp' \<le> 32" using arr(1) len room by (simp_all add: run)
      ultimately have "split_at offset sz info attributes mp mp'"
        using live_split [OF i] len fit 4(1) False by (auto simp: split_at_def TETRIS_MODEM_MAX_BLOCKS_def)
      then show ?thesis using run by simp
    qed
  qed
qed

lemma annotate_cases:
  assumes "map_ok n mp" and "annotate mp offset sz info attributes = (ret, mp')"
  shows "ret < 0 \<and> mp' = mp \<or> ret = 0 \<and> sz \<noteq> 0 \<and> split_at offset sz info attributes mp mp'"
  using assms annotate_from_cases [OF assms(1), of sz "[0 ..< block_count mp]" offset info attributes ret mp']
  by (auto simp: annotate_def split: if_splits)

text \<open>What an annotation, and a list of them, does to a map.\<close>

definition annotated :: "nat \<Rightarrow> request list \<Rightarrow> tetris_modem_memory_map \<Rightarrow> tetris_modem_memory_map \<Rightarrow> bool" where
  "annotated n reqs mp mp' \<longleftrightarrow> map_ok n mp' \<and>
     (\<forall>a. tag_at (live mp') a = map_option (fold (add_tag a) reqs) (tag_at (live mp) a))"

lemma annotated_Nil: "map_ok n mp \<Longrightarrow> annotated n [] mp mp"
  by (simp add: annotated_def option.map_id)

lemma annotated_trans: "annotated n xs a b \<Longrightarrow> annotated n ys b c \<Longrightarrow> annotated n (xs @ ys) a c"
  by (auto simp: annotated_def option.map_comp)

lemma annotated_ok: "annotated n xs a b \<Longrightarrow> map_ok n b"
  by (simp add: annotated_def)

lemma annotate_annotated:
  assumes ok: "map_ok n mp" and run: "annotate mp offset sz info attributes = (0, mp')"
  shows "annotated n [(offset, sz, info, attributes)] mp mp'"
proof -
  have sp: "split_at offset sz info attributes mp mp'" and pos: "sz \<noteq> 0" using annotate_cases [OF ok run] by auto
  then obtain xs old ys where l: "live mp = xs @ old # ys" "fits offset sz old"
      "live mp' = xs @ split_parts old offset sz info attributes @ ys" by (auto simp: split_at_def)
  have til: "tiles 0 (xs @ old # ys) n" "n < 2 ^ 32" using ok l by (simp_all add: map_ok_def)
  show ?thesis
    using split_in_tiling [OF til l(2) pos, of info attributes] sp til(2)
    by (auto simp: annotated_def map_ok_def split_at_def l)
qed

section \<open>The firmware window\<close>

lemma unat_ucast_small_u32: "(w :: u64) \<le> 0xffffffff \<Longrightarrow> unat (ucast w :: u32) = unat w"
  by (simp add: unsigned_ucast_eq take_bit_nat_eq_self word_le_nat_alt)

text \<open>The annotation requests that the header of a firmware image asks for.\<close>

definition region_requests :: "bytes \<Rightarrow> nat list \<Rightarrow> request list" where
  "region_requests chk is = map (\<lambda>i. (chk_word (drop (196 + 8 * i) chk), chk_word (drop (200 + 8 * i) chk), push_bit i 1, 0)) is"

definition cacheable_requests :: "bytes \<Rightarrow> nat list \<Rightarrow> request list" where
  "cacheable_requests chk is = filter (\<lambda>(offset, sz, info, attributes). sz \<noteq> 0)
     (map (\<lambda>i. (chk_word (drop (0x11c + 8 * i) chk), chk_word (drop (0x120 + 8 * i) chk), 0, 4)) is)"

definition drdi_requests :: "bytes \<Rightarrow> nat list \<Rightarrow> request list" where
  "drdi_requests chk is = filter (\<lambda>(offset, sz, info, attributes). sz \<noteq> 0)
     (map (\<lambda>i. let field = (if i = 2 then 0x164 else 0x16c + 8 * i)
               in (chk_word (drop field chk), chk_word (drop (field + 4) chk), 0, push_bit i 0x20)) is)"

definition window_requests :: "bytes \<Rightarrow> request list" where
  "window_requests chk =
     (0, chk_word (drop 172 chk), 0, 1) # region_requests chk [0 ..< unat (chk_word (drop 192 chk))] @
     (chk_word (drop 184 chk), chk_word (drop 188 chk), 0, 2) #
     cacheable_requests chk [0 ..< 8] @ drdi_requests chk [0 ..< 3]"

lemma annotated_step:
  assumes "map_ok n mp" and "annotate mp offset sz info attributes = (r, mp1)" and "r = 0"
    and "map_ok n mp1 \<Longrightarrow> annotated n reqs mp1 mp'"
  shows "annotated n ((offset, sz, info, attributes) # reqs) mp mp'"
  using annotate_annotated [OF assms(1), of offset sz info attributes mp1] assms annotated_trans annotated_ok
  by fastforce

lemma annotate_regions_annotated:
  "map_ok n mp \<Longrightarrow> annotate_regions chk is mp = (0, mp') \<Longrightarrow> annotated n (region_requests chk is) mp mp'"
proof (induction "is" arbitrary: mp)
  case Nil
  then show ?case by (simp add: region_requests_def annotated_Nil)
next
  case (Cons i "is")
  obtain r mp1 where run: "annotate mp (chk_word (drop (196 + 8 * i) chk)) (chk_word (drop (200 + 8 * i) chk)) (push_bit i 1) 0 = (r, mp1)"
    by fastforce
  show ?case
    using annotated_step [OF Cons.prems(1) run] Cons.IH [of mp1] Cons.prems(2) run
    by (auto simp: region_requests_def split: if_splits)
qed

lemma annotate_cacheable_annotated:
  "map_ok n mp \<Longrightarrow> annotate_cacheable chk rom_size layout is mp = (0, mp') \<Longrightarrow> annotated n (cacheable_requests chk is) mp mp'"
proof (induction "is" arbitrary: mp)
  case Nil
  then show ?case by (simp add: cacheable_requests_def annotated_Nil)
next
  case (Cons i "is")
  obtain r mp1 where run: "annotate mp (chk_word (drop (0x11c + 8 * i) chk)) (chk_word (drop (0x120 + 8 * i) chk)) 0 4 = (r, mp1)"
    by fastforce
  show ?case
  proof (cases "chk_word (drop (0x120 + 8 * i) chk) = 0")
    case True
    then show ?thesis using Cons by (simp add: cacheable_requests_def Let_def)
  next
    case False
    then show ?thesis
      using annotated_step [OF Cons.prems(1) run] Cons.IH [of mp1] Cons.prems(2) run
      by (auto simp: cacheable_requests_def Let_def split: if_splits)
  qed
qed

lemma annotate_drdi_annotated:
  "map_ok n mp \<Longrightarrow> annotate_drdi chk layout is mp = (0, mp') \<Longrightarrow> annotated n (drdi_requests chk is) mp mp'"
proof (induction "is" arbitrary: mp)
  case Nil
  then show ?case by (simp add: drdi_requests_def annotated_Nil)
next
  case (Cons i "is")
  define field where "field = (if i = 2 then 0x164 else 0x16c + 8 * i)"
  obtain r mp1 where run: "annotate mp (chk_word (drop field chk)) (chk_word (drop (field + 4) chk)) 0 (push_bit i 0x20) = (r, mp1)"
    by fastforce
  have step: "annotate_drdi chk layout (i # is) mp =
      (if chk_word (drop (field + 4) chk) = 0 then annotate_drdi chk layout is mp
       else if \<not> contained (chk_word (drop field chk)) (chk_word (drop (field + 4) chk)) (memory_size layout) then (- ERANGE, mp)
       else if r \<noteq> 0 then (r, mp1) else annotate_drdi chk layout is mp1)"
    unfolding annotate_drdi.simps Let_def field_def [symmetric] run by simp
  have reqs: "drdi_requests chk (i # is) = (if chk_word (drop (field + 4) chk) = 0 then []
      else [(chk_word (drop field chk), chk_word (drop (field + 4) chk), 0, push_bit i 0x20)]) @ drdi_requests chk is"
    unfolding drdi_requests_def list.map field_def [symmetric] Let_def by simp
  show ?case
    using annotated_step [OF Cons.prems(1) run] Cons.IH [of mp1] Cons.IH [of mp] Cons.prems
    unfolding step reqs by (auto split: if_splits)
qed

lemma live_locate: "block_count mp \<le> length (blocks mp) \<Longrightarrow>
    live (locate base mp) = map (\<lambda>b. b\<lparr> physical := base + ucast (block_offset b) \<rparr>) (live mp)"
  by (simp add: live_def locate_def)

lemma tiles_map_physical: "tiles p (map (\<lambda>b. b\<lparr> physical := f b \<rparr>) bs) q = tiles p bs q"
  by (induction bs arbitrary: p) simp_all

lemma tag_at_map_physical: "tag_at (map (\<lambda>b. b\<lparr> physical := f b \<rparr>) bs) a = tag_at bs a"
  by (induction bs) simp_all

lemma locate_annotated:
  assumes "annotated n reqs mp mp'"
  shows "annotated n reqs mp (locate base mp')"
proof -
  have "block_count mp' \<le> length (blocks mp')" using assms by (simp add: annotated_def map_ok_def)
  from live_locate [OF this, of base] assms show ?thesis
    by (auto simp: annotated_def map_ok_def tiles_map_physical tag_at_map_physical locate_def)
qed

definition fresh_map :: "u32 \<Rightarrow> tetris_modem_memory_map" where
  "fresh_map capacity = \<lparr> block_count = 1,
     blocks = (replicate TETRIS_MODEM_MAX_BLOCKS zero_block)[0 := zero_block\<lparr> block_size := capacity \<rparr>] \<rparr>"

lemma fresh_map_live: "live (fresh_map capacity) = [zero_block\<lparr> block_size := capacity \<rparr>]"
  by (simp add: live_def fresh_map_def TETRIS_MODEM_MAX_BLOCKS_def take_update_swap)

lemma fresh_map_ok: "capacity \<noteq> 0 \<Longrightarrow> map_ok (unat capacity) (fresh_map capacity)"
  using unsigned_less [of capacity, where ?'a = nat]
  by (simp add: map_ok_def fresh_map_live zero_block_def unat_gt_0) (simp add: fresh_map_def TETRIS_MODEM_MAX_BLOCKS_def)

lemma metadata_memory_cases:
  assumes "tetris_metadata_memory chk rom_size base capacity (At p old) = (ret, out)"
  shows "ret \<noteq> 0 \<and> out = At p old \<or> ret = 0 \<and> (\<exists>mp. out = At p (locate base mp) \<and>
    annotated (unat capacity) (window_requests chk) (fresh_map (ucast capacity)) mp)"
proof (cases "base = 0 \<or> capacity = 0 \<or> capacity > 0xffffffff \<or> base > NOT 0 - capacity")
  case True
  then show ?thesis using assms by (auto simp: tetris_metadata_memory_def)
next
  case False
  let ?layout = "\<lparr> memory_size = chk_word (drop 172 chk), logical_image_size = 0, layout_rom_size = 0,
     dsp_offset = chk_word (drop 184 chk), dsp_capacity = chk_word (drop 188 chk), dsp_size = 0,
     region_count = chk_word (drop 192 chk) \<rparr>"
  have cap: "unat (ucast capacity :: u32) = unat capacity" "(ucast capacity :: u32) \<noteq> 0"
    using False unat_gt_0 [of capacity] unat_ucast_small_u32 [of capacity]
    by (simp_all add: word_unat_eq_iff [of "ucast capacity :: u32"] not_less)
  then have ok0: "map_ok (unat capacity) (fresh_map (ucast capacity))" using fresh_map_ok by metis
  obtain r1 m1 where 1: "annotate (fresh_map (ucast capacity)) 0 (chk_word (drop 172 chk)) 0 1 = (r1, m1)" by fastforce
  obtain r2 m2 where 2: "annotate_regions chk [0 ..< unat (chk_word (drop 192 chk))] m1 = (r2, m2)" by fastforce
  obtain r3 m3 where 3: "annotate m2 (chk_word (drop 184 chk)) (chk_word (drop 188 chk)) 0 2 = (r3, m3)" by fastforce
  obtain r4 m4 where 4: "annotate_cacheable chk rom_size ?layout [0 ..< 8] m3 = (r4, m4)" by fastforce
  obtain r5 m5 where 5: "annotate_drdi chk ?layout [0 ..< 3] m4 = (r5, m5)" by fastforce
  have run: "tetris_metadata_memory chk rom_size base capacity (At p old) =
     (if r1 \<noteq> 0 then (r1, At p old) else if r2 \<noteq> 0 then (r2, At p old) else if r3 \<noteq> 0 then (r3, At p old)
      else if r4 \<noteq> 0 then (r4, At p old) else if r5 \<noteq> 0 then (r5, At p old) else (0, At p (locate base m5)))"
    unfolding tetris_metadata_memory_def Let_def fresh_map_def [symmetric]
    using False by (simp only: tetris_modem_layout.simps 1 2 3 4 5 prod.case ptr.distinct if_False simp_thms store.simps)
  show ?thesis
  proof (cases "r1 = 0 \<and> r2 = 0 \<and> r3 = 0 \<and> r4 = 0 \<and> r5 = 0")
    case True
    have a1: "annotated (unat capacity) [(0, chk_word (drop 172 chk), 0, 1)] (fresh_map (ucast capacity)) m1"
      using annotate_annotated [OF ok0] 1 True by simp
    have a2: "annotated (unat capacity) (region_requests chk [0 ..< unat (chk_word (drop 192 chk))]) m1 m2"
      using annotate_regions_annotated [OF annotated_ok [OF a1]] 2 True by simp
    have a3: "annotated (unat capacity) [(chk_word (drop 184 chk), chk_word (drop 188 chk), 0, 2)] m2 m3"
      using annotate_annotated [OF annotated_ok [OF a2]] 3 True by simp
    have a4: "annotated (unat capacity) (cacheable_requests chk [0 ..< 8]) m3 m4"
      using annotate_cacheable_annotated [OF annotated_ok [OF a3]] 4 True by simp
    have a5: "annotated (unat capacity) (drdi_requests chk [0 ..< 3]) m4 m5"
      using annotate_drdi_annotated [OF annotated_ok [OF a4]] 5 True by simp
    have "annotated (unat capacity) (window_requests chk) (fresh_map (ucast capacity)) m5"
      using annotated_trans [OF annotated_trans [OF annotated_trans [OF annotated_trans [OF a1 a2] a3] a4] a5]
      by (simp add: window_requests_def)
    then show ?thesis using assms run True by auto
  next
    case False
    then show ?thesis using assms run by (auto split: if_splits)
  qed
qed

section \<open>The padding pass\<close>

text \<open>A block whose attributes may have gained bits, and nothing else.\<close>

definition gains :: "tetris_modem_block \<Rightarrow> tetris_modem_block \<Rightarrow> bool" where
  "gains b c \<longleftrightarrow> (\<exists>bits. bits \<in> {0, 8, 0x10, 0x18} \<and> c = b\<lparr> block_attributes := block_attributes b OR bits \<rparr>)"

lemma gains_refl: "gains b b"
  unfolding gains_def by (rule exI [of _ 0]) simp

lemma or_bits_closed:
  "x \<in> {0, 8, 0x10, 0x18} \<Longrightarrow> y \<in> {0, 8, 0x10, 0x18} \<Longrightarrow> (x OR y :: u32) \<in> {0, 8, 0x10, 0x18}"
  by auto

lemma gains_or: "bits \<in> {0, 8, 0x10, 0x18} \<Longrightarrow> gains b (b\<lparr> block_attributes := block_attributes b OR bits \<rparr>)"
  by (auto simp: gains_def)

lemma gains_retained: "gains b c \<Longrightarrow> gains b (retained c)"
proof -
  assume "gains b c"
  then obtain bits where c: "bits \<in> {0, 8, 0x10, 0x18}" "c = b\<lparr> block_attributes := block_attributes b OR bits \<rparr>"
    by (auto simp: gains_def)
  then have "retained c = b\<lparr> block_attributes := block_attributes b OR (bits OR 0x10) \<rparr>"
    by (simp add: retained_def or.assoc)
  then show ?thesis using gains_or [OF or_bits_closed [OF c(1)], of "0x10" b] by simp
qed

lemma padding_mark_gains: "list_all2 gains bs (fst (padding_mark bs))"
  by (induction bs) (auto simp: gains_refl gains_or split: prod.split)

lemma length_padding_mark: "length (fst (padding_mark bs)) = length bs"
  using padding_mark_gains [THEN list_all2_lengthD] by simp

text \<open>After the first pass every preset block is a candidate or retained, and the count is right.\<close>

lemma bit_gained: "(x OR 8) AND 8 \<noteq> (0 :: u32)" "(x OR 0x10) AND 0x10 \<noteq> (0 :: u32)"
  by (simp_all add: bit.conj_disj_distrib2)

lemma padding_mark_count: "snd (padding_mark bs) = length (filter (\<lambda>b. block_attributes b AND 8 \<noteq> 0) (fst (padding_mark bs)))"
proof (induction bs)
  case (Cons b bs)
  have keep: "(block_attributes b OR 0x10) AND 8 = 0" if "block_attributes b AND 8 = 0"
    using that by (simp add: bit.conj_disj_distrib2)
  show ?case using Cons keep bit_gained(1) [of "block_attributes b"]
    by (auto split: prod.split)
qed simp

lemma padding_biggest_cases:
  "padding_biggest bs i biggest index = (m, k) \<Longrightarrow>
    m = biggest \<and> k = index \<and> (\<forall>b \<in> set bs. block_attributes b AND 0x18 = 8 \<longrightarrow> block_size b \<le> biggest) \<or>
    biggest < m \<and> i \<le> k \<and> k < i + length bs \<and> block_attributes (bs ! (k - i)) AND 0x18 = 8 \<and> block_size (bs ! (k - i)) = m \<and>
    (\<forall>b \<in> set bs. block_attributes b AND 0x18 = 8 \<longrightarrow> block_size b \<le> m)"
proof (induction bs arbitrary: i biggest index)
  case (Cons b bs)
  show ?case
  proof (cases "block_attributes b AND 0x18 = 8 \<and> block_size b > biggest")
    case True
    then have "padding_biggest bs (i + 1) (block_size b) i = (m, k)" using Cons.prems by simp
    from Cons.IH [OF this] True show ?thesis by (auto simp: nth_Cons')
  next
    case False
    then have "padding_biggest bs (i + 1) biggest index = (m, k)" using Cons.prems by auto
    from Cons.IH [OF this] False show ?thesis by (auto simp: nth_Cons')
  qed
qed simp

section \<open>Properties of the block map\<close>

lemma window_result:
  "case tetris_metadata_memory chk rom_size base capacity (At p old) of (ret, out) \<Rightarrow>
     if ret = 0
     then map_ok (unat capacity) (contents out) \<and>
       list_all (\<lambda>b. physical b = base + ucast (block_offset b)) (live (contents out)) \<and>
       tag_at (live (contents out)) a =
         (if a < unat capacity then Some (fold (add_tag a) (window_requests chk) (0, 0)) else None)
     else out = At p old"
proof -
  obtain ret out where run: "tetris_metadata_memory chk rom_size base capacity (At p old) = (ret, out)" by fastforce
  show ?thesis
  proof (cases "ret = 0")
    case True
    then obtain mp where mp: "out = At p (locate base mp)"
        "annotated (unat capacity) (window_requests chk) (fresh_map (ucast capacity)) mp"
      using metadata_memory_cases [OF run] by auto
    have cap: "unat (ucast capacity :: u32) = unat capacity"
      using run True by (intro unat_ucast_small_u32) (auto simp: tetris_metadata_memory_def split: if_splits)
    have len: "block_count mp \<le> length (blocks mp)" using mp(2) by (simp add: annotated_def map_ok_def)
    have "annotated (unat capacity) (window_requests chk) (fresh_map (ucast capacity)) (locate base mp)"
      using locate_annotated [OF mp(2)] .
    moreover have "tag_at (live (fresh_map (ucast capacity))) a = (if a < unat capacity then Some (0, 0) else None)"
      by (simp add: fresh_map_live zero_block_def cap)
    ultimately show ?thesis
      using run True mp(1) live_locate [OF len, of base] by (auto simp: annotated_def list_all_iff)
  next
    case False
    then show ?thesis using metadata_memory_cases [OF run] run by auto
  qed
qed

lemma window_map_ok:
  "tetris_metadata_memory chk rom_size base capacity (At p old) = (0, m) \<Longrightarrow> map_ok (unat capacity) (contents m)"
  using window_result [where chk = chk and rom_size = rom_size and base = base and capacity = capacity and p = p and old = old] by simp

text \<open>
  C26. The map of the firmware window is exact: when it is built, its blocks tile the window
  from offset 0 to its capacity without gap or overlap, each block's physical address is the
  base plus its offset, and the information and attribute bits at every offset are exactly
  the union of the annotations of the header whose range holds that offset; an offset outside
  the window is in no block. On every error the caller's map is untouched.
\<close>

theorem firmware_window_exact:
  "case tetris_metadata_memory chk rom_size base capacity (At p old) of (ret, out) \<Rightarrow>
     if ret = 0
     then map_ok (unat capacity) (contents out) \<and>
       list_all (\<lambda>b. physical b = base + ucast (block_offset b)) (live (contents out)) \<and>
       tag_at (live (contents out)) a =
         (if a < unat capacity then Some (fold (add_tag a) (window_requests chk) (0, 0)) else None)
     else out = At p old"
  by (rule window_result)

lemma and_power: "n < 32 \<Longrightarrow> x AND 2 ^ n = (if bit x n then 2 ^ n else (0 :: u32))"
  by (rule bit_word_eqI) (auto simp: bit_simps)

lemma candidate_bits:
  fixes x :: u32
  shows "x AND 8 = (if bit x 3 then 8 else 0)" and "x AND 0x18 = (if bit x 3 then 8 else 0) OR (if bit x 4 then 0x10 else 0)"
proof -
  have 8: "x AND 8 = (if bit x 3 then 8 else 0)" using and_power [of 3 x] by simp
  have 16: "x AND 0x10 = (if bit x 4 then 0x10 else 0)" using and_power [of 4 x] by simp
  have "x AND 0x18 = (x AND 8) OR (x AND 0x10)" by (simp flip: bit.conj_disj_distrib)
  then show "x AND 0x18 = (if bit x 3 then 8 else 0) OR (if bit x 4 then 0x10 else 0)" by (simp only: 8 16)
  show "x AND 8 = (if bit x 3 then 8 else 0)" by (rule 8)
qed

lemma candidate_iff: "(x :: u32) AND 0x18 = 8 \<longleftrightarrow> bit x 3 \<and> \<not> bit x 4" "(x :: u32) AND 0x18 = 0x18 \<longleftrightarrow> bit x 3 \<and> bit x 4"
  by (auto simp: candidate_bits(2))

lemma retained_bits: "bit (block_attributes (retained b)) 4" "bit (block_attributes (retained b)) 3 = bit (block_attributes b) 3"
proof -
  have "bit (0x10 :: u32) 4" "\<not> bit (0x10 :: u32) 3" by simp_all
  then show "bit (block_attributes (retained b)) 4" "bit (block_attributes (retained b)) 3 = bit (block_attributes b) 3"
    by (simp_all add: retained_def bit_or_iff del: bit_numeral_simps)
qed

lemma tiles_sizes: "tiles p bs q \<Longrightarrow> b \<in> set bs \<Longrightarrow> 0 < block_size b"
  by (induction bs arbitrary: p) (auto simp: word_less_nat_alt)

lemma tiles_gains: "list_all2 gains bs cs \<Longrightarrow> tiles p cs q = tiles p bs q"
proof (induction bs cs arbitrary: p rule: list_all2_induct)
  case (Cons b bs c cs)
  then have "block_offset c = block_offset b" "block_size c = block_size b" by (auto simp: gains_def)
  then show ?case using Cons by simp
qed simp

lemma padding_result:
  assumes "block_count mp \<le> length (blocks mp)"
  obtains bs where "padding mp = mp\<lparr> blocks := bs @ drop (block_count mp) (blocks mp) \<rparr>" "length bs = block_count mp"
    "list_all2 gains (live mp) bs"
    "(\<forall>b \<in> set bs. block_size b \<noteq> 0) \<longrightarrow> (\<exists>b \<in> set bs. bit (block_attributes b) 3) \<longrightarrow>
       (\<exists>b \<in> set bs. bit (block_attributes b) 3 \<and> bit (block_attributes b) 4)"
proof -
  let ?rest = "drop (block_count mp) (blocks mp)"
  obtain cs candidates where mark: "padding_mark (live mp) = (cs, candidates)" by fastforce
  have g: "list_all2 gains (live mp) cs" using padding_mark_gains [of "live mp"] mark by simp
  have len: "length cs = block_count mp" using list_all2_lengthD [OF g] assms by (simp add: live_def)
  show thesis
  proof (cases "candidates \<le> 1")
    case True
    let ?f = "\<lambda>b. if block_attributes b AND 8 \<noteq> 0 then retained b else b"
    have "padding mp = mp\<lparr> blocks := map ?f cs @ ?rest \<rparr>"
      using mark True by (simp add: padding_def live_def)
    moreover have "list_all2 gains (live mp) (map ?f cs)"
      using g by (auto simp: list_all2_conv_all_nth gains_retained)
    moreover have "\<exists>b \<in> set (map ?f cs). bit (block_attributes b) 3 \<and> bit (block_attributes b) 4"
      if "\<exists>b \<in> set (map ?f cs). bit (block_attributes b) 3"
      using that by (auto simp: candidate_bits(1) retained_bits split: if_splits)
    ultimately show thesis using len by (intro that [of "map ?f cs"]) simp_all
  next
    case False
    obtain m k where big: "padding_biggest cs 0 0 0 = (m, k)" by fastforce
    note cases = padding_biggest_cases [OF big]
    show thesis
    proof (cases "m = 0")
      case True
      have "padding mp = mp\<lparr> blocks := cs @ ?rest \<rparr>"
        using mark False big True by (simp add: padding_def live_def)
      moreover have "\<exists>b \<in> set cs. bit (block_attributes b) 3 \<and> bit (block_attributes b) 4"
        if "\<forall>b \<in> set cs. block_size b \<noteq> 0" "\<exists>b \<in> set cs. bit (block_attributes b) 3"
        using cases True that by (auto simp: candidate_iff)
      ultimately show thesis using len g by (intro that [of cs]) simp_all
    next
      case nz: False
      let ?ds = "cs[k := retained (cs ! k)]"
      have k: "k < length cs" "block_attributes (cs ! k) AND 0x18 = 8" using cases nz by auto
      have "padding mp = mp\<lparr> blocks := ?ds @ ?rest \<rparr>"
        using mark False big nz by (simp add: padding_def live_def)
      moreover have "list_all2 gains (live mp) ?ds"
        using g k by (auto simp: list_all2_conv_all_nth nth_list_update gains_retained)
      moreover have "retained (cs ! k) \<in> set ?ds" using k by (simp add: set_update_memI)
      ultimately show thesis
        using len k(2) by (intro that [of ?ds]) (auto simp: retained_bits candidate_iff intro!: bexI [of _ "retained (cs ! k)"])
    qed
  qed
qed

lemma padding_kept:
  assumes "map_ok n mp"
  shows "map_ok n (padding mp) \<and> list_all2 gains (live mp) (live (padding mp)) \<and>
    ((\<exists>b \<in> set (live (padding mp)). block_attributes b AND 8 \<noteq> 0) =
     (\<exists>b \<in> set (live (padding mp)). block_attributes b AND 0x18 = 0x18))"
proof -
  have len: "block_count mp \<le> length (blocks mp)" using assms by (simp add: map_ok_def)
  then obtain bs where pad: "padding mp = mp\<lparr> blocks := bs @ drop (block_count mp) (blocks mp) \<rparr>"
    and l: "length bs = block_count mp" and g: "list_all2 gains (live mp) bs"
    and ret: "(\<forall>b \<in> set bs. block_size b \<noteq> 0) \<longrightarrow> (\<exists>b \<in> set bs. bit (block_attributes b) 3) \<longrightarrow>
       (\<exists>b \<in> set bs. bit (block_attributes b) 3 \<and> bit (block_attributes b) 4)"
    by (rule padding_result)
  have live: "live (padding mp) = bs" using pad l by (simp add: live_def)
  have til: "tiles 0 bs n" using tiles_gains [OF g] assms by (simp add: map_ok_def)
  then have "\<forall>b \<in> set bs. block_size b \<noteq> 0" using tiles_sizes by fastforce
  then have "(\<exists>b \<in> set bs. block_attributes b AND 8 \<noteq> 0) = (\<exists>b \<in> set bs. block_attributes b AND 0x18 = 0x18)"
    using ret by (auto simp: candidate_bits(1) candidate_iff)
  moreover have "map_ok n (padding mp)"
    using assms til l live by (simp add: map_ok_def pad len)
  ultimately show ?thesis using g live by simp
qed

lemma padding_ok: "map_ok n mp \<Longrightarrow> map_ok n (padding mp)"
  using padding_kept by blast

section \<open>Lemmas on placement\<close>

text \<open>Rounding up to a power of two by masking.\<close>

lemma mask_round:
  fixes c :: u64
  shows "unat (c AND NOT (2 ^ k - 1)) = unat c div 2 ^ k * 2 ^ k"
proof -
  have low: "unat (take_bit k c) = unat c mod 2 ^ k"
    by (metis unsigned_take_bit_eq take_bit_eq_mod)
  have "c AND NOT (2 ^ k - 1) = push_bit k (drop_bit k c)"
    by (rule bit_word_eqI) (auto simp: bit_simps simp flip: mask_eq_exp_minus_1)
  also have "\<dots> = c - take_bit k c"
    using bits_ident [of k c] by (simp add: eq_diff_eq)
  finally have "unat (c AND NOT (2 ^ k - 1)) = unat c - unat c mod 2 ^ k"
    using low by (simp add: unat_sub word_le_nat_alt)
  then show ?thesis by (simp add: minus_mod_eq_div_mult)
qed

definition aligned_up :: "u32 \<Rightarrow> nat \<Rightarrow> nat" where
  "aligned_up a c = (if a = 0 then c else round_up (unat a) c)"

definition good_alignment :: "u32 \<Rightarrow> bool" where
  "good_alignment a \<longleftrightarrow> a = 0 \<or> (\<exists>k < 32. a = 2 ^ k)"

lemma ucast_power: "k < 32 \<Longrightarrow> (ucast (2 ^ k :: u32) :: u64) = 2 ^ k"
  by (rule bit_word_eqI) (auto simp: bit_simps)

lemma aligned_offset:
  fixes cursor :: u64
  assumes "good_alignment a" and "unat cursor < 2 ^ 33"
  shows "unat (if a \<noteq> 0 then (cursor + ucast a - 1) AND NOT (ucast a - 1) else cursor) = aligned_up a (unat cursor)"
proof (cases "a = 0")
  case False
  then obtain k where k: "k < 32" "a = 2 ^ k" using assms(1) by (auto simp: good_alignment_def)
  have p: "(2 :: nat) ^ k < 2 ^ 33" using k by (intro power_strict_increasing) auto
  have "k < 64" using k by simp
  then have ku: "unat (2 ^ k :: u64) = 2 ^ k" by (simp add: unat_power_of_2)
  have ka: "unat a = 2 ^ k" using k by (simp add: unat_power_of_2)
  have sum: "unat (cursor + 2 ^ k) = unat cursor + 2 ^ k"
    using assms(2) p ku by (simp add: unat_add_lem [THEN iffD1])
  have "1 \<le> cursor + 2 ^ k" using sum by (simp add: word_le_nat_alt Suc_le_eq)
  then have "unat (cursor + 2 ^ k - 1) = unat cursor + 2 ^ k - 1" using sum by (simp add: unat_sub)
  then show ?thesis
    using False k ka mask_round [of "cursor + 2 ^ k - 1" k] by (simp add: aligned_up_def round_up_def ucast_power)
qed (simp add: aligned_up_def)

text \<open>The reference: entries packed upwards from a cursor, each at its alignment.\<close>

fun pack :: "nat \<Rightarrow> tetris_modem_smem_entry list \<Rightarrow> u32 list \<Rightarrow> tetris_modem_smem_entry list" where
  "pack c (e # es) (a # as) =
     e\<lparr> entry_offset := of_nat (aligned_up a c) \<rparr> # pack (aligned_up a c + unat (entry_size e)) es as"
| "pack c es _ = es"

fun packed_end :: "nat \<Rightarrow> tetris_modem_smem_entry list \<Rightarrow> u32 list \<Rightarrow> nat" where
  "packed_end c (e # es) (a # as) = packed_end (aligned_up a c + unat (entry_size e)) es as"
| "packed_end c es _ = c"

fun pack_gaps :: "nat \<Rightarrow> tetris_modem_smem_entry list \<Rightarrow> u32 list \<Rightarrow> nat" where
  "pack_gaps c (e # es) (a # as) =
     (if aligned_up a c = c then 0 else 1) + pack_gaps (aligned_up a c + unat (entry_size e)) es as"
| "pack_gaps c es _ = 0"

lemma aligned_up_le: "c \<le> aligned_up a c"
  using round_up_props(1) [of "unat a" c] by (simp add: aligned_up_def unat_gt_0)

lemma packed_end_le: "c \<le> packed_end c es as"
proof (induction c es as rule: packed_end.induct)
  case (1 c e es a as)
  then show ?case using aligned_up_le [of c a] by simp
qed simp_all

lemma packed_end_size: "length as = length es \<Longrightarrow> e \<in> set es \<Longrightarrow> unat (entry_size e) \<le> packed_end c es as"
proof (induction es as arbitrary: c rule: list_induct2')
  case (4 d es a as)
  then show ?case
    using packed_end_le [of "aligned_up a c + unat (entry_size d)" es as] by auto
qed simp_all

lemma place_entries_result:
  assumes "list_all good_alignment as" and "unat cursor \<le> unat limit"
  shows "if packed_end (unat cursor) es as \<le> unat limit
    then place_entries es as limit cursor rows =
      (0, pack (unat cursor) es as, of_nat (packed_end (unat cursor) es as), rows + of_nat (pack_gaps (unat cursor) es as))
    else fst (place_entries es as limit cursor rows) = - ERANGE"
  using assms
proof (induction es arbitrary: as cursor rows)
  case (Cons e es)
  show ?case
  proof (cases as)
    case as: (Cons a bs)
    note prems = Cons.prems [unfolded as]
    define off where "off = (if a \<noteq> 0 then (cursor + ucast a - 1) AND NOT (ucast a - 1) else cursor)"
    have lim: "unat limit < 2 ^ 32" using unsigned_less [of limit, where ?'a = nat] by simp
    have off: "unat off = aligned_up a (unat cursor)"
      unfolding off_def using prems lim by (intro aligned_offset) auto
    have a: "unat a < 2 ^ 32" "unat (entry_size e) < 2 ^ 32"
      using unsigned_less [of a, where ?'a = nat] unsigned_less [of "entry_size e", where ?'a = nat] by simp_all
    have small: "aligned_up a (unat cursor) < 2 ^ 34"
      using round_up_props(2) [of "unat a" "unat cursor"] a lim prems(2) by (auto simp: aligned_up_def unat_gt_0)
    have cur: "unat (off + ucast (entry_size e)) = aligned_up a (unat cursor) + unat (entry_size e)"
      using off small a by (simp add: unat_add_lem [THEN iffD1] unsigned_ucast_eq take_bit_nat_eq_self)
    have gap: "off \<noteq> cursor \<longleftrightarrow> aligned_up a (unat cursor) \<noteq> unat cursor"
      using off by (simp add: word_unat_eq_iff)
    have eoff: "(ucast off :: u32) = of_nat (aligned_up a (unat cursor))" using off by (metis of_nat_unat)
    let ?c = "off + ucast (entry_size e)" and ?r = "if off \<noteq> cursor then rows + 1 else rows"
    have eq: "place_entries (e # es) (a # bs) limit cursor rows =
        (if ?c > ucast limit then (- ERANGE, e # es, ?c, ?r)
         else case place_entries es bs limit ?c ?r of (ret, placed, c, r) \<Rightarrow> (ret, e\<lparr> entry_offset := ucast off \<rparr> # placed, c, r))"
      unfolding place_entries.simps Let_def off_def [symmetric] by (rule refl)
    have over: "?c > ucast limit \<longleftrightarrow> aligned_up a (unat cursor) + unat (entry_size e) > unat limit"
      using cur lim by (simp add: word_less_nat_alt unsigned_ucast_eq take_bit_nat_eq_self)
    show ?thesis
    proof (cases "?c > ucast limit")
      case True
      then show ?thesis
        using over packed_end_le [of "aligned_up a (unat cursor) + unat (entry_size e)" es bs]
        by (simp add: as eq del: place_entries.simps)
    next
      case False
      then have "unat ?c \<le> unat limit" using over cur by simp
      from Cons.IH [OF _ this, of bs ?r] prems(1)
      have IH: "if packed_end (aligned_up a (unat cursor) + unat (entry_size e)) es bs \<le> unat limit
        then place_entries es bs limit ?c ?r = (0, pack (aligned_up a (unat cursor) + unat (entry_size e)) es bs,
          of_nat (packed_end (aligned_up a (unat cursor) + unat (entry_size e)) es bs),
          ?r + of_nat (pack_gaps (aligned_up a (unat cursor) + unat (entry_size e)) es bs))
        else fst (place_entries es bs limit ?c ?r) = - ERANGE" unfolding cur by simp
      have rows: "?r + of_nat (pack_gaps (aligned_up a (unat cursor) + unat (entry_size e)) es bs) =
          rows + of_nat (pack_gaps (unat cursor) (e # es) (a # bs))"
        using gap by simp
      show ?thesis
        unfolding as eq if_not_P [OF False]
        using IH unfolding rows eoff by (simp add: case_prod_unfold split: if_splits)
    qed
  qed (use Cons.prems in simp)
qed simp

lemma smem_place_result:
  assumes "list_all good_alignment alignments"
  shows "let fin = round_up 0x10000 (packed_end 0 entries alignments) in
    if 0 < fin \<and> fin \<le> unat limit
    then smem_place entries alignments limit capacity =
      (0, pack 0 entries alignments, of_nat fin, of_nat (length entries + pack_gaps 0 entries alignments))
    else fst (smem_place entries alignments limit capacity) = - ERANGE \<and>
      fst (snd (snd (smem_place entries alignments limit capacity))) = capacity"
proof -
  let ?e = "packed_end 0 entries alignments"
  have lim: "unat limit < 2 ^ 32" using unsigned_less [of limit, where ?'a = nat] by simp
  note res = place_entries_result [OF assms, of 0 limit entries "of_nat (length entries)"]
  have le: "?e \<le> round_up 0x10000 ?e" using round_up_props(1) [of "0x10000" ?e] by simp
  show ?thesis
  proof (cases "?e \<le> unat limit")
    case True
    have u: "unat (of_nat ?e :: u64) = ?e" using True lim by (simp add: unsigned_of_nat take_bit_nat_eq_self)
    have r: "unat ((of_nat ?e + 0xffff :: u64) AND NOT 0xffff) = round_up 0x10000 ?e"
    proof -
      have "unat (of_nat ?e + 0xffff :: u64) = ?e + 0xffff" using u True lim by (simp add: unat_add_lem [THEN iffD1])
      then show ?thesis using mask_round [of "of_nat ?e + 0xffff" 16] by (simp add: round_up_def)
    qed
    let ?w = "(of_nat ?e + 0xffff :: u64) AND NOT 0xffff"
    have run: "smem_place entries alignments limit capacity =
        (if ?w = 0 \<or> ?w > ucast limit then (- ERANGE, pack 0 entries alignments, capacity, of_nat (length entries) + of_nat (pack_gaps 0 entries alignments))
         else (0, pack 0 entries alignments, ucast ?w, of_nat (length entries) + of_nat (pack_gaps 0 entries alignments)))"
      using res True by (simp add: smem_place_def Let_def)
    have z: "?w = 0 \<longleftrightarrow> round_up 0x10000 ?e = 0" using r by (simp add: word_unat_eq_iff)
    have g: "?w > ucast limit \<longleftrightarrow> round_up 0x10000 ?e > unat limit"
      using r lim by (simp add: word_less_nat_alt unsigned_ucast_eq take_bit_nat_eq_self)
    have c: "(ucast ?w :: u32) = of_nat (round_up 0x10000 ?e)" using r by (metis of_nat_unat)
    show ?thesis
      unfolding run Let_def by (simp only: z g c) auto
  next
    case False
    then have "fst (place_entries entries alignments limit 0 (of_nat (length entries))) = - ERANGE" using res by simp
    then show ?thesis using False le by (auto simp: smem_place_def Let_def case_prod_unfold)
  qed
qed

text \<open>Packed entries do not overlap, keep their order, end below the packed end and are aligned.\<close>

definition entry_end :: "tetris_modem_smem_entry \<Rightarrow> nat" where
  "entry_end e = unat (entry_offset e) + unat (entry_size e)"

lemma pack_props:
  assumes "length as = length es" and "packed_end c es as < 2 ^ 32"
  shows "sorted_wrt (\<lambda>d e. entry_end d \<le> unat (entry_offset e)) (pack c es as) \<and>
    list_all (\<lambda>e. c \<le> unat (entry_offset e) \<and> entry_end e \<le> packed_end c es as) (pack c es as) \<and>
    list_all2 (\<lambda>e a. unat a dvd unat (entry_offset e) \<or> a = 0) (pack c es as) as"
  using assms
proof (induction es as arbitrary: c rule: list_induct2')
  case (4 e es a as)
  let ?o = "aligned_up a c"
  have le: "?o + unat (entry_size e) \<le> packed_end c (e # es) (a # as)"
    using packed_end_le [of "?o + unat (entry_size e)" es as] by simp
  then have o: "unat (of_nat ?o :: u32) = ?o" using 4(3) by (simp add: unsigned_of_nat take_bit_nat_eq_self)
  have dv: "unat a dvd ?o \<or> a = 0" using round_up_props(3) [of "unat a" c] by (auto simp: aligned_up_def unat_gt_0)
  show ?case
    using 4(1) [of "?o + unat (entry_size e)"] 4(2,3) le dv aligned_up_le [of c a]
    by (auto simp: o entry_end_def list_all_iff)
qed simp_all

lemma good_alignment_power: "k < 32 \<Longrightarrow> good_alignment (2 ^ k)"
  by (auto simp: good_alignment_def)

lemma nc_align_list: "nc_align = [0, 0, 0, 0, 0, 0, 0, 0, 0, 0, 0, 0, 0, 0, 0, 0, 0, 0x1000]"
  by (simp add: nc_align_def eval_nat_numeral)

lemma good_alignments: "list_all good_alignment nc_align" "list_all good_alignment cache_align"
proof -
  have zero: "good_alignment 0" by (simp add: good_alignment_def)
  have powers: "good_alignment 0x40" "good_alignment 0x80" "good_alignment 0x1000" "good_alignment 0x10000"
      "good_alignment 0x100000"
    using good_alignment_power [of 6] good_alignment_power [of 7] good_alignment_power [of 12]
      good_alignment_power [of 16] good_alignment_power [of 20] by simp_all
  show "list_all good_alignment nc_align" using zero powers by (simp add: nc_align_list)
  show "list_all good_alignment cache_align" using powers by (simp add: cache_align_def)
qed

lemma nc_layout:
  "packed_end 0 nc_entries nc_align = 0x126000" "pack_gaps 0 nc_entries nc_align = 1" "length nc_entries = 18" "length nc_align = 18"
  by (simp_all add: nc_entries_def nc_ids_def nc_sizes_def nc_align_list aligned_up_def round_up_def)

lemma nc_placed: "smem_place nc_entries nc_align 0xa000000 0 = (0, pack 0 nc_entries nc_align, 0x130000, 19)"
  using smem_place_result [OF good_alignments(1), of nc_entries "0xa000000" 0]
  by (simp add: nc_layout round_up_def)

lemma cache_end_pos: "0x60000 \<le> packed_end 0 (cache_entries i ccb) cache_align"
  by (simp add: cache_entries_def cache_align_def)

lemma length_cache: "length (cache_entries i ccb) = 5" "length cache_align = 5"
  by (simp_all add: cache_entries_def cache_align_def)

lemma plan_result:
  "tetris_modem_plan_smem_b41 (At p i) (At q old) =
    (if drdi_version i \<noteq> 3 \<or> udc_en i > 1 then (- EINVAL, At q old)
     else case ccb_size_of_gear (ccb_gear i) of
       None \<Rightarrow> (- EINVAL, At q old)
     | Some ccb \<Rightarrow>
       let es = cache_entries i ccb; fin = round_up 0x10000 (packed_end 0 es cache_align) in
       if fin \<le> 0x8000000
       then (0, At q \<lparr> nc = pack 0 nc_entries nc_align, cache = pack 0 es cache_align, nc_capacity = 0x130000,
                       cache_capacity = of_nat fin, nc_rows = 19, cache_rows = of_nat (5 + pack_gaps 0 es cache_align) \<rparr>)
       else (- ERANGE, At q old))"
proof (cases "ccb_size_of_gear (ccb_gear i)")
  case None
  then show ?thesis by (simp add: tetris_modem_plan_smem_b41_def Let_def)
next
  case (Some ccb)
  let ?es = "cache_entries i ccb"
  let ?fin = "round_up 0x10000 (packed_end 0 ?es cache_align)"
  have pos: "0 < ?fin"
    using round_up_props(1) [of "0x10000" "packed_end 0 ?es cache_align"] cache_end_pos [of i ccb] by linarith
  note res = smem_place_result [OF good_alignments(2), of ?es "0x8000000" 0, unfolded Let_def]
  show ?thesis
  proof (cases "?fin \<le> 0x8000000")
    case True
    then have "smem_place ?es cache_align 0x8000000 0 =
        (0, pack 0 ?es cache_align, of_nat ?fin, of_nat (5 + pack_gaps 0 ?es cache_align))"
      using res pos by (simp add: length_cache)
    then show ?thesis using True Some by (simp add: tetris_modem_plan_smem_b41_def nc_placed Let_def)
  next
    case False
    then have "fst (smem_place ?es cache_align 0x8000000 0) = - ERANGE" using res by simp
    then show ?thesis
      using False Some by (cases "smem_place ?es cache_align 0x8000000 0")
        (simp add: tetris_modem_plan_smem_b41_def nc_placed Let_def)
  qed
qed

section \<open>Properties of the shared-memory plan\<close>

text \<open>
  C28. The plan is computed exactly: an input with another DRDI version, another flag or an
  unknown gear is refused, a plan that does not fit the cacheable bank is refused with a range
  error, both leaving the caller's plan untouched, and otherwise the result is the reference
  packing: every entry at the first free offset with its alignment, capacities rounded up to
  64 KiB, one extra row for every alignment gap.
\<close>

theorem smem_plan_exact:
  "tetris_modem_plan_smem_b41 (At p i) (At q old) =
    (if \<not> (drdi_version i = 3 \<and> udc_en i \<le> 1) then (- EINVAL, At q old)
     else case ccb_size_of_gear (ccb_gear i) of
       None \<Rightarrow> (- EINVAL, At q old)
     | Some ccb \<Rightarrow>
       let es = cache_entries i ccb; fin = round_up 0x10000 (packed_end 0 es cache_align) in
       if fin \<le> 0x8000000
       then (0, At q \<lparr> nc = pack 0 nc_entries nc_align, cache = pack 0 es cache_align, nc_capacity = 0x130000,
                       cache_capacity = of_nat fin, nc_rows = 19, cache_rows = of_nat (5 + pack_gaps 0 es cache_align) \<rparr>)
       else (- ERANGE, At q old))"
  using plan_result [of p i q old] by (simp add: not_less not_le)


end
