(* ===== verification/Modem_Metadata.thy ===== *)
theory Modem_Metadata
  imports Modem_Layout
begin

text \<open>
  Admission of the boot loader's modem metadata, \<^verbatim>\<open>patches/modem/drafts/runtime-metadata/\<close>: the
  four memory windows and the consistency of the tag snapshot with the plans of the layout
  model (\<^verbatim>\<open>semantic.h\<close>), and the decoding of the boot report and of the tag descriptor
  (\<^verbatim>\<open>handoff.h\<close>). A snapshot is a byte array; a pointer into it is a suffix.
\<close>

unbundle bit_operations_syntax

abbreviation EEXIST :: int where "EEXIST \<equiv> 17"
abbreviation ENODATA :: int where "ENODATA \<equiv> 61"
abbreviation EPROTONOSUPPORT :: int where "EPROTONOSUPPORT \<equiv> 93"

section \<open>Windows\<close>

record tetris_metadata_window =
  window_base :: u64
  window_capacity :: u64

record tetris_metadata_banks =
  bank_firmware :: tetris_metadata_window
  bank_nc :: tetris_metadata_window
  bank_cache :: tetris_metadata_window
  bank_tags :: tetris_metadata_window

definition windows_of :: "tetris_metadata_banks \<Rightarrow> tetris_metadata_window list" where
  "windows_of banks = [bank_firmware banks, bank_nc banks, bank_cache banks, bank_tags banks]"

definition window_meets :: "tetris_metadata_window \<Rightarrow> tetris_metadata_window \<Rightarrow> bool" where
  "window_meets a b \<longleftrightarrow> window_base a < window_base b + window_capacity b \<and> window_base b < window_base a + window_capacity a"

text \<open>One round of the loop over the windows, and the loop; the second argument is the index.\<close>

definition window_check :: "tetris_metadata_window list \<Rightarrow> nat \<Rightarrow> int" where
  "window_check windows i =
    (let alignment = (if i = 3 then 4096 else 0x2000000) :: u64; a = windows ! i in
     if window_base a = 0 \<or> window_base a AND (alignment - 1) \<noteq> 0 \<or> window_base a > NOT 0 - window_capacity a \<or>
        (i < 3 \<and> window_base a + window_capacity a > push_bit 35 1)
     then - ERANGE
     else if \<exists>j \<in> set [0 ..< i]. window_meets a (windows ! j) then - EEXIST
     else 0)"

fun windows_loop :: "tetris_metadata_window list \<Rightarrow> nat list \<Rightarrow> int" where
  "windows_loop windows [] = 0"
| "windows_loop windows (i # is) = (let ret = window_check windows i in if ret \<noteq> 0 then ret else windows_loop windows is)"

definition tetris_metadata_windows :: "tetris_metadata_banks ptr \<Rightarrow> int" where
  "tetris_metadata_windows banks =
    (if banks = Null then - ENODATA
     else let windows = windows_of (contents banks) in
     if window_capacity (windows ! 0) \<noteq> 0x20000000 \<or> window_capacity (windows ! 1) \<noteq> 0x8000000 \<or>
        window_capacity (windows ! 2) \<noteq> 0x8000000 \<or> window_capacity (windows ! 3) \<noteq> 65536
     then - EPROTONOSUPPORT
     else windows_loop windows [0 ..< 4])"

section \<open>Rows of the shared-memory tables\<close>

definition tetris_metadata_smem_row :: "bytes \<Rightarrow> u64 \<Rightarrow> u32 \<Rightarrow> u32 \<Rightarrow> u32 \<Rightarrow> u32 \<Rightarrow> u32 \<Rightarrow> int" where
  "tetris_metadata_smem_row raw base i offset sz flags md_offset =
    (if get_le64 raw \<noteq> base + ucast offset \<or> get_le64 (drop 8 raw) \<noteq> 0 \<or> chk_word (drop 16 raw) \<noteq> i \<or>
        chk_word (drop 20 raw) \<noteq> offset \<or> chk_word (drop 24 raw) \<noteq> sz \<or> chk_word (drop 28 raw) \<noteq> 0 \<or>
        chk_word (drop 32 raw) \<noteq> flags \<or> chk_word (drop 36 raw) \<noteq> md_offset + offset
     then - EBADMSG else 0)"

text \<open>
  The loop over the entries. The counters of bytes consumed never exceed the byte count, so
  their difference does not wrap and is taken on natural numbers.
\<close>

fun smem_rows_from ::
  "bytes \<Rightarrow> nat \<Rightarrow> tetris_metadata_window \<Rightarrow> u32 \<Rightarrow> tetris_modem_smem_entry list \<Rightarrow> u32 \<Rightarrow> nat \<Rightarrow> int" where
  "smem_rows_from raw n bank md_offset [] cursor used = (if used = n then 0 else - EBADMSG)"
| "smem_rows_from raw n bank md_offset (e # es) cursor used =
    (if entry_offset e < cursor \<or> ucast (entry_offset e) > window_capacity bank \<or>
        ucast (entry_size e) > window_capacity bank - ucast (entry_offset e) \<or>
        entry_offset e > 0xffffffff - md_offset \<or> entry_size e > 0xffffffff - md_offset - entry_offset e
     then - ERANGE
     else if entry_offset e > cursor \<and> n - used < 40 then - EBADMSG
     else let pad = (if entry_offset e > cursor
                     then tetris_metadata_smem_row (drop used raw) (window_base bank) (entry_id e) cursor
                            (entry_offset e - cursor) 4 md_offset else 0);
              used = (if entry_offset e > cursor then used + 40 else used) in
     if pad \<noteq> 0 then pad
     else if n - used < 40 then - EBADMSG
     else let ret = tetris_metadata_smem_row (drop used raw) (window_base bank) (entry_id e) (entry_offset e)
                      (entry_size e) (entry_flags e) md_offset in
     if ret \<noteq> 0 then ret
     else smem_rows_from raw n bank md_offset es (entry_offset e + entry_size e) (used + 40))"

definition tetris_metadata_smem ::
  "bytes \<Rightarrow> nat \<Rightarrow> tetris_modem_smem_entry list \<Rightarrow> tetris_metadata_window \<Rightarrow> u32 \<Rightarrow> int" where
  "tetris_metadata_smem raw n entries bank md_offset = smem_rows_from raw n bank md_offset entries 0 0"

section \<open>The whole snapshot\<close>

text \<open>\<^verbatim>\<open>memchr_inv(p, 0, n)\<close>: some byte of the first \<open>n\<close> is not zero.\<close>

definition any_nonzero :: "bytes \<Rightarrow> nat \<Rightarrow> bool" where
  "any_nonzero p n \<longleftrightarrow> list_ex (\<lambda>b. b \<noteq> 0) (take n p)"

definition chk_region :: "bytes \<Rightarrow> nat \<Rightarrow> u32 \<times> u32" where
  "chk_region chk i = (chk_word (drop (196 + i * 8) chk), chk_word (drop (200 + i * 8) chk))"

fun regions_loop :: "bytes \<Rightarrow> u32 \<Rightarrow> nat list \<Rightarrow> int" where
  "regions_loop chk logical [] = 0"
| "regions_loop chk logical (i # is) =
    (case chk_region chk i of (offset, sz) \<Rightarrow>
     if \<not> contained offset sz logical then - ERANGE
     else if \<exists>j \<in> set [0 ..< i]. (case chk_region chk j of (previous, len) \<Rightarrow>
               offset < previous + len \<and> previous < offset + sz) then - ERANGE
     else regions_loop chk logical is)"

fun blocks_loop :: "bytes \<Rightarrow> tetris_modem_block list \<Rightarrow> int" where
  "blocks_loop raw [] = 0"
| "blocks_loop raw (b # bs) =
    (if chk_word raw \<noteq> block_offset b \<or> chk_word (drop 4 raw) \<noteq> block_size b \<or>
        chk_word (drop 8 raw) \<noteq> block_info b \<or> chk_word (drop 12 raw) \<noteq> block_attributes b \<or>
        get_le64 (drop 16 raw) \<noteq> physical b
     then - EBADMSG else blocks_loop (drop 24 raw) bs)"

fun cache_loop :: "bytes \<Rightarrow> u64 \<Rightarrow> tetris_modem_smem_entry list \<Rightarrow> int" where
  "cache_loop raw base [] = 0"
| "cache_loop raw base (e # es) =
    (if get_le64 raw \<noteq> base + ucast (entry_offset e) \<or> chk_word (drop 8 raw) \<noteq> entry_offset e \<or>
        chk_word (drop 12 raw) \<noteq> entry_size e \<or> chk_word (drop 16 raw) \<noteq> entry_id e \<or> chk_word (drop 20 raw) \<noteq> 0
     then - EBADMSG else cache_loop (drop 24 raw) base es)"

fun nc_loop :: "bytes \<Rightarrow> tetris_modem_smem_entry list \<Rightarrow> int" where
  "nc_loop raw [] = 0"
| "nc_loop raw (e # es) =
    (if chk_word raw \<noteq> entry_offset e \<or> chk_word (drop 4 raw) \<noteq> entry_offset e \<or>
        chk_word (drop 8 raw) \<noteq> entry_size e \<or> chk_word (drop 12 raw) \<noteq> entry_id e
     then - EBADMSG else nc_loop (drop 16 raw) es)"

text \<open>The mirrors of the plan in the legacy tags 2, 3 and 15.\<close>

definition legacy_mirrors :: "bytes \<Rightarrow> nat list \<Rightarrow> tetris_metadata_banks \<Rightarrow> tetris_modem_smem_plan \<Rightarrow> bool" where
  "legacy_mirrors snapshot offsets banks smem \<longleftrightarrow>
    (let raw = drop (offsets ! 2) snapshot in
     get_le64 raw = window_base (bank_nc banks) \<and> chk_word (drop 8 raw) = 0 \<and>
     chk_word (drop 12 raw) = nc_capacity smem \<and> \<not> any_nonzero (drop 16 raw) 16 \<and>
     chk_word (drop 32 raw) = nc_capacity smem \<and> chk_word (drop 36 raw) = 0) \<and>
    (let raw = drop (offsets ! 3) snapshot in
     get_le64 raw = window_base (bank_cache banks) + ucast (entry_offset (cache smem ! 2)) \<and>
     chk_word (drop 8 raw) = entry_size (cache smem ! 2) \<and> chk_word (drop 12 raw) = 0) \<and>
    (let raw = drop (offsets ! 15) snapshot in
     get_le64 raw = window_base (bank_cache banks) \<and> chk_word (drop 8 raw) = 0x8000000 \<and>
     chk_word (drop 12 raw) = cache_capacity smem \<and> chk_word (drop 16 raw) = 5 \<and> chk_word (drop 20 raw) = 0)"

definition zero_map :: tetris_modem_memory_map where
  "zero_map = \<lparr> block_count = 0, blocks = replicate TETRIS_MODEM_MAX_BLOCKS zero_block \<rparr>"

definition zero_plan :: tetris_modem_smem_plan where
  "zero_plan = \<lparr> nc = [], cache = [], nc_capacity = 0, cache_capacity = 0, nc_rows = 0, cache_rows = 0 \<rparr>"

definition snapshot_inputs :: "bytes \<Rightarrow> tetris_modem_smem_inputs" where
  "snapshot_inputs chk = \<lparr> drdi_version = chk_word (drop 0x190 chk), udc_en = chk_word (drop 0x184 chk),
     consys_size = chk_word (drop 0x180 chk), nv_cache_size = chk_word (drop 0x18c chk), ccb_gear = 1 \<rparr>"

text \<open>
  The checks are in the order of the source; each stage returns its error before the next one
  starts. The two local results (map and plan) are stack objects of the function.
\<close>

definition semantics_layout ::
  "bytes \<Rightarrow> nat list \<Rightarrow> tetris_metadata_banks ptr \<Rightarrow> int" where
  "semantics_layout snapshot offsets banks =
    (let chk = drop (offsets ! 7) snapshot; hdr = drop (offsets ! 1) snapshot; b = contents banks;
         logical = chk_word (drop 172 chk); rom_size = chk_word (drop (offsets ! 8) snapshot);
         dsp_off = chk_word (drop 184 chk); dsp_cap = chk_word (drop 188 chk); regions = chk_word (drop 192 chk);
         ret = tetris_metadata_windows banks in
     if ret \<noteq> 0 then ret
     else if logical = 0 \<or> ucast logical > window_capacity (bank_firmware b) \<or> chk_word (drop 176 chk) = 0 \<or>
             chk_word (drop 176 chk) > logical \<or> rom_size < 512 \<or> rom_size > 64 * 1024 * 1024 \<or>
             rom_size AND 15 \<noteq> 0 \<or> rom_size > logical \<or> \<not> contained dsp_off dsp_cap logical \<or>
             dsp_off < rom_size \<or> regions = 0 \<or> regions > 8
     then - ERANGE
     else if get_le64 hdr \<noteq> window_base (bank_firmware b) \<or>
             get_le64 (drop (offsets ! 9) snapshot) \<noteq> window_base (bank_firmware b) \<or> any_nonzero (drop 15 hdr) 9
     then - EBADMSG
     else regions_loop chk logical [0 ..< unat regions])"

definition semantics_map ::
  "bytes \<Rightarrow> nat list \<Rightarrow> nat list \<Rightarrow> tetris_metadata_banks \<Rightarrow> int" where
  "semantics_map snapshot offsets lengths b =
    (let chk = drop (offsets ! 7) snapshot; rom_size = chk_word (drop (offsets ! 8) snapshot) in
     case tetris_metadata_memory chk (ucast rom_size) (window_base (bank_firmware b))
            (window_capacity (bank_firmware b)) (At 0 zero_map) of (ret, memory) \<Rightarrow>
     if ret \<noteq> 0 then ret
     else let m = padding (contents memory) in
     if lengths ! 10 \<noteq> block_count m * 24 then - EBADMSG
     else blocks_loop (drop (offsets ! 10) snapshot) (take (block_count m) (blocks m)))"

definition semantics_plan ::
  "bytes \<Rightarrow> nat list \<Rightarrow> nat list \<Rightarrow> tetris_metadata_banks \<Rightarrow> int" where
  "semantics_plan snapshot offsets lengths b =
    (let inputs = snapshot_inputs (drop (offsets ! 7) snapshot) in
     if udc_en inputs \<noteq> 0 \<or> consys_size inputs = 0 then - EPROTONOSUPPORT
     else case tetris_modem_plan_smem_b41 (At 0 inputs) (At 0 zero_plan) of (ret, plan) \<Rightarrow>
     if ret \<noteq> 0 then ret
     else let smem = contents plan in
     if ucast (nc_capacity smem) > window_capacity (bank_nc b) \<or> ucast (cache_capacity smem) > window_capacity (bank_cache b) \<or>
        lengths ! 12 \<noteq> unat (nc_rows smem * 40) \<or> lengths ! 14 \<noteq> unat (cache_rows smem * 40)
     then - ERANGE
     else let ret = tetris_metadata_smem (drop (offsets ! 12) snapshot) (lengths ! 12) (nc smem) (bank_nc b) 0;
              ret = (if ret = 0 then tetris_metadata_smem (drop (offsets ! 14) snapshot) (lengths ! 14) (cache smem) (bank_cache b) 0x8000000
                     else ret) in
     if ret \<noteq> 0 then ret
     else if \<not> legacy_mirrors snapshot offsets b smem then - EBADMSG
     else let ret = cache_loop (drop (offsets ! 16) snapshot) (window_base (bank_cache b)) (take 5 (cache smem)) in
     if ret \<noteq> 0 then ret
     else nc_loop (drop (offsets ! 18) snapshot) (take 18 (nc smem)))"

definition tetris_metadata_semantics ::
  "bytes \<Rightarrow> nat list \<Rightarrow> nat list \<Rightarrow> tetris_metadata_banks ptr \<Rightarrow> int" where
  "tetris_metadata_semantics snapshot offsets lengths banks =
    (let ret = semantics_layout snapshot offsets banks in
     if ret \<noteq> 0 then ret
     else let ret = semantics_map snapshot offsets lengths (contents banks) in
     if ret \<noteq> 0 then ret
     else semantics_plan snapshot offsets lengths (contents banks))"

section \<open>Boot report and tag descriptor\<close>

text \<open>The words of the report that hold an error; a negative one is passed on.\<close>

fun report_errors :: "bytes \<Rightarrow> nat list \<Rightarrow> int" where
  "report_errors raw [] = 0"
| "report_errors raw (i # is) =
    (let err = sint (le32 (drop i raw)) in
     if err \<noteq> 0 then (if err < 0 then err else - EBADMSG) else report_errors raw is)"

definition tetris_brom_result :: "bytes ptr \<Rightarrow> int \<Rightarrow> int" where
  "tetris_brom_result raw len =
    (if raw = Null then - ENODATA
     else if len \<noteq> 80 \<or> le32 (contents raw) \<noteq> 1 then - EBADMSG
     else let ret = report_errors (contents raw) [4, 8, 16, 24, 32] in
     if ret \<noteq> 0 then ret
     else if le32 (drop 12 (contents raw)) \<noteq> 11 \<or> le32 (drop 20 (contents raw)) \<noteq> 15 \<or>
             le32 (drop 28 (contents raw)) \<noteq> 0 \<or> get_le64 (drop 64 (contents raw)) \<noteq> 0x100000001 \<or>
             get_le64 (drop 72 (contents raw)) \<noteq> 0x100000001
     then - EAGAIN else 0)"

definition tetris_descriptor_bytes :: "bytes ptr \<Rightarrow> int \<Rightarrow> u64 ptr \<Rightarrow> u32 ptr \<Rightarrow> int \<times> u64 ptr \<times> u32 ptr" where
  "tetris_descriptor_bytes raw len base used =
    (if raw = Null then (- ENODATA, base, used)
     else if len \<noteq> 32 then (- EBADMSG, base, used)
     else let r = contents raw; b = get_le64 r; u = le32 (drop 8 r); base = store base b; used = store used u in
     if b = 0 \<or> b AND 4095 \<noteq> 0 \<or> b > NOT 0 - 65536 \<or> u < 21 * 76 \<or> u > 65536 \<or>
        le32 (drop 12 r) \<noteq> 0 \<or> le32 (drop 16 r) \<noteq> 2 \<or> le32 (drop 20 r) \<noteq> 21 \<or>
        le32 (drop 24 r) \<noteq> 0 \<or> le32 (drop 28 r) \<noteq> 0
     then (- EBADMSG, base, used) else (0, base, used))"

section \<open>Specification: canonical tables\<close>

definition row_bytes :: "u64 \<Rightarrow> u32 \<Rightarrow> u32 \<Rightarrow> u32 \<Rightarrow> u32 \<Rightarrow> u32 \<Rightarrow> bytes" where
  "row_bytes base i offset sz flags md_offset =
     put_le64 (base + ucast offset) @ put_le64 0 @ put32 i @ put32 offset @ put32 sz @ put32 0 @ put32 flags @
     put32 (md_offset + offset)"

fun smem_table :: "u64 \<Rightarrow> u32 \<Rightarrow> u32 \<Rightarrow> tetris_modem_smem_entry list \<Rightarrow> bytes" where
  "smem_table base md_offset cursor [] = []"
| "smem_table base md_offset cursor (e # es) =
    (if entry_offset e > cursor then row_bytes base (entry_id e) cursor (entry_offset e - cursor) 4 md_offset else []) @
    row_bytes base (entry_id e) (entry_offset e) (entry_size e) (entry_flags e) md_offset @
    smem_table base md_offset (entry_offset e + entry_size e) es"

fun in_bank :: "u64 \<Rightarrow> u32 \<Rightarrow> u32 \<Rightarrow> tetris_modem_smem_entry list \<Rightarrow> bool" where
  "in_bank capacity md_offset cursor [] \<longleftrightarrow> True"
| "in_bank capacity md_offset cursor (e # es) \<longleftrightarrow>
    \<not> (entry_offset e < cursor \<or> ucast (entry_offset e) > capacity \<or> ucast (entry_size e) > capacity - ucast (entry_offset e) \<or>
       entry_offset e > 0xffffffff - md_offset \<or> entry_size e > 0xffffffff - md_offset - entry_offset e) \<and>
    in_bank capacity md_offset (entry_offset e + entry_size e) es"

definition block_bytes :: "tetris_modem_block \<Rightarrow> bytes" where
  "block_bytes b = put32 (block_offset b) @ put32 (block_size b) @ put32 (block_info b) @ put32 (block_attributes b) @
     put_le64 (physical b)"

definition cache_bytes :: "u64 \<Rightarrow> tetris_modem_smem_entry \<Rightarrow> bytes" where
  "cache_bytes base e = put_le64 (base + ucast (entry_offset e)) @ put32 (entry_offset e) @ put32 (entry_size e) @
     put32 (entry_id e) @ put32 0"

definition nc_bytes :: "tetris_modem_smem_entry \<Rightarrow> bytes" where
  "nc_bytes e = put32 (entry_offset e) @ put32 (entry_offset e) @ put32 (entry_size e) @ put32 (entry_id e)"

section \<open>Fixed-width fields of a row\<close>

lemma chk_word_le32: "chk_word = le32"
  by (simp add: fun_eq_iff chk_word_def le32_def)

text \<open>Fields one after another: the first decides the head, the others the rest.\<close>

lemma field_append:
  assumes "length ys = k" and "k \<le> length p" and "k \<le> n"
  shows "take n p = ys @ zs \<longleftrightarrow> take k p = ys \<and> take (n - k) (drop k p) = zs"
proof -
  have "take n p = take k p @ take (n - k) (drop k p)"
    using take_add [of k "n - k" p] assms(3) by simp
  then show ?thesis using assms by simp
qed

lemma row_iff:
  assumes "40 \<le> length raw"
  shows "tetris_metadata_smem_row raw base i offset sz flags md_offset = 0 \<longleftrightarrow>
    take 40 raw = row_bytes base i offset sz flags md_offset"
  using assms
  by (simp add: tetris_metadata_smem_row_def row_bytes_def field_append chk_word_le32 le64_take le32_take)

lemma length_row_bytes [simp]: "length (row_bytes base i offset sz flags md) = 40"
  by (simp add: row_bytes_def)

section \<open>Tables\<close>

text \<open>A loop over rows of one width accepts exactly the concatenation of their encodings.\<close>

lemma take_rows:
  assumes "length row = k" and "k \<le> n" and "n \<le> length p"
  shows "take n p = row @ rest \<longleftrightarrow> take k p = row \<and> take (n - k) (drop k p) = rest"
  using field_append [OF assms(1), of p n rest] assms by simp

lemma blocks_loop_iff:
  "24 * length bs \<le> length raw \<Longrightarrow>
   blocks_loop raw bs = 0 \<longleftrightarrow> take (24 * length bs) raw = concat (map block_bytes bs)"
proof (induction bs arbitrary: raw)
  case (Cons b bs)
  have l: "length (block_bytes b) = 24" by (simp add: block_bytes_def)
  have row: "\<not> (chk_word raw \<noteq> block_offset b \<or> chk_word (drop 4 raw) \<noteq> block_size b \<or>
        chk_word (drop 8 raw) \<noteq> block_info b \<or> chk_word (drop 12 raw) \<noteq> block_attributes b \<or>
        get_le64 (drop 16 raw) \<noteq> physical b) \<longleftrightarrow> take 24 raw = block_bytes b"
    using Cons.prems by (auto simp: block_bytes_def field_append chk_word_le32 le64_take le32_take)
  show ?case
    using Cons.IH [of "drop 24 raw"] Cons.prems row take_rows [OF l, of "24 * length (b # bs)" raw "concat (map block_bytes bs)"]
    by auto
qed simp

lemma cache_loop_iff:
  "24 * length es \<le> length raw \<Longrightarrow>
   cache_loop raw base es = 0 \<longleftrightarrow> take (24 * length es) raw = concat (map (cache_bytes base) es)"
proof (induction es arbitrary: raw)
  case (Cons e es)
  have l: "length (cache_bytes base e) = 24" by (simp add: cache_bytes_def)
  have row: "\<not> (get_le64 raw \<noteq> base + ucast (entry_offset e) \<or> chk_word (drop 8 raw) \<noteq> entry_offset e \<or>
        chk_word (drop 12 raw) \<noteq> entry_size e \<or> chk_word (drop 16 raw) \<noteq> entry_id e \<or> chk_word (drop 20 raw) \<noteq> 0) \<longleftrightarrow>
      take 24 raw = cache_bytes base e"
    using Cons.prems by (auto simp: cache_bytes_def field_append chk_word_le32 le64_take le32_take)
  show ?case
    using Cons.IH [of "drop 24 raw"] Cons.prems row
      take_rows [OF l, of "24 * length (e # es)" raw "concat (map (cache_bytes base) es)"] by auto
qed simp

lemma nc_loop_iff:
  "16 * length es \<le> length raw \<Longrightarrow> nc_loop raw es = 0 \<longleftrightarrow> take (16 * length es) raw = concat (map nc_bytes es)"
proof (induction es arbitrary: raw)
  case (Cons e es)
  have l: "length (nc_bytes e) = 16" by (simp add: nc_bytes_def)
  have row: "\<not> (chk_word raw \<noteq> entry_offset e \<or> chk_word (drop 4 raw) \<noteq> entry_offset e \<or>
        chk_word (drop 8 raw) \<noteq> entry_size e \<or> chk_word (drop 12 raw) \<noteq> entry_id e) \<longleftrightarrow> take 16 raw = nc_bytes e"
    using Cons.prems by (auto simp: nc_bytes_def field_append chk_word_le32 le32_take)
  show ?case
    using Cons.IH [of "drop 16 raw"] Cons.prems row
      take_rows [OF l, of "16 * length (e # es)" raw "concat (map nc_bytes es)"] by auto
qed simp

text \<open>One expected row at the current position.\<close>

lemma row_step:
  assumes "n \<le> length raw" and "used \<le> n"
  shows "\<not> n - used < 40 \<and> tetris_metadata_smem_row (drop used raw) base i offset sz flags md = 0 \<and> P \<longleftrightarrow>
    40 \<le> n - used \<and> take 40 (drop used raw) = row_bytes base i offset sz flags md \<and> P"
  using assms row_iff [of "drop used raw"] by auto

lemma table_step:
  assumes "used \<le> n" and "n \<le> length raw"
  shows "take (n - used) (drop used raw) = row_bytes base i offset sz flags md @ rest \<longleftrightarrow>
    40 \<le> n - used \<and> take 40 (drop used raw) = row_bytes base i offset sz flags md \<and>
    take (n - (used + 40)) (drop (used + 40) raw) = rest"
proof (cases "40 \<le> n - used")
  case True
  then show ?thesis
    using take_rows [of "row_bytes base i offset sz flags md" 40 "n - used" "drop used raw" rest] assms by (simp add: add.commute)
next
  case False
  have "length (take (n - used) (drop used raw)) \<noteq> length (row_bytes base i offset sz flags md @ rest)"
    using False by simp
  then show ?thesis using False by metis
qed

lemma smem_rows_iff:
  "used \<le> n \<Longrightarrow> n \<le> length raw \<Longrightarrow>
   smem_rows_from raw n bank md es cursor used = 0 \<longleftrightarrow>
     in_bank (window_capacity bank) md cursor es \<and>
     take (n - used) (drop used raw) = smem_table (window_base bank) md cursor es"
proof (induction es arbitrary: cursor used)
  case Nil
  then show ?case by auto
next
  case (Cons e es)
  let ?bad = "entry_offset e < cursor \<or> ucast (entry_offset e) > window_capacity bank \<or>
        ucast (entry_size e) > window_capacity bank - ucast (entry_offset e) \<or>
        entry_offset e > 0xffffffff - md \<or> entry_size e > 0xffffffff - md - entry_offset e"
  let ?row = "\<lambda>used. tetris_metadata_smem_row (drop used raw) (window_base bank) (entry_id e) (entry_offset e)
                      (entry_size e) (entry_flags e) md"
  let ?rest = "\<lambda>used. smem_rows_from raw n bank md es (entry_offset e + entry_size e) (used + 40)"
  have tail: "\<not> n - u < 40 \<and> ?row u = 0 \<and> ?rest u = 0 \<longleftrightarrow>
      in_bank (window_capacity bank) md (entry_offset e + entry_size e) es \<and>
      take (n - u) (drop u raw) = row_bytes (window_base bank) (entry_id e) (entry_offset e) (entry_size e) (entry_flags e) md @
        smem_table (window_base bank) md (entry_offset e + entry_size e) es" if "u \<le> n" for u
    using row_step [OF Cons.prems(2) that, of "window_base bank" "entry_id e" "entry_offset e" "entry_size e" "entry_flags e" md "?rest u = 0"]
      table_step [OF that Cons.prems(2)] Cons.IH [of "u + 40"] Cons.prems(2) by auto
  show ?case
  proof (cases ?bad)
    case True
    then show ?thesis by auto
  next
    case ok: False
    show ?thesis
    proof (cases "entry_offset e > cursor")
      case pad: True
      let ?p = "tetris_metadata_smem_row (drop used raw) (window_base bank) (entry_id e) cursor (entry_offset e - cursor) 4 md"
      have "smem_rows_from raw n bank md (e # es) cursor used = 0 \<longleftrightarrow>
          \<not> n - used < 40 \<and> ?p = 0 \<and> (\<not> n - (used + 40) < 40 \<and> ?row (used + 40) = 0 \<and> ?rest (used + 40) = 0)"
        unfolding smem_rows_from.simps if_not_P [OF ok] Let_def using pad by auto
      also have "\<dots> \<longleftrightarrow> 40 \<le> n - used \<and> take 40 (drop used raw) =
            row_bytes (window_base bank) (entry_id e) cursor (entry_offset e - cursor) 4 md \<and>
          (\<not> n - (used + 40) < 40 \<and> ?row (used + 40) = 0 \<and> ?rest (used + 40) = 0)"
        by (rule row_step [OF Cons.prems(2,1)])
      also have "\<dots> \<longleftrightarrow> 40 \<le> n - used \<and> take 40 (drop used raw) =
            row_bytes (window_base bank) (entry_id e) cursor (entry_offset e - cursor) 4 md \<and>
          in_bank (window_capacity bank) md (entry_offset e + entry_size e) es \<and>
          take (n - (used + 40)) (drop (used + 40) raw) =
            row_bytes (window_base bank) (entry_id e) (entry_offset e) (entry_size e) (entry_flags e) md @
            smem_table (window_base bank) md (entry_offset e + entry_size e) es"
        using tail [of "used + 40"] Cons.prems(1) by (cases "40 \<le> n - used") simp_all
      also have "\<dots> \<longleftrightarrow> in_bank (window_capacity bank) md (entry_offset e + entry_size e) es \<and>
          take (n - used) (drop used raw) = row_bytes (window_base bank) (entry_id e) cursor (entry_offset e - cursor) 4 md @
            row_bytes (window_base bank) (entry_id e) (entry_offset e) (entry_size e) (entry_flags e) md @
            smem_table (window_base bank) md (entry_offset e + entry_size e) es"
        unfolding table_step [OF Cons.prems] by blast
      finally show ?thesis using ok pad by simp
    next
      case False
      have "smem_rows_from raw n bank md (e # es) cursor used = 0 \<longleftrightarrow> \<not> n - used < 40 \<and> ?row used = 0 \<and> ?rest used = 0"
        unfolding smem_rows_from.simps if_not_P [OF ok] Let_def using False by auto
      then show ?thesis using tail [OF Cons.prems(1)] ok False by simp
    qed
  qed
qed

section \<open>Windows as address ranges\<close>

definition window_range :: "tetris_metadata_window \<Rightarrow> nat set" where
  "window_range w = {unat (window_base w) ..< unat (window_base w) + unat (window_capacity w)}"

definition window_fits :: "nat \<Rightarrow> tetris_metadata_window \<Rightarrow> bool" where
  "window_fits i w \<longleftrightarrow> 0 < unat (window_base w) \<and> (if i = 3 then 2 ^ 12 else 2 ^ 25) dvd unat (window_base w) \<and>
     unat (window_base w) + unat (window_capacity w) < 2 ^ 64 \<and>
     (i < 3 \<longrightarrow> unat (window_base w) + unat (window_capacity w) \<le> 2 ^ 35)"

lemma aligned_iff: "n < 64 \<Longrightarrow> (w :: u64) AND (2 ^ n - 1) = 0 \<longleftrightarrow> 2 ^ n dvd unat w"
proof -
  assume n: "n < 64"
  have "w AND (2 ^ n - 1) = take_bit n w" by (simp add: take_bit_eq_mask mask_eq_exp_minus_1)
  moreover have "unat (take_bit n w) = unat w mod 2 ^ n" by (metis unsigned_take_bit_eq take_bit_eq_mod)
  ultimately show ?thesis by (simp add: word_unat_eq_iff dvd_eq_mod_eq_0)
qed

lemma window_no_wrap: "\<not> (b :: u64) > NOT 0 - c \<longleftrightarrow> unat b + unat c < 2 ^ 64"
proof -
  have "unat (NOT 0 - c) = 2 ^ 64 - 1 - unat c"
    by (subst unat_sub) (simp_all add: unsigned_minus_1_eq_mask mask_eq_exp_minus_1)
  then show ?thesis using unsigned_less [of c, where ?'a = nat] by (auto simp: word_less_nat_alt)
qed

lemma meets_iff:
  assumes "unat (window_base a) + unat (window_capacity a) < 2 ^ 64" "unat (window_base b) + unat (window_capacity b) < 2 ^ 64"
    and "0 < unat (window_capacity a)" "0 < unat (window_capacity b)"
  shows "window_meets a b \<longleftrightarrow> window_range a \<inter> window_range b \<noteq> {}"
proof -
  have e: "unat (window_base a + window_capacity a) = unat (window_base a) + unat (window_capacity a)"
      "unat (window_base b + window_capacity b) = unat (window_base b) + unat (window_capacity b)"
    using assms(1,2) by (simp_all add: unat_add_lem [THEN iffD1])
  have "window_range a \<inter> window_range b =
      {max (unat (window_base a)) (unat (window_base b)) ..<
       min (unat (window_base a) + unat (window_capacity a)) (unat (window_base b) + unat (window_capacity b))}"
    by (simp add: window_range_def)
  then show ?thesis
    using assms(3,4) e by (auto simp: window_meets_def word_less_nat_alt max_def min_def)
qed

lemma window_check_iff:
  "window_check ws i = 0 \<longleftrightarrow> window_fits i (ws ! i) \<and> (\<forall>j < i. \<not> window_meets (ws ! i) (ws ! j))"
proof -
  let ?w = "ws ! i" and ?k = "if i = 3 then 12 else 25 :: nat"
  have al: "window_base ?w AND ((if i = 3 then 4096 else 0x2000000) - 1) = 0 \<longleftrightarrow>
      (if i = 3 then 2 ^ 12 else 2 ^ 25) dvd unat (window_base ?w)"
    using aligned_iff [of ?k "window_base ?w"] by auto
  have z: "window_base ?w = 0 \<longleftrightarrow> \<not> 0 < unat (window_base ?w)" by (simp add: word_unat_eq_iff)
  have top: "window_base ?w + window_capacity ?w > push_bit 35 1 \<longleftrightarrow> unat (window_base ?w) + unat (window_capacity ?w) > 2 ^ 35"
    if "unat (window_base ?w) + unat (window_capacity ?w) < 2 ^ 64"
    using that by (simp add: word_less_nat_alt unat_add_lem [THEN iffD1])
  have "\<not> window_fits i ?w \<longleftrightarrow> (window_base ?w = 0 \<or> window_base ?w AND ((if i = 3 then 4096 else 0x2000000) - 1) \<noteq> 0 \<or>
      window_base ?w > NOT 0 - window_capacity ?w \<or> (i < 3 \<and> window_base ?w + window_capacity ?w > push_bit 35 1))"
    unfolding window_fits_def al z
    using top window_no_wrap [where b = "window_base ?w" and c = "window_capacity ?w"] by (metis not_less)
  then have "window_check ws i = (if \<not> window_fits i ?w then - ERANGE
      else if \<exists>j \<in> set [0 ..< i]. window_meets ?w (ws ! j) then - EEXIST else 0)"
    unfolding window_check_def Let_def by (simp only:)
  then show ?thesis by auto
qed

lemma windows_loop_iff: "windows_loop ws is = 0 \<longleftrightarrow> (\<forall>i \<in> set is. window_check ws i = 0)"
  by (induction "is") (auto simp: Let_def)

lemma all_less_4: "(\<forall>i < 4. P i) \<longleftrightarrow> P 0 \<and> P 1 \<and> P 2 \<and> P (3 :: nat)"
  by (auto simp: less_Suc_eq numeral_eq_Suc)

lemma all_less_small: "(\<forall>i < 1. P i) \<longleftrightarrow> P (0 :: nat)" "(\<forall>i < 2. P i) \<longleftrightarrow> P 0 \<and> P (1 :: nat)"
    "(\<forall>i < 3. P i) \<longleftrightarrow> P 0 \<and> P 1 \<and> P (2 :: nat)"
  by (auto simp: less_Suc_eq numeral_eq_Suc)

lemma four_windows:
  assumes "map window_capacity ws = [0x20000000, 0x8000000, 0x8000000, 65536]"
  shows "windows_loop ws [0 ..< 4] = 0 \<longleftrightarrow>
    (\<forall>i < 4. window_fits i (ws ! i) \<and> (\<forall>j < i. window_range (ws ! i) \<inter> window_range (ws ! j) = {}))"
proof -
  have len: "length ws = 4" using arg_cong [OF assms, of length] by simp
  have cap: "0 < unat (window_capacity (ws ! i))" if "i < 4" for i
  proof -
    have "window_capacity (ws ! i) = [0x20000000, 0x8000000, 0x8000000, 65536] ! i"
      using that len assms by (metis nth_map)
    then show ?thesis using that by (auto simp: nth_Cons' split: if_splits)
  qed
  have meets: "window_meets (ws ! i) (ws ! j) \<longleftrightarrow> window_range (ws ! i) \<inter> window_range (ws ! j) \<noteq> {}"
    if "window_fits i (ws ! i)" "window_fits j (ws ! j)" "i < 4" "j < i" for i j
    using that cap [of i] cap [of j] by (intro meets_iff) (simp_all add: window_fits_def)
  have "windows_loop ws [0 ..< 4] = 0 \<longleftrightarrow> (\<forall>i < 4. window_fits i (ws ! i) \<and> (\<forall>j < i. \<not> window_meets (ws ! i) (ws ! j)))"
    unfolding windows_loop_iff window_check_iff by (simp add: Ball_def)
  also have "\<dots> \<longleftrightarrow> (\<forall>i < 4. window_fits i (ws ! i) \<and> (\<forall>j < i. window_range (ws ! i) \<inter> window_range (ws ! j) = {}))"
    using meets by (meson less_trans)
  finally show ?thesis .
qed

section \<open>Properties\<close>

text \<open>
  C30. The window check accepts exactly the profile of the producer: the four fixed capacities,
  nonzero aligned bases, windows that do not wrap and, for the three modem banks, end below
  32 GiB, and pairwise disjoint address ranges.
\<close>

theorem metadata_windows_exact:
  "tetris_metadata_windows (At p banks) = 0 \<longleftrightarrow>
    map window_capacity (windows_of banks) = [0x20000000, 0x8000000, 0x8000000, 65536] \<and>
    list_all2 window_fits [0, 1, 2, 3] (windows_of banks) \<and>
    sorted_wrt (\<lambda>a b. window_range b \<inter> window_range a = {}) (windows_of banks)"
proof (cases "map window_capacity (windows_of banks) = [0x20000000, 0x8000000, 0x8000000, 65536]")
  case True
  have run: "tetris_metadata_windows (At p banks) = windows_loop (windows_of banks) [0 ..< 4]"
    using True unfolding tetris_metadata_windows_def windows_of_def Let_def by (simp del: windows_loop.simps upt_rec_numeral)
  show ?thesis
    using True unfolding run four_windows [OF True] by (simp add: windows_of_def all_less_4 all_less_small) blast
next
  case False
  then show ?thesis by (auto simp: tetris_metadata_windows_def windows_of_def Let_def)
qed

text \<open>
  The check of a shared-memory table accepts exactly one byte string: the rows of the
  entries in order, with a padding row before every gap, each row in the producer's layout,
  provided every entry lies in the bank behind its predecessor.
\<close>

lemma smem_table_exact:
  assumes "n \<le> length raw"
  shows "tetris_metadata_smem raw n entries bank md_offset = 0 \<longleftrightarrow>
    in_bank (window_capacity bank) md_offset 0 entries \<and>
    take n raw = smem_table (window_base bank) md_offset 0 entries"
  using smem_rows_iff [of 0 n raw bank md_offset entries 0] assms by (simp add: tetris_metadata_smem_def)

text \<open>The sections a snapshot is read in.\<close>

definition section_bytes :: "bytes \<Rightarrow> nat list \<Rightarrow> nat \<Rightarrow> nat \<Rightarrow> bytes" where
  "section_bytes snapshot offsets i n = take n (drop (offsets ! i) snapshot)"

definition sections_inside :: "bytes \<Rightarrow> nat list \<Rightarrow> nat list \<Rightarrow> bool" where
  "sections_inside snapshot offsets lengths \<longleftrightarrow>
     list_all (\<lambda>i. offsets ! i + lengths ! i \<le> length snapshot) [10, 12, 14] \<and>
     offsets ! 16 + 120 \<le> length snapshot \<and> offsets ! 18 + 288 \<le> length snapshot"

lemma semantics_map_iff:
  assumes "sections_inside snapshot offsets lengths"
  shows "semantics_map snapshot offsets lengths b = 0 \<longleftrightarrow>
    (\<exists>m. tetris_metadata_memory (drop (offsets ! 7) snapshot) (ucast (chk_word (drop (offsets ! 8) snapshot)))
        (window_base (bank_firmware b)) (window_capacity (bank_firmware b)) (At 0 zero_map) = (0, m) \<and>
      lengths ! 10 = 24 * length (live (padding (contents m))) \<and>
      section_bytes snapshot offsets 10 (lengths ! 10) = concat (map block_bytes (live (padding (contents m)))))"
proof -
  obtain r m where run: "tetris_metadata_memory (drop (offsets ! 7) snapshot) (ucast (chk_word (drop (offsets ! 8) snapshot)))
        (window_base (bank_firmware b)) (window_capacity (bank_firmware b)) (At 0 zero_map) = (r, m)" by fastforce
  show ?thesis
  proof (cases "r = 0")
    case True
    let ?m = "padding (contents m)"
    have "map_ok (unat (window_capacity (bank_firmware b))) (contents m)"
      using window_map_ok run True by blast
    then have ok: "map_ok (unat (window_capacity (bank_firmware b))) ?m" by (rule padding_ok)
    then have len: "length (live ?m) = block_count ?m" by (simp add: map_ok_def live_def)
    have in10: "offsets ! 10 + lengths ! 10 \<le> length snapshot" using assms by (simp add: sections_inside_def)
    show ?thesis
      using blocks_loop_iff [of "live ?m" "drop (offsets ! 10) snapshot"] in10 len
      unfolding semantics_map_def Let_def run prod.case section_bytes_def
      by (auto simp: True live_def [symmetric] mult.commute)
  next
    case False
    then show ?thesis unfolding semantics_map_def Let_def run by simp
  qed
qed

text \<open>What it means that a snapshot describes a plan.\<close>

definition plan_sections :: "bytes \<Rightarrow> nat list \<Rightarrow> nat list \<Rightarrow> tetris_metadata_banks \<Rightarrow> tetris_modem_smem_plan \<Rightarrow> bool" where
  "plan_sections snapshot offsets lengths b smem \<longleftrightarrow>
     ucast (nc_capacity smem) \<le> window_capacity (bank_nc b) \<and> ucast (cache_capacity smem) \<le> window_capacity (bank_cache b) \<and>
     lengths ! 12 = unat (nc_rows smem * 40) \<and> lengths ! 14 = unat (cache_rows smem * 40) \<and>
     in_bank (window_capacity (bank_nc b)) 0 0 (nc smem) \<and> in_bank (window_capacity (bank_cache b)) 0x8000000 0 (cache smem) \<and>
     section_bytes snapshot offsets 12 (lengths ! 12) = smem_table (window_base (bank_nc b)) 0 0 (nc smem) \<and>
     section_bytes snapshot offsets 14 (lengths ! 14) = smem_table (window_base (bank_cache b)) 0x8000000 0 (cache smem) \<and>
     legacy_mirrors snapshot offsets b smem \<and>
     section_bytes snapshot offsets 16 120 = concat (map (cache_bytes (window_base (bank_cache b))) (cache smem)) \<and>
     section_bytes snapshot offsets 18 288 = concat (map nc_bytes (nc smem))"

lemma length_pack: "length as = length es \<Longrightarrow> length (pack c es as) = length es"
  by (induction es as arbitrary: c rule: list_induct2') simp_all

lemma plan_lengths:
  assumes "tetris_modem_plan_smem_b41 (At p i) (At q old) = (0, m)"
  shows "length (nc (contents m)) = 18" and "length (cache (contents m)) = 5"
  using assms by (auto simp: plan_result Let_def length_pack nc_layout length_cache split: option.splits if_splits)

lemma semantics_plan_iff:
  assumes inside: "sections_inside snapshot offsets lengths"
  shows "semantics_plan snapshot offsets lengths b = 0 \<longleftrightarrow>
    (let inputs = snapshot_inputs (drop (offsets ! 7) snapshot) in
     udc_en inputs = 0 \<and> consys_size inputs \<noteq> 0 \<and>
     (\<exists>m. tetris_modem_plan_smem_b41 (At 0 inputs) (At 0 zero_plan) = (0, m) \<and>
       plan_sections snapshot offsets lengths b (contents m)))"
proof -
  let ?in = "snapshot_inputs (drop (offsets ! 7) snapshot)"
  obtain r m where run: "tetris_modem_plan_smem_b41 (At 0 ?in) (At 0 zero_plan) = (r, m)" by fastforce
  show ?thesis
  proof (cases "r = 0 \<and> udc_en ?in = 0 \<and> consys_size ?in \<noteq> 0")
    case False
    then show ?thesis by (auto simp: semantics_plan_def run Let_def)
  next
    case True
    note len = plan_lengths [OF run [unfolded conjunct1 [OF True]]]
    let ?s = "contents m"
    have n12: "lengths ! 12 \<le> length (drop (offsets ! 12) snapshot)" and n14: "lengths ! 14 \<le> length (drop (offsets ! 14) snapshot)"
      using inside by (auto simp: sections_inside_def)
    have n16: "24 * length (cache ?s) \<le> length (drop (offsets ! 16) snapshot)"
      and n18: "16 * length (nc ?s) \<le> length (drop (offsets ! 18) snapshot)"
      using inside len by (auto simp: sections_inside_def)
    have t12: "tetris_metadata_smem (drop (offsets ! 12) snapshot) (lengths ! 12) (nc ?s) (bank_nc b) 0 = 0 \<longleftrightarrow>
        in_bank (window_capacity (bank_nc b)) 0 0 (nc ?s) \<and>
        section_bytes snapshot offsets 12 (lengths ! 12) = smem_table (window_base (bank_nc b)) 0 0 (nc ?s)"
      using smem_rows_iff [OF le0 n12] by (simp add: tetris_metadata_smem_def section_bytes_def)
    have t14: "tetris_metadata_smem (drop (offsets ! 14) snapshot) (lengths ! 14) (cache ?s) (bank_cache b) 0x8000000 = 0 \<longleftrightarrow>
        in_bank (window_capacity (bank_cache b)) 0x8000000 0 (cache ?s) \<and>
        section_bytes snapshot offsets 14 (lengths ! 14) = smem_table (window_base (bank_cache b)) 0x8000000 0 (cache ?s)"
      using smem_rows_iff [OF le0 n14] by (simp add: tetris_metadata_smem_def section_bytes_def)
    have t16: "cache_loop (drop (offsets ! 16) snapshot) (window_base (bank_cache b)) (take 5 (cache ?s)) = 0 \<longleftrightarrow>
        section_bytes snapshot offsets 16 120 = concat (map (cache_bytes (window_base (bank_cache b))) (cache ?s))"
      using cache_loop_iff [OF n16] len by (simp add: section_bytes_def)
    have t18: "nc_loop (drop (offsets ! 18) snapshot) (take 18 (nc ?s)) = 0 \<longleftrightarrow>
        section_bytes snapshot offsets 18 288 = concat (map nc_bytes (nc ?s))"
      using nc_loop_iff [OF n18] len by (simp add: section_bytes_def)
    have "semantics_plan snapshot offsets lengths b = 0 \<longleftrightarrow> plan_sections snapshot offsets lengths b ?s"
      using True t12 t14 t16 t18 unfolding semantics_plan_def Let_def run prod.case plan_sections_def
      by (auto simp: not_less)
    then show ?thesis using True run by (auto simp: Let_def)
  qed
qed



end
