(* ===== verification/Md_Pss.thy ===== *)
theory Md_Pss
  imports Tetris_Prelude
begin

text \<open>
  The signature backend of \<^verbatim>\<open>patches/modem/mt6878_md_pss32.c\<close>: RSA-2048 with PSS padding, SHA-256
  and a salt of 32 bytes. The crypto interface of the kernel is a parameter that answers every
  call with an arbitrary status; what a successful answer means is the hypothesis
  \<open>crypto_sound\<close>. Verification is proved to implement the PSS encoding check of RFC 8017, and
  construction to free what it allocated.
\<close>

unbundle bit_operations_syntax

section \<open>The crypto interface and the context\<close>

text \<open>
  Allocators answer 0 or a negative errno. The digest writes its output, the raw RSA
  operation writes the destination and its length.
\<close>

record 'w md_crypto =
  cr_kzalloc :: "'w \<Rightarrow> bool \<times> 'w"
  cr_alloc_akcipher :: "'w \<Rightarrow> int \<times> 'w"
  cr_set_pub_key :: "bytes \<Rightarrow> 'w \<Rightarrow> int \<times> 'w"
  cr_maxsize :: "'w \<Rightarrow> nat \<times> 'w"
  cr_alloc_shash :: "'w \<Rightarrow> int \<times> 'w"
  cr_digestsize :: "'w \<Rightarrow> nat \<times> 'w"
  cr_request_alloc :: "'w \<Rightarrow> bool \<times> 'w"
  cr_digest :: "bytes \<Rightarrow> 'w \<Rightarrow> (int \<times> bytes) \<times> 'w"
  cr_encrypt :: "bytes \<Rightarrow> bytes \<Rightarrow> 'w \<Rightarrow> (int \<times> bytes \<times> nat) \<times> 'w"

datatype md_resource = Md_context | Md_rsa | Md_sha | Md_desc | Md_request | Md_work
datatype md_event = Md_alloc md_resource | Md_free md_resource

type_synonym 'w md_state = "'w \<times> md_event list"

record mt6878_md_pss32 =
  pss_rsa :: bool
  pss_sha :: bool
  pss_desc :: bool
  pss_request :: bool
  pss_key :: bytes
  pss_signature :: bytes
  pss_em :: bytes

definition MD_RSA_BYTES :: nat where [simp]: "MD_RSA_BYTES = 256"
definition MD_HASH_BYTES :: nat where [simp]: "MD_HASH_BYTES = 32"
definition MD_DB_BYTES :: nat where [simp]: "MD_DB_BYTES = MD_RSA_BYTES - MD_HASH_BYTES - 1"
definition MD_PAD_BYTES :: nat where [simp]: "MD_PAD_BYTES = MD_DB_BYTES - MD_HASH_BYTES - 1"

definition md_crypto_error :: "int \<Rightarrow> int" where
  "md_crypto_error error = (if error > 0 then - EPROTO else error)"

section \<open>Construction and release\<close>

definition mt6878_md_pss32_destroy :: "mt6878_md_pss32 ptr \<Rightarrow> 'w md_state \<Rightarrow> 'w md_state" where
  "mt6878_md_pss32_destroy ctx s =
    (if ctx = Null then s
     else case s of (w, tr) \<Rightarrow> let c = contents ctx in
       (w, tr @ (if pss_request c then [Md_free Md_request] else []) @
               (if pss_desc c then [Md_free Md_desc] else []) @
               (if pss_sha c then [Md_free Md_sha] else []) @
               (if pss_rsa c then [Md_free Md_rsa] else []) @ [Md_free Md_context]))"

definition key_prefix :: bytes where "key_prefix = [0x30, 0x82, 1, 0x0a, 2, 0x82, 1, 1, 0]"
definition key_exponent :: bytes where "key_exponent = [2, 3, 1, 0, 1]"

definition key_admitted :: "bytes \<Rightarrow> nat \<Rightarrow> bool" where
  "key_admitted key len \<longleftrightarrow> len = 270 \<and> take 9 key = key_prefix \<and> key ! 9 AND 0x80 \<noteq> 0 \<and>
     key ! 264 AND 1 \<noteq> 0 \<and> take 5 (drop 265 key) = key_exponent"

definition noted :: "md_resource \<Rightarrow> 'w md_state \<Rightarrow> 'w md_state" where
  "noted r s = (case s of (w, tr) \<Rightarrow> (w, tr @ [Md_alloc r]))"

definition asked :: "('w \<Rightarrow> 'a \<times> 'w) \<Rightarrow> 'w md_state \<Rightarrow> 'a \<times> 'w md_state" where
  "asked call s = (case s of (w, tr) \<Rightarrow> (case call w of (a, w) \<Rightarrow> (a, (w, tr))))"

text \<open>\<open>Inl\<close> is an error pointer; the label \<^verbatim>\<open>fail\<close> destroys the context built so far.\<close>

definition create_failed :: "int \<Rightarrow> mt6878_md_pss32 \<Rightarrow> 'w md_state \<Rightarrow> (int + mt6878_md_pss32) \<times> 'w md_state" where
  "create_failed ret ctx s = (Inl ret, mt6878_md_pss32_destroy (At 0 ctx) s)"

definition create_sha :: "'w md_crypto \<Rightarrow> mt6878_md_pss32 \<Rightarrow> 'w md_state \<Rightarrow> (int + mt6878_md_pss32) \<times> 'w md_state" where
  "create_sha api ctx s =
    (case asked (cr_alloc_shash api) s of (ret, s) \<Rightarrow>
     if ret \<noteq> 0 then create_failed ret ctx s
     else let ctx = ctx\<lparr> pss_sha := True \<rparr>; s = noted Md_sha s in
     case asked (cr_digestsize api) s of (n, s) \<Rightarrow>
     if n \<noteq> MD_HASH_BYTES then create_failed (- EPROTO) ctx s
     else case asked (cr_kzalloc api) s of (ok, s) \<Rightarrow>
     if \<not> ok then create_failed (- ENOMEM) ctx s
     else let ctx = ctx\<lparr> pss_desc := True \<rparr>; s = noted Md_desc s in
     case asked (cr_request_alloc api) s of (ok, s) \<Rightarrow>
     if \<not> ok then create_failed (- ENOMEM) ctx s
     else (Inr (ctx\<lparr> pss_request := True \<rparr>), noted Md_request s))"

definition mt6878_md_pss32_create ::
  "'w md_crypto \<Rightarrow> bytes ptr \<Rightarrow> nat \<Rightarrow> 'w md_state \<Rightarrow> (int + mt6878_md_pss32) \<times> 'w md_state" where
  "mt6878_md_pss32_create api key len s =
    (if key = Null \<or> \<not> key_admitted (contents key) len then (Inl (- EINVAL), s)
     else case asked (cr_kzalloc api) s of (ok, s) \<Rightarrow>
     if \<not> ok then (Inl (- ENOMEM), s)
     else let ctx = \<lparr> pss_rsa = False, pss_sha = False, pss_desc = False, pss_request = False, pss_key = [],
                      pss_signature = zeroed MD_RSA_BYTES, pss_em = zeroed MD_RSA_BYTES \<rparr>;
              s = noted Md_context s in
     case asked (cr_alloc_akcipher api) s of (ret, s) \<Rightarrow>
     if ret \<noteq> 0 then create_failed ret ctx s
     else let ctx = ctx\<lparr> pss_rsa := True \<rparr>; s = noted Md_rsa s in
     case asked (cr_set_pub_key api (take len (contents key))) s of (ret, s) \<Rightarrow>
     if md_crypto_error ret \<noteq> 0 then create_failed (md_crypto_error ret) ctx s
     else let ctx = ctx\<lparr> pss_key := take len (contents key) \<rparr> in
     case asked (cr_maxsize api) s of (n, s) \<Rightarrow>
     if n \<noteq> MD_RSA_BYTES then create_failed (- EPROTO) ctx s
     else create_sha api ctx s)"

section \<open>Digest and verification\<close>

definition mt6878_md_pss32_sha256 ::
  "'w md_crypto \<Rightarrow> mt6878_md_pss32 ptr \<Rightarrow> bytes ptr \<Rightarrow> nat \<Rightarrow> bytes \<Rightarrow> 'w md_state \<Rightarrow> (int \<times> bytes) \<times> 'w md_state" where
  "mt6878_md_pss32_sha256 api ctx bytes n digest s =
    (if ctx = Null \<or> bytes = Null \<or> n = 0 \<or> n > 64 * 1024 * 1024 then ((- EINVAL, digest), s)
     else case asked (cr_digest api (take n (contents bytes))) s of ((ret, digest), s) \<Rightarrow>
       let ret = md_crypto_error ret in
       ((ret, if ret \<noteq> 0 then zeroed MD_HASH_BYTES else digest), s))"

definition be32 :: "u32 \<Rightarrow> bytes" where
  "be32 c = [ucast (drop_bit 24 c), ucast (drop_bit 16 c), ucast (drop_bit 8 c), ucast c]"

definition xor_bytes :: "bytes \<Rightarrow> bytes \<Rightarrow> bytes" where
  "xor_bytes a b = map2 (\<lambda>x y. x XOR y) a b"

text \<open>The loop over the blocks of the mask; \<open>db\<close> holds the bytes unmasked so far.\<close>

function mgf_loop :: "'w md_crypto \<Rightarrow> mt6878_md_pss32 \<Rightarrow> bytes \<Rightarrow> nat \<Rightarrow> u32 \<Rightarrow> bytes \<Rightarrow> 'w md_state \<Rightarrow>
    (int \<times> bytes) \<times> 'w md_state" where
  "mgf_loop api ctx h offset count db s =
    (if offset < MD_DB_BYTES then
       case mt6878_md_pss32_sha256 api (At 0 ctx) (At 0 (h @ be32 count)) (MD_HASH_BYTES + 4) (zeroed 32) s of
         ((ret, mask_bytes), s) \<Rightarrow>
       if ret \<noteq> 0 then ((ret, db), s)
       else mgf_loop api ctx h (offset + MD_HASH_BYTES) (count + 1)
              (db @ xor_bytes (take (min MD_HASH_BYTES (MD_DB_BYTES - offset)) (drop offset (pss_em ctx))) mask_bytes) s
     else ((0, db), s))"
  by auto
termination by (relation "measure (\<lambda>(api, ctx, h, offset, count, db, s). 223 - offset)") auto

definition md_pss32_encoded :: "'w md_crypto \<Rightarrow> mt6878_md_pss32 \<Rightarrow> bytes \<Rightarrow> 'w md_state \<Rightarrow> int \<times> 'w md_state" where
  "md_pss32_encoded api ctx hash s =
    (let em = pss_em ctx; h = take MD_HASH_BYTES (drop MD_DB_BYTES em) in
     if em ! (MD_RSA_BYTES - 1) \<noteq> 0xbc \<or> em ! 0 AND 0x80 \<noteq> 0 then (- EKEYREJECTED, s)
     else case mgf_loop api ctx h 0 0 [] s of ((ret, db), s) \<Rightarrow>
     if ret \<noteq> 0 then (ret, s)
     else let db = db[0 := db ! 0 AND 0x7f] in
     if \<not> list_all (\<lambda>b. b = 0) (take MD_PAD_BYTES db) then (- EKEYREJECTED, s)
     else if db ! MD_PAD_BYTES \<noteq> 1 then (- EKEYREJECTED, s)
     else let prime_input = zeroed 8 @ hash @ take MD_HASH_BYTES (drop (MD_PAD_BYTES + 1) db) in
     case mt6878_md_pss32_sha256 api (At 0 ctx) (At 0 prime_input) (8 + MD_HASH_BYTES + MD_HASH_BYTES) (zeroed 32) s of
       ((ret, prime), s) \<Rightarrow>
     if ret = 0 \<and> h \<noteq> prime then (- EKEYREJECTED, s) else (ret, s))"

definition mt6878_md_pss32_verify ::
  "'w md_crypto \<Rightarrow> mt6878_md_pss32 ptr \<Rightarrow> bytes ptr \<Rightarrow> nat \<Rightarrow> bytes ptr \<Rightarrow> nat \<Rightarrow> 'w md_state \<Rightarrow>
   (int \<times> mt6878_md_pss32 ptr) \<times> 'w md_state" where
  "mt6878_md_pss32_verify api ctx tbs tbs_size signature signature_size s =
    (if ctx = Null \<or> tbs = Null \<or> tbs_size = 0 \<or> tbs_size > 16384 \<or> signature = Null \<or>
        signature_size \<noteq> MD_RSA_BYTES then ((- EINVAL, ctx), s)
     else case mt6878_md_pss32_sha256 api ctx tbs tbs_size (zeroed 32) s of ((ret, hash), s) \<Rightarrow>
     if ret \<noteq> 0 then ((ret, ctx), s)
     else let c = contents ctx; sig = take MD_RSA_BYTES (contents signature) in
     case asked (cr_encrypt api (pss_key c) sig) s of ((ret, em, dst_len), s) \<Rightarrow>
     let c = c\<lparr> pss_signature := sig, pss_em := em \<rparr>;
         ret = md_crypto_error ret;
         ret = (if ret = 0 \<and> dst_len \<noteq> MD_RSA_BYTES then - EPROTO else ret) in
     case (if ret = 0 then md_pss32_encoded api c hash s else (ret, s)) of (ret, s) \<Rightarrow>
     ((ret, store ctx (c\<lparr> pss_signature := zeroed MD_RSA_BYTES, pss_em := zeroed MD_RSA_BYTES \<rparr>)), s))"

section \<open>The reference: EMSA-PSS of RFC 8017\<close>

definition mgf1 :: "(bytes \<Rightarrow> bytes) \<Rightarrow> bytes \<Rightarrow> nat \<Rightarrow> bytes" where
  "mgf1 H seed n = take n (concat (map (\<lambda>c. H (seed @ be32 (of_nat c))) [0..<(n + 31) div 32]))"

definition clear_top :: "bytes \<Rightarrow> bytes" where
  "clear_top db = db[0 := db ! 0 AND 0x7f]"

definition emsa_pss_verify :: "(bytes \<Rightarrow> bytes) \<Rightarrow> bytes \<Rightarrow> bytes \<Rightarrow> bool" where
  "emsa_pss_verify H em message_hash \<longleftrightarrow>
    (let h = take 32 (drop 223 em);
         db = clear_top (xor_bytes (take 223 em) (mgf1 H h 223));
         salt = drop 191 db
     in last em = 0xbc \<and> hd em AND 0x80 = 0 \<and> take 191 db = zeroed 190 @ [1] \<and>
        h = H (zeroed 8 @ message_hash @ salt))"

text \<open>The encoding of the same document; every encoded message is accepted.\<close>

definition emsa_pss_encode :: "(bytes \<Rightarrow> bytes) \<Rightarrow> bytes \<Rightarrow> bytes \<Rightarrow> bytes" where
  "emsa_pss_encode H message_hash salt =
    (let h = H (zeroed 8 @ message_hash @ salt)
     in clear_top (xor_bytes (zeroed 190 @ [1] @ salt) (mgf1 H h 223)) @ h @ [0xbc])"

text \<open>What a successful answer of the interface means; \<open>H\<close> is the hash, \<open>E\<close> the raw RSA operation.\<close>

definition crypto_sound :: "'w md_crypto \<Rightarrow> (bytes \<Rightarrow> bytes) \<Rightarrow> (bytes \<Rightarrow> bytes \<Rightarrow> bytes) \<Rightarrow> bool" where
  "crypto_sound api H E \<longleftrightarrow>
     (\<forall>x w d w'. cr_digest api x w = ((0, d), w') \<longrightarrow> d = H x) \<and>
     (\<forall>k sig w em w'. cr_encrypt api k sig w = ((0, em, 256), w') \<longrightarrow> em = E k sig) \<and>
     (\<forall>x. length (H x) = 32) \<and> (\<forall>k sig. length (E k sig) = 256)"

definition crypto_reliable :: "'w md_crypto \<Rightarrow> bool" where
  "crypto_reliable api \<longleftrightarrow> (\<forall>x w. fst (fst (cr_digest api x w)) = 0) \<and>
     (\<forall>k sig w. fst (fst (cr_encrypt api k sig w)) = 0 \<and> snd (snd (fst (cr_encrypt api k sig w))) = 256)"

section \<open>The loop computes the mask\<close>

lemma concat_block:
  assumes "\<And>c. length (f c) = m"
  shows "length (concat (map f [0..<n])) = n * m"
    and "k < n \<Longrightarrow> take m (drop (k * m) (concat (map f [0..<n]))) = f k"
proof -
  show len: "length (concat (map f [0..<n])) = n * m" for n
    by (induction n) (simp_all add: assms)
  show "k < n \<Longrightarrow> take m (drop (k * m) (concat (map f [0..<n]))) = f k"
  proof (induction n)
    case (Suc n)
    have split: "concat (map f [0..<Suc n]) = concat (map f [0..<n]) @ f n" by simp
    show ?case
    proof (cases "k = n")
      case True
      then show ?thesis unfolding split using len [of n] assms by simp
    next
      case False
      then have "k < n" using Suc.prems by simp
      moreover from this have "k * m + m \<le> length (concat (map f [0..<n]))"
        unfolding len by (metis Suc_leI add.commute mult_Suc mult_le_mono1)
      ultimately show ?thesis unfolding split using Suc.IH by simp
    qed
  qed simp
qed

lemma xor_bytes_append: "length a = length b \<Longrightarrow> xor_bytes (a @ c) (b @ d) = xor_bytes a b @ xor_bytes c d"
  by (simp add: xor_bytes_def)

lemma xor_bytes_take: "length a \<le> n \<Longrightarrow> xor_bytes a (take n b) = xor_bytes a b"
  by (rule nth_equalityI) (auto simp: xor_bytes_def)

lemma length_xor_bytes: "length (xor_bytes a b) = min (length a) (length b)"
  by (simp add: xor_bytes_def)

lemma length_mgf1:
  assumes "\<And>x. length (H x) = 32"
  shows "length (mgf1 H seed 223) = 223"
  using concat_block(1) [of "\<lambda>c. H (seed @ be32 (of_nat c))" 32 7] assms by (simp add: mgf1_def)

lemma clear_top_xor:
  assumes "length db = length m"
  shows "clear_top (xor_bytes (clear_top (xor_bytes db m)) m) = clear_top db"
proof (rule nth_equalityI)
  show "length (clear_top (xor_bytes (clear_top (xor_bytes db m)) m)) = length (clear_top db)"
    using assms by (simp add: clear_top_def length_xor_bytes)
  have top: "((d XOR k) AND 0x7f XOR k) AND 0x7f = d AND 0x7f" "(d XOR k) XOR k = d" for d k :: u8
    by (rule bit_eqI; auto simp: bit_simps)+
  fix i assume "i < length (clear_top (xor_bytes (clear_top (xor_bytes db m)) m))"
  then show "clear_top (xor_bytes (clear_top (xor_bytes db m)) m) ! i = clear_top db ! i"
    using assms by (cases "i = 0") (simp_all add: clear_top_def xor_bytes_def top)
qed

lemma emsa_pss_roundtrip:
  assumes "\<And>x. length (H x) = 32" and "length salt = 32"
  shows "emsa_pss_verify H (emsa_pss_encode H message_hash salt) message_hash"
proof -
  define h where "h = H (zeroed 8 @ message_hash @ salt)"
  define db where "db = zeroed 190 @ [1] @ salt"
  define masked where "masked = clear_top (xor_bytes db (mgf1 H h 223))"
  have len: "length db = 223" "length (mgf1 H h 223) = 223" "length masked = 223" "length h = 32"
    using assms length_mgf1 [of H h] by (simp_all add: db_def masked_def h_def clear_top_def length_xor_bytes)
  have em: "emsa_pss_encode H message_hash salt = masked @ h @ [0xbc]"
    by (simp add: emsa_pss_encode_def masked_def db_def h_def Let_def)
  have clear: "clear_top db = db"
    by (simp add: clear_top_def db_def list_update_append nth_append) (rule nth_equalityI, auto simp: nth_list_update)
  have unmasked: "clear_top (xor_bytes masked (mgf1 H h 223)) = db"
    unfolding masked_def using clear_top_xor [of db "mgf1 H h 223"] len clear by simp
  have top: "hd masked AND 0x80 = 0"
  proof -
    have "hd masked = masked ! 0" using len by (intro hd_conv_nth) auto
    also have "\<dots> = xor_bytes db (mgf1 H h 223) ! 0 AND 0x7f"
      using len by (simp add: masked_def clear_top_def length_xor_bytes)
    finally show ?thesis by (simp add: and.assoc)
  qed
  have "hd (masked @ h @ [0xbc]) = hd masked" using len by (cases masked) simp_all
  then show ?thesis
    unfolding em emsa_pss_verify_def Let_def using len unmasked top by (simp add: db_def h_def)
qed

lemma sha256_result:
  assumes "crypto_sound api H E" and "mt6878_md_pss32_sha256 api (At a ctx) (At b x) n d s = ((ret, digest), s')"
    and "0 < n" "n \<le> 64 * 1024 * 1024"
  shows "ret = 0 \<longrightarrow> digest = H (take n x)" "snd s' = snd s" "crypto_reliable api \<longrightarrow> ret = 0"
proof -
  obtain w tr where s: "s = (w, tr)" by (metis prod.exhaust)
  obtain r e w' where c: "cr_digest api (take n x) w = ((r, e), w')" by (metis prod.exhaust)
  have run: "ret = md_crypto_error r" "digest = (if md_crypto_error r \<noteq> 0 then zeroed 32 else e)" "s' = (w', tr)"
    using assms(2-4) c by (auto simp: mt6878_md_pss32_sha256_def asked_def s Let_def)
  have "ret = 0 \<longrightarrow> r = 0" using run(1) by (simp add: md_crypto_error_def split: if_splits)
  then show "ret = 0 \<longrightarrow> digest = H (take n x)"
    using run assms(1) c by (auto simp: crypto_sound_def)
  show "snd s' = snd s" using run(3) s by simp
  show "crypto_reliable api \<longrightarrow> ret = 0"
    using run(1) c by (metis crypto_reliable_def fst_conv md_crypto_error_def less_irrefl)
qed

declare mgf_loop.simps [simp del]

lemma mgf_loop_result:
  assumes sound: "crypto_sound api H E" and em: "length (pss_em ctx) = 256" and h: "length h = 32"
  defines "block \<equiv> \<lambda>c. H (h @ be32 (of_nat c))"
  defines "part \<equiv> \<lambda>k. xor_bytes (take (32 * k) (take 223 (pss_em ctx))) (take (32 * k) (concat (map block [0..<7])))"
  assumes "k \<le> 7" and "mgf_loop api ctx h (32 * k) (of_nat k) (part k) s = ((ret, db), s')"
  shows "(ret = 0 \<longrightarrow> db = part 7) \<and> snd s' = snd s \<and> (crypto_reliable api \<longrightarrow> ret = 0)"
  using assms(6,7)
proof (induction "7 - k" arbitrary: k s)
  case 0
  then have "k = 7" by simp
  then show ?case using 0 by (auto simp: mgf_loop.simps)
next
  case (Suc n)
  then have k: "k < 7" by simp
  have len: "length (block c) = 32" for c using sound by (simp add: block_def crypto_sound_def)
  let ?x = "h @ be32 (of_nat k)"
  obtain r m t where sha: "mt6878_md_pss32_sha256 api (At 0 ctx) (At 0 ?x) 36 (zeroed 32) s = ((r, m), t)"
    by (metis prod.exhaust)
  have "take 36 ?x = ?x" using h by (simp add: be32_def)
  with sha256_result [OF sound sha] have res: "r = 0 \<longrightarrow> m = block k" "snd t = snd s" "crypto_reliable api \<longrightarrow> r = 0"
    by (simp_all add: block_def)
  have step: "part k @ xor_bytes (take (min 32 (223 - 32 * k)) (drop (32 * k) (pss_em ctx))) (block k) = part (Suc k)"
  proof -
    have M: "take (32 * Suc k) (concat (map block [0..<7])) = take (32 * k) (concat (map block [0..<7])) @ block k"
      using concat_block(2) [of block 32 k 7, OF len k] take_add [of "32 * k" 32 "concat (map block [0..<7])"]
      by (simp add: mult.commute add.commute)
    have "take (32 * Suc k) (take 223 (pss_em ctx)) =
        take (32 * k) (take 223 (pss_em ctx)) @ take 32 (drop (32 * k) (take 223 (pss_em ctx)))"
      using take_add [of "32 * k" 32 "take 223 (pss_em ctx)"] by (simp add: add.commute)
    also have "take 32 (drop (32 * k) (take 223 (pss_em ctx))) = take (min 32 (223 - 32 * k)) (drop (32 * k) (pss_em ctx))"
      by (simp add: drop_take)
    finally have E: "take (32 * Suc k) (take 223 (pss_em ctx)) = take (32 * k) (take 223 (pss_em ctx)) @
        take (min 32 (223 - 32 * k)) (drop (32 * k) (pss_em ctx))" .
    have "length (take (32 * k) (take 223 (pss_em ctx))) = length (take (32 * k) (concat (map block [0..<7])))"
      using em k concat_block(1) [of block 32 7, OF len] by simp
    then show ?thesis unfolding part_def M E by (simp only: xor_bytes_append)
  qed
  have loop: "mgf_loop api ctx h (32 * k) (of_nat k) (part k) s =
      (if r \<noteq> 0 then ((r, part k), t) else mgf_loop api ctx h (32 * Suc k) (of_nat (Suc k)) (part (Suc k)) t)"
    if "r = 0 \<longrightarrow> m = block k"
    using k sha that unfolding step [symmetric] mgf_loop.simps [of api ctx h "32 * k"]
    by (simp add: add.commute)
  show ?case
  proof (cases "r = 0")
    case True
    then have "mgf_loop api ctx h (32 * Suc k) (of_nat (Suc k)) (part (Suc k)) t = ((ret, db), s')"
      using Suc.prems(2) loop res(1) by simp
    then show ?thesis using Suc.hyps(1) [of "Suc k" t] Suc.hyps(2) k res(2) by simp
  next
    case False
    then show ?thesis using Suc.prems(2) loop res by auto
  qed
qed

section \<open>Verification is the reference check\<close>

lemma mgf_loop_mask:
  assumes "crypto_sound api H E" and "length (pss_em ctx) = 256"
  defines "h \<equiv> take 32 (drop 223 (pss_em ctx))"
  assumes "mgf_loop api ctx h 0 0 [] s = ((ret, db), s')"
  shows "ret = 0 \<longrightarrow> db = xor_bytes (take 223 (pss_em ctx)) (mgf1 H h 223)" "snd s' = snd s"
    "crypto_reliable api \<longrightarrow> ret = 0"
proof -
  have h: "length h = 32" using assms(2) by (simp add: h_def)
  let ?M = "concat (map (\<lambda>c. H (h @ be32 (of_nat c))) [0..<7])"
  have "(ret = 0 \<longrightarrow> db = xor_bytes (take (32 * 7) (take 223 (pss_em ctx))) (take (32 * 7) ?M)) \<and>
      snd s' = snd s \<and> (crypto_reliable api \<longrightarrow> ret = 0)"
    using mgf_loop_result [OF assms(1,2) h, of 0 s ret db s'] assms(4) by (simp add: xor_bytes_def)
  moreover have "xor_bytes (take (32 * 7) (take 223 (pss_em ctx))) (take (32 * 7) ?M) =
      xor_bytes (take 223 (pss_em ctx)) (mgf1 H h 223)"
  proof -
    have "mgf1 H h 223 = take 223 ?M" by (simp add: mgf1_def)
    then show ?thesis using xor_bytes_take [of "take 223 (pss_em ctx)" 223 ?M]
        xor_bytes_take [of "take 223 (pss_em ctx)" 224 ?M] assms(2) by simp
  qed
  ultimately show "ret = 0 \<longrightarrow> db = xor_bytes (take 223 (pss_em ctx)) (mgf1 H h 223)" "snd s' = snd s"
    "crypto_reliable api \<longrightarrow> ret = 0" by simp_all
qed

lemma padding_iff:
  assumes "length db = 223"
  shows "list_all (\<lambda>b. b = 0) (take 190 db) \<and> db ! 190 = 1 \<longleftrightarrow> take 191 db = zeroed 190 @ [1]"
proof -
  have "take 191 db = take 190 db @ [db ! 190]" using assms take_Suc_conv_app_nth [of 190 db] by simp
  moreover have "list_all (\<lambda>b. b = 0) (take 190 db) \<longleftrightarrow> take 190 db = zeroed 190"
    using assms by (auto simp: list_all_length list_eq_iff_nth_eq)
  ultimately show ?thesis by simp
qed

lemma encoded_result:
  assumes sound: "crypto_sound api H E" and em: "length (pss_em ctx) = 256" and hash: "length hash = 32"
    and run: "md_pss32_encoded api ctx hash s = (ret, s')"
  shows "ret = 0 \<longrightarrow> emsa_pss_verify H (pss_em ctx) hash" "snd s' = snd s"
    "crypto_reliable api \<longrightarrow> ret = (if emsa_pss_verify H (pss_em ctx) hash then 0 else - EKEYREJECTED)"
proof -
  let ?em = "pss_em ctx"
  define h where "h = take 32 (drop 223 ?em)"
  define mask_ok where "mask_ok \<longleftrightarrow> last ?em = 0xbc \<and> hd ?em AND 0x80 = 0"
  have ends: "?em ! 255 = last ?em" "?em ! 0 = hd ?em" 
  proof -
    have "?em \<noteq> []" using em by auto
    then show "?em ! 255 = last ?em" "?em ! 0 = hd ?em" using em by (simp_all add: last_conv_nth hd_conv_nth)
  qed
  obtain r db t where loop: "mgf_loop api ctx h 0 0 [] s = ((r, db), t)" by (metis prod.exhaust)
  note mgf = mgf_loop_mask [OF sound em loop [unfolded h_def], folded h_def]
  define D where "D = clear_top (xor_bytes (take 223 ?em) (mgf1 H h 223))"
  have "length (mgf1 H h 223) = 223"
    using concat_block(1) [of "\<lambda>c. H (h @ be32 (of_nat c))" 32 7] sound by (simp add: mgf1_def crypto_sound_def)
  then have D: "length D = 223" using em by (simp add: D_def clear_top_def length_xor_bytes)
  define salt where "salt = drop 191 D"
  have salt: "take 32 (drop 191 D) = salt" "length salt = 32" using D by (simp_all add: salt_def)
  obtain r2 prime t2 where sha: "mt6878_md_pss32_sha256 api (At 0 ctx) (At 0 (zeroed 8 @ hash @ salt)) 72 (zeroed 32) t = ((r2, prime), t2)"
    by (metis prod.exhaust)
  have whole: "take 72 (zeroed 8 @ hash @ salt) = zeroed 8 @ hash @ salt" using hash salt by simp
  note p = sha256_result [OF sound sha, unfolded whole]
  have spec: "emsa_pss_verify H ?em hash \<longleftrightarrow> mask_ok \<and> take 191 D = zeroed 190 @ [1] \<and> h = H (zeroed 8 @ hash @ salt)"
    by (simp add: emsa_pss_verify_def Let_def mask_ok_def h_def [symmetric] D_def [symmetric] salt_def)
  have res: "(ret, s') = (if \<not> mask_ok then (- EKEYREJECTED, s) else if r \<noteq> 0 then (r, t)
      else if \<not> (list_all (\<lambda>b. b = 0) (take 190 D) \<and> D ! 190 = 1) then (- EKEYREJECTED, t)
      else if r2 = 0 \<and> h \<noteq> prime then (- EKEYREJECTED, t2) else (r2, t2))"
  proof (cases "mask_ok \<and> r = 0")
    case True
    then have db: "db[0 := db ! 0 AND 0x7f] = D" using mgf(1) by (simp add: D_def clear_top_def)
    show ?thesis
      using run loop sha salt True unfolding md_pss32_encoded_def
      by (simp add: ends mask_ok_def [symmetric] h_def [symmetric] Let_def db split: if_splits)
        (auto simp: mask_ok_def)
  next
    case False
    then show ?thesis
      using run loop unfolding md_pss32_encoded_def
      by (auto simp: ends mask_ok_def h_def [symmetric] Let_def split: if_splits)
  qed
  show "ret = 0 \<longrightarrow> emsa_pss_verify H ?em hash" "snd s' = snd s"
    "crypto_reliable api \<longrightarrow> ret = (if emsa_pss_verify H ?em hash then 0 else - EKEYREJECTED)"
    using res p mgf unfolding spec padding_iff [OF D, symmetric] by (auto split: if_splits)
qed

definition pss_idle :: "mt6878_md_pss32 \<Rightarrow> bool" where
  "pss_idle c \<longleftrightarrow> pss_signature c = zeroed 256 \<and> pss_em c = zeroed 256"

lemma verify_result:
  assumes sound: "crypto_sound api H E" and idle: "pss_idle c"
    and run: "mt6878_md_pss32_verify api (At a c) (At b tbs) n (At d sig) 256 s = ((ret, ctx), s')"
  defines "valid \<equiv> emsa_pss_verify H (E (pss_key c) (take 256 sig)) (H (take n tbs))"
  shows "ctx = At a c" "snd s' = snd s" "ret = 0 \<longrightarrow> 0 < n \<and> n \<le> 16384 \<and> valid"
    "crypto_reliable api \<longrightarrow> ret = (if n = 0 \<or> n > 16384 then - EINVAL else if valid then 0 else - EKEYREJECTED)"
proof -
  have "ctx = At a c \<and> snd s' = snd s \<and> (ret = 0 \<longrightarrow> 0 < n \<and> n \<le> 16384 \<and> valid) \<and>
    (crypto_reliable api \<longrightarrow> ret = (if n = 0 \<or> n > 16384 then - EINVAL else if valid then 0 else - EKEYREJECTED))"
  proof (cases "n = 0 \<or> n > 16384")
    case True
    then show ?thesis using run by (auto simp: mt6878_md_pss32_verify_def)
  next
    case False
    obtain r hash t where sha: "mt6878_md_pss32_sha256 api (At a c) (At b tbs) n (zeroed 32) s = ((r, hash), t)"
      by (metis prod.exhaust)
    from sha256_result [OF sound sha] False
    have h: "r = 0 \<longrightarrow> hash = H (take n tbs)" "snd t = snd s" "crypto_reliable api \<longrightarrow> r = 0" by simp_all
    obtain r2 em len t2 where enc: "asked (cr_encrypt api (pss_key c) (take 256 sig)) t = ((r2, em, len), t2)"
      by (metis prod.exhaust)
    define c2 where "c2 = c\<lparr> pss_signature := take 256 sig, pss_em := em \<rparr>"
    define e where "e = (if md_crypto_error r2 = 0 \<and> len \<noteq> 256 then - EPROTO else md_crypto_error r2)"
    obtain r3 t3 where check: "md_pss32_encoded api c2 hash t2 = (r3, t3)" by (metis prod.exhaust)
    have erased: "c2\<lparr> pss_signature := zeroed 256, pss_em := zeroed 256 \<rparr> = c"
      using idle by (cases c) (simp add: c2_def pss_idle_def)
    have out: "((ret, ctx), s') = (if r \<noteq> 0 then ((r, At a c), t) else if e = 0 then ((r3, At a c), t3) else ((e, At a c), t2))"
      using run sha enc check False erased
      by (auto simp: mt6878_md_pss32_verify_def Let_def c2_def [symmetric] e_def split: if_splits)
    have t2: "snd t2 = snd t" using enc by (auto simp: asked_def split: prod.splits)
    have good: "em = E (pss_key c) (take 256 sig)" if "e = 0"
    proof -
      have "r2 = 0" "len = 256" using that by (auto simp: e_def md_crypto_error_def split: if_splits)
      then obtain w w' where "cr_encrypt api (pss_key c) (take 256 sig) w = ((0, em, 256), w')"
        using enc by (auto simp: asked_def split: prod.splits)
      then show ?thesis using sound unfolding crypto_sound_def by blast
    qed
    have sure: "crypto_reliable api \<longrightarrow> e = 0"
    proof
      assume rel: "crypto_reliable api"
      obtain w w' where "cr_encrypt api (pss_key c) (take 256 sig) w = ((r2, em, len), w')"
        using enc by (auto simp: asked_def split: prod.splits)
      then have "r2 = 0" "len = 256" using rel unfolding crypto_reliable_def by (metis fst_conv, metis fst_conv snd_conv)
      then show "e = 0" by (simp add: e_def md_crypto_error_def)
    qed
    have final: "r3 = 0 \<longrightarrow> valid" "snd t3 = snd t2" "crypto_reliable api \<longrightarrow> r3 = (if valid then 0 else - EKEYREJECTED)"
      if "e = 0" "r = 0"
    proof -
      have em: "pss_em c2 = E (pss_key c) (take 256 sig)" using good [OF that(1)] by (simp add: c2_def)
      have hs: "hash = H (take n tbs)" using h(1) that(2) by simp
      have len: "length (pss_em c2) = 256" "length hash = 32" using sound unfolding em hs by (simp_all add: crypto_sound_def)
      from encoded_result [OF sound len check, unfolded em hs, folded valid_def]
      show "r3 = 0 \<longrightarrow> valid" "snd t3 = snd t2" "crypto_reliable api \<longrightarrow> r3 = (if valid then 0 else - EKEYREJECTED)"
        by blast+
    qed
    have n: "0 < n" "n \<le> 16384" using False by simp_all
    consider "r \<noteq> 0" | "r = 0" "e \<noteq> 0" | "r = 0" "e = 0" by blast
    then show ?thesis
    proof cases
      case 1
      then have "ret = r" "ctx = At a c" "s' = t" using out by simp_all
      then show ?thesis using 1 h by blast
    next
      case 2
      then have "ret = e" "ctx = At a c" "s' = t2" using out by simp_all
      then show ?thesis using 2 h t2 sure by simp
    next
      case 3
      then have eq: "ret = r3" "ctx = At a c" "s' = t3" using out by simp_all
      note f = final [OF 3(2,1)]
      have "snd s' = snd s" unfolding eq f(2) t2 h(2) ..
      moreover have "crypto_reliable api \<longrightarrow> ret = (if n = 0 \<or> n > 16384 then - EINVAL else if valid then 0 else - EKEYREJECTED)"
        unfolding if_not_P [OF False] eq by (rule f(3))
      ultimately show ?thesis using f(1) eq n by blast
    qed
  qed
  then show "ctx = At a c" "snd s' = snd s" "ret = 0 \<longrightarrow> 0 < n \<and> n \<le> 16384 \<and> valid"
    "crypto_reliable api \<longrightarrow> ret = (if n = 0 \<or> n > 16384 then - EINVAL else if valid then 0 else - EKEYREJECTED)" by blast+
qed

section \<open>Construction frees what it allocated\<close>

text \<open>Allocations minus releases of a trace; a context owns what its flags say.\<close>

definition outstanding :: "md_event list \<Rightarrow> md_resource \<Rightarrow> int" where
  "outstanding tr r = int (count_list tr (Md_alloc r)) - int (count_list tr (Md_free r))"

fun owns :: "mt6878_md_pss32 \<Rightarrow> md_resource \<Rightarrow> int" where
  "owns c Md_context = 1"
| "owns c Md_rsa = of_bool (pss_rsa c)"
| "owns c Md_sha = of_bool (pss_sha c)"
| "owns c Md_desc = of_bool (pss_desc c)"
| "owns c Md_request = of_bool (pss_request c)"
| "owns c Md_work = 0"

lemma outstanding_append [simp]: "outstanding (a @ b) r = outstanding a r + outstanding b r"
  by (simp add: outstanding_def)

lemma outstanding_noted: "outstanding (snd (noted q s)) r = outstanding (snd s) r + of_bool (q = r)"
  by (cases s) (simp add: noted_def outstanding_def)

lemma asked_trace: "asked call s = (a, t) \<Longrightarrow> snd t = snd s"
  by (auto simp: asked_def split: prod.splits)

lemma destroy_outstanding:
  "outstanding (snd (mt6878_md_pss32_destroy (At a c) s)) r = outstanding (snd s) r - owns c r"
  by (cases s; cases r) (auto simp: mt6878_md_pss32_destroy_def outstanding_def)

lemma create_failed_outstanding:
  "create_failed e c s = (res, t) \<Longrightarrow> res = Inl e \<and> (\<forall>r. outstanding (snd t) r = outstanding (snd s) r - owns c r)"
  by (auto simp: create_failed_def destroy_outstanding)

lemma create_sha_outstanding:
  assumes "create_sha api c s = (res, t)" and "\<not> pss_sha c" "\<not> pss_desc c" "\<not> pss_request c"
    and "\<And>r. outstanding (snd s) r = base r + owns c r"
  shows "case res of Inl _ \<Rightarrow> \<forall>r. outstanding (snd t) r = base r
    | Inr c' \<Rightarrow> (\<forall>r. outstanding (snd t) r = base r + owns c' r) \<and>
        c' = c\<lparr> pss_sha := True, pss_desc := True, pss_request := True \<rparr>"
proof -
  have o1: "owns (c\<lparr> pss_sha := True \<rparr>) r = owns c r + of_bool (Md_sha = r)"
    and o2: "owns (c\<lparr> pss_sha := True, pss_desc := True \<rparr>) r = owns c r + of_bool (Md_sha = r) + of_bool (Md_desc = r)"
    and o3: "owns (c\<lparr> pss_sha := True, pss_desc := True, pss_request := True \<rparr>) r =
      owns c r + of_bool (Md_sha = r) + of_bool (Md_desc = r) + of_bool (Md_request = r)" for r
    using assms(2-4) by (cases r; simp)+
  obtain r1 s1 where s1: "asked (cr_alloc_shash api) s = (r1, s1)" by (metis prod.exhaust)
  obtain n s2 where s2: "asked (cr_digestsize api) (noted Md_sha s1) = (n, s2)" by (metis prod.exhaust)
  obtain ok s3 where s3: "asked (cr_kzalloc api) s2 = (ok, s3)" by (metis prod.exhaust)
  obtain ok2 s4 where s4: "asked (cr_request_alloc api) (noted Md_desc s3) = (ok2, s4)" by (metis prod.exhaust)
  note tr = s1 [THEN asked_trace] s2 [THEN asked_trace] s3 [THEN asked_trace] s4 [THEN asked_trace]
  consider "r1 \<noteq> 0" | "r1 = 0" "n \<noteq> 32" | "r1 = 0" "n = 32" "\<not> ok" | "r1 = 0" "n = 32" ok "\<not> ok2" | "r1 = 0" "n = 32" ok ok2 by blast
  then show ?thesis
  proof cases
    case 1
    then have "create_failed r1 c s1 = (res, t)" using assms(1) s1 by (simp add: create_sha_def)
    from create_failed_outstanding [OF this] show ?thesis using assms(5) tr by simp
  next
    case 2
    then have "create_failed (- EPROTO) (c\<lparr> pss_sha := True \<rparr>) s2 = (res, t)"
      using assms(1) s1 s2 by (simp add: create_sha_def Let_def)
    from create_failed_outstanding [OF this] show ?thesis using assms(5) tr by (simp add: outstanding_noted o1)
  next
    case 3
    then have "create_failed (- ENOMEM) (c\<lparr> pss_sha := True \<rparr>) s3 = (res, t)"
      using assms(1) s1 s2 s3 by (simp add: create_sha_def Let_def)
    from create_failed_outstanding [OF this] show ?thesis using assms(5) tr by (simp add: outstanding_noted o1)
  next
    case 4
    then have "create_failed (- ENOMEM) (c\<lparr> pss_sha := True, pss_desc := True \<rparr>) s4 = (res, t)"
      using assms(1) s1 s2 s3 s4 by (simp add: create_sha_def Let_def)
    from create_failed_outstanding [OF this] show ?thesis using assms(5) tr by (simp add: outstanding_noted o2)
  next
    case 5
    then have "res = Inr (c\<lparr> pss_sha := True, pss_desc := True, pss_request := True \<rparr>)" "t = noted Md_request s4"
      using assms(1) s1 s2 s3 s4 by (simp_all add: create_sha_def Let_def)
    then show ?thesis using assms(5) tr by (simp add: outstanding_noted o3)
  qed
qed

lemma create_outstanding:
  assumes "mt6878_md_pss32_create api key len s = (res, t)"
  shows "case res of Inl _ \<Rightarrow> \<forall>r. outstanding (snd t) r = outstanding (snd s) r
    | Inr c \<Rightarrow> (\<forall>r. outstanding (snd t) r = outstanding (snd s) r + owns c r) \<and> pss_idle c \<and>
        pss_key c = take len (contents key) \<and> key \<noteq> Null \<and> key_admitted (contents key) len"
proof (cases "key = Null \<or> \<not> key_admitted (contents key) len")
  case True
  then show ?thesis using assms by (auto simp: mt6878_md_pss32_create_def)
next
  case False
  let ?c = "\<lparr> pss_rsa = False, pss_sha = False, pss_desc = False, pss_request = False, pss_key = [],
                      pss_signature = zeroed 256, pss_em = zeroed 256 \<rparr>"
  let ?k = "take len (contents key)"
  obtain ok s1 where s1: "asked (cr_kzalloc api) s = (ok, s1)" by (metis prod.exhaust)
  obtain r1 s2 where s2: "asked (cr_alloc_akcipher api) (noted Md_context s1) = (r1, s2)" by (metis prod.exhaust)
  obtain r2 s3 where s3: "asked (cr_set_pub_key api ?k) (noted Md_rsa s2) = (r2, s3)" by (metis prod.exhaust)
  obtain n s4 where s4: "asked (cr_maxsize api) s3 = (n, s4)" by (metis prod.exhaust)
  note tr = s1 [THEN asked_trace] s2 [THEN asked_trace] s3 [THEN asked_trace] s4 [THEN asked_trace]
  have o1: "owns ?c r = of_bool (Md_context = r)" for r by (cases r) simp_all
  have o2: "owns (?c\<lparr> pss_rsa := True, pss_key := k \<rparr>) r = of_bool (Md_context = r) + of_bool (Md_rsa = r)"
    "owns (?c\<lparr> pss_rsa := True \<rparr>) r = of_bool (Md_context = r) + of_bool (Md_rsa = r)" for r k by (cases r; simp)+
  consider "\<not> ok" | ok "r1 \<noteq> 0" | ok "r1 = 0" "md_crypto_error r2 \<noteq> 0"
    | ok "r1 = 0" "md_crypto_error r2 = 0" "n \<noteq> 256" | ok "r1 = 0" "md_crypto_error r2 = 0" "n = 256" by blast
  then show ?thesis
  proof cases
    case 1
    then show ?thesis using assms False s1 tr by (auto simp: mt6878_md_pss32_create_def)
  next
    case 2
    then have "create_failed r1 ?c s2 = (res, t)"
      using assms False s1 s2 by (simp add: mt6878_md_pss32_create_def Let_def)
    from create_failed_outstanding [OF this] show ?thesis using tr by (simp add: outstanding_noted o1)
  next
    case 3
    then have "create_failed (md_crypto_error r2) (?c\<lparr> pss_rsa := True \<rparr>) s3 = (res, t)"
      using assms False s1 s2 s3 by (simp add: mt6878_md_pss32_create_def Let_def)
    from create_failed_outstanding [OF this] show ?thesis using tr o2 by (simp add: outstanding_noted)
  next
    case 4
    then have "create_failed (- EPROTO) (?c\<lparr> pss_rsa := True, pss_key := ?k \<rparr>) s4 = (res, t)"
      using assms False s1 s2 s3 s4 by (simp add: mt6878_md_pss32_create_def Let_def)
    from create_failed_outstanding [OF this] show ?thesis using tr o2 by (simp add: outstanding_noted)
  next
    case 5
    then have run: "create_sha api (?c\<lparr> pss_rsa := True, pss_key := ?k \<rparr>) s4 = (res, t)"
      using assms False s1 s2 s3 s4 by (simp add: mt6878_md_pss32_create_def Let_def)
    have "outstanding (snd s4) r = outstanding (snd s) r + owns (?c\<lparr> pss_rsa := True, pss_key := ?k \<rparr>) r" for r
      using tr o2 by (simp add: outstanding_noted)
    from create_sha_outstanding [OF run _ _ _ this] show ?thesis
      using False by (auto simp: pss_idle_def split: sum.splits)
  qed
qed

section \<open>The property\<close>

text \<open>
  C32. Signature verification is the PSS check of RFC 8017. Whatever the crypto interface
  answers, a result of 0 means that the RSA operation on the signature gives an encoded message that
  the reference check accepts for the hash of the signed bytes; and when the interface does not
  fail the result is 0 exactly then and a rejected key otherwise. The context
  comes back as it was, with signature and encoded message erased.
\<close>
theorem pss_verify_exact:
  assumes "crypto_sound api H E" and "pss_idle c"
  shows "let ((ret, ctx), s') = mt6878_md_pss32_verify api (At a c) (At b tbs) n (At d sig) 256 s;
             valid = emsa_pss_verify H (E (pss_key c) (take 256 sig)) (H (take n tbs))
         in ctx = At a c \<and> snd s' = snd s \<and>
            (if ret = 0 then 0 < n \<and> n \<le> 16384 \<and> valid else True) \<and>
            (if crypto_reliable api
             then ret = (if n = 0 \<or> n > 16384 then - EINVAL else if valid then 0 else - EKEYREJECTED) else True)"
proof -
  obtain ret ctx s' where run: "mt6878_md_pss32_verify api (At a c) (At b tbs) n (At d sig) 256 s = ((ret, ctx), s')"
    by (metis prod.exhaust)
  note v = verify_result [OF assms run]
  have guard: "(if P then Q else True) = (P \<longrightarrow> Q)" for P Q by simp
  show ?thesis unfolding run Let_def prod.case guard using v by blast
qed

text \<open>An interface over a constant hash, and an encoded message that it accepts.\<close>

definition sample_em :: bytes where
  "sample_em = zeroed 190 @ [1] @ zeroed 64 @ [0xbc]"

definition sample_crypto :: "unit md_crypto" where
  "sample_crypto = \<lparr> cr_kzalloc = (\<lambda>w. (True, w)), cr_alloc_akcipher = (\<lambda>w. (0, w)), cr_set_pub_key = (\<lambda>_ w. (0, w)),
     cr_maxsize = (\<lambda>w. (256, w)), cr_alloc_shash = (\<lambda>w. (0, w)), cr_digestsize = (\<lambda>w. (32, w)),
     cr_request_alloc = (\<lambda>w. (True, w)), cr_digest = (\<lambda>_ w. ((0, zeroed 32), w)),
     cr_encrypt = (\<lambda>_ _ w. ((0, sample_em, 256), w)) \<rparr>"

definition sample_context :: mt6878_md_pss32 where
  "sample_context = \<lparr> pss_rsa = True, pss_sha = True, pss_desc = True, pss_request = True, pss_key = [],
     pss_signature = zeroed 256, pss_em = zeroed 256 \<rparr>"

lemma sample_crypto_sound: "crypto_sound sample_crypto (\<lambda>_. zeroed 32) (\<lambda>_ _. sample_em)"
  by (simp add: crypto_sound_def sample_crypto_def sample_em_def)

lemma sample_em_valid: "emsa_pss_verify (\<lambda>_. zeroed 32) sample_em hash"
proof -
  have mgf: "mgf1 (\<lambda>_. zeroed 32) seed 223 = zeroed 223" for seed
  proof -
    have "concat (map (\<lambda>_. zeroed 32) [0..<7]) = zeroed 224" by code_simp
    then show ?thesis by (simp add: mgf1_def) (simp add: zeroed_def)
  qed
  have "xor_bytes x (zeroed (length x)) = x" for x
    by (rule nth_equalityI) (simp_all add: xor_bytes_def)
  from this [of "take 223 sample_em"] have db: "xor_bytes (take 223 sample_em) (zeroed 223) = zeroed 190 @ [1] @ zeroed 32"
    by (simp add: sample_em_def zeroed_def)
  have "clear_top (zeroed 190 @ [1] @ zeroed 32) = zeroed 190 @ [1] @ zeroed 32"
    by (simp add: clear_top_def list_update_append nth_append) (rule nth_equalityI, auto simp: nth_list_update)
  then show ?thesis
    by (simp add: emsa_pss_verify_def Let_def mgf db) (simp add: sample_em_def zeroed_def)
qed

theorem pss_verify_exact_witness:
  "fst (fst (mt6878_md_pss32_verify sample_crypto (At 0 sample_context) (At 0 [1]) 1 (At 0 []) 256 ((), []))) = 0"
  using pss_verify_exact [OF sample_crypto_sound, of sample_context 0 0 "[1]" 1 0 "[]" "((), [])"] sample_em_valid
  by (simp add: pss_idle_def sample_context_def crypto_reliable_def sample_crypto_def case_prod_unfold Let_def split: if_splits)

end
