(* ===== verification/Md_Cert.thy ===== *)
theory Md_Cert
  imports Md_Pss
begin

text \<open>
  The certificate chain of \<^verbatim>\<open>patches/modem/mt6878_md_mtk_cert.c\<close>: two certificates in a restricted DER
  profile, the first pinned by the hash of its key, the second delegated by it, and a firmware
  header whose hash the second one signs. The ASN.1 walker of the kernel is a parameter: it
  reports the elements of a sequence to the code's own callback. The theorem shows that hashes
  are given out only when the whole chain was verified.
\<close>

unbundle bit_operations_syntax

section \<open>Data\<close>

definition MD_CERT_MAX :: nat where [simp]: "MD_CERT_MAX = 16384"
definition MD_FIELDS_MAX :: nat where [simp]: "MD_FIELDS_MAX = 48"

text \<open>A field is a whole element; \<open>fld_data\<close> are the bytes from its first one on.\<close>

record md_der_field =
  fld_data :: bytes
  fld_size :: nat
  fld_header :: nat
  fld_tag :: u8

record md_der_cert =
  cert_tbs :: md_der_field
  cert_spki :: md_der_field
  cert_raw_key :: md_der_field
  cert_signature :: md_der_field
  cert_body :: "md_der_field list"

record mt6878_md_signed_hashes =
  header_sha256 :: bytes
  payload_sha256 :: bytes

text \<open>
  An element as the walker reports it (offset of the value, length of the header, tag, length
  of the value), and its final status when no callback failed.
\<close>

type_synonym md_element = "nat \<times> nat \<times> u8 \<times> nat"
type_synonym md_walker = "bytes \<Rightarrow> md_element list \<times> int"

definition md_mtk_root_pin :: bytes where
  "md_mtk_root_pin =
    [0xe1, 0xb5, 0x23, 0x5d, 0x94, 0x11, 0x47, 0x3a, 0x35, 0x8c, 0x75, 0x4f, 0x84, 0x84, 0x38, 0x01,
     0xb9, 0x1f, 0x05, 0xb8, 0xfb, 0x9d, 0xc4, 0x86, 0x33, 0x93, 0xe3, 0x78, 0xe4, 0x1a, 0x11, 0x5e]"

section \<open>Elements\<close>

text \<open>The length bytes, most significant first.\<close>

definition der_length :: "bytes \<Rightarrow> nat" where
  "der_length bs = fold (\<lambda>b n. n * 256 + unat b) bs 0"

definition md_der_header :: "bytes \<Rightarrow> nat \<Rightarrow> int \<times> nat" where
  "md_der_header p n =
    (if n < 2 \<or> p ! 0 AND 31 = 31 then (- EINVAL, 0)
     else if p ! 1 < 128 then (if unat (p ! 1) = n - 2 then 0 else - EINVAL, 2)
     else let count = unat (p ! 1 AND 127) in
       if count = 0 \<or> count > 2 \<or> count + 2 > n \<or> p ! 2 = 0 then (- EINVAL, 0)
       else let len = der_length (take count (drop 2 p)); header = count + 2 in
         (if len < 128 \<or> count = 2 \<and> len < 256 \<or> len \<noteq> n - header then - EINVAL else 0, header))"

definition mt6878_md_mtk_note_field :: "bytes \<Rightarrow> md_element \<Rightarrow> md_der_field list \<Rightarrow> int + md_der_field list" where
  "mt6878_md_mtk_note_field data element out =
    (case element of (value_at, hdrlen, tag, vlen) \<Rightarrow>
     let p = drop (value_at - hdrlen) data in
     if length out = MD_FIELDS_MAX \<or> hdrlen > MD_CERT_MAX \<or> vlen > MD_CERT_MAX - hdrlen then Inl (- EINVAL)
     else case md_der_header p (hdrlen + vlen) of (ret, header) \<Rightarrow>
       if ret \<noteq> 0 \<or> header \<noteq> hdrlen then Inl (- EINVAL)
       else Inr (out @ [\<lparr> fld_data = p, fld_size = hdrlen + vlen, fld_header = header, fld_tag = tag \<rparr>]))"

text \<open>The walk stops at the first callback that fails.\<close>

fun asn1_walk :: "bytes \<Rightarrow> md_element list \<Rightarrow> int \<Rightarrow> md_der_field list \<Rightarrow> int + md_der_field list" where
  "asn1_walk data [] status out = (if status = 0 then Inr out else Inl status)"
| "asn1_walk data (e # es) status out =
    (case mt6878_md_mtk_note_field data e out of Inl r \<Rightarrow> Inl r | Inr out \<Rightarrow> asn1_walk data es status out)"

definition md_der_sequence :: "md_walker \<Rightarrow> bytes \<Rightarrow> nat \<Rightarrow> int + md_der_field list" where
  "md_der_sequence walker data n =
    (if n > MD_CERT_MAX \<or> fst (md_der_header data n) \<noteq> 0 \<or> data ! 0 \<noteq> 0x30 then Inl (- EINVAL)
     else case walker (take n data) of (elements, status) \<Rightarrow>
       (case asn1_walk (take n data) elements status [] of
          Inl ret \<Rightarrow> Inl (if ret > 0 then - EPROTO else ret)
        | Inr fs \<Rightarrow> Inr fs))"

definition md_field_bytes :: "md_der_field \<Rightarrow> bytes \<Rightarrow> nat \<Rightarrow> bool" where
  "md_field_bytes field data n \<longleftrightarrow> fld_size field = n \<and> take n (fld_data field) = take n data"

definition md_field_equal :: "md_der_field \<Rightarrow> md_der_field \<Rightarrow> bool" where
  "md_field_equal a b \<longleftrightarrow> md_field_bytes a (fld_data b) (fld_size b)"

definition md_bits :: "md_der_field \<Rightarrow> nat \<Rightarrow> bytes option" where
  "md_bits field n =
    (if fld_tag field \<noteq> 3 \<or> fld_size field - fld_header field \<noteq> n + 1 \<or> fld_data field ! fld_header field \<noteq> 0
     then None else Some (drop (fld_header field + 1) (fld_data field)))"

definition pss_algorithm :: bytes where
  "pss_algorithm =
    [0x30, 0x41, 0x06, 0x09, 0x2a, 0x86, 0x48, 0x86, 0xf7, 0x0d,
     0x01, 0x01, 0x0a, 0x30, 0x34, 0xa0, 0x0f, 0x30, 0x0d,
     0x06, 0x09, 0x60, 0x86, 0x48, 0x01, 0x65, 0x03, 0x04, 0x02,
     0x01, 0x05, 0x00, 0xa1, 0x1c, 0x30, 0x1a, 0x06, 0x09,
     0x2a, 0x86, 0x48, 0x86, 0xf7, 0x0d, 0x01, 0x01, 0x08,
     0x30, 0x0d, 0x06, 0x09, 0x60, 0x86, 0x48, 0x01, 0x65,
     0x03, 0x04, 0x02, 0x01, 0x05, 0x00, 0xa2, 0x03, 0x02, 0x01, 0x20]"

definition pss_trailer :: bytes where "pss_trailer = [0xa3, 3, 2, 1, 1]"

definition md_pss_profile :: "md_der_field \<Rightarrow> int" where
  "md_pss_profile field =
    (if md_field_bytes field pss_algorithm (length pss_algorithm) then 0
     else let explicit_pss = pss_algorithm[1 := pss_algorithm ! 1 + 5, 14 := pss_algorithm ! 14 + 5] @ pss_trailer
       in if md_field_bytes field explicit_pss (length explicit_pss) then 0 else - EINVAL)"

section \<open>Certificates\<close>

definition spki_algorithm :: bytes where
  "spki_algorithm = [0x30, 0x0d, 6, 9, 0x2a, 0x86, 0x48, 0x86, 0xf7, 0x0d, 1, 1, 1, 5, 0]"

definition legacy_algorithm :: bytes where
  "legacy_algorithm = [0x30, 0x0d, 6, 9, 0x2a, 0x86, 0x48, 0x86, 0xf7, 0x0d, 1, 1, 0x0b, 5, 0]"

text \<open>The two work areas of the code hold fields that are not used again; the key is returned.\<close>

definition modulus_admitted :: "md_der_field \<Rightarrow> bool" where
  "modulus_admitted m \<longleftrightarrow> fld_tag m = 2 \<and> fld_size m - fld_header m = 257 \<and> fld_data m ! fld_header m = 0 \<and>
     fld_data m ! (fld_header m + 1) AND 0x80 \<noteq> 0 \<and> fld_data m ! (fld_size m - 1) AND 1 \<noteq> 0"

definition md_spki :: "md_walker \<Rightarrow> md_der_field \<Rightarrow> int + md_der_field" where
  "md_spki walker spki =
    (case md_der_sequence walker (fld_data spki) (fld_size spki) of
       Inl _ \<Rightarrow> Inl (- EINVAL)
     | Inr fs \<Rightarrow>
         if length fs \<noteq> 2 \<or> \<not> md_field_bytes (fs ! 0) spki_algorithm (length spki_algorithm) then Inl (- EINVAL)
         else let n = fld_size (fs ! 1) - fld_header (fs ! 1) in
         if n = 0 then Inl (- EINVAL)
         else case md_bits (fs ! 1) (n - 1) of
           None \<Rightarrow> Inl (- EINVAL)
         | Some raw \<Rightarrow>
             (case md_der_sequence walker raw (n - 1) of
                Inl _ \<Rightarrow> Inl (- EINVAL)
              | Inr integers \<Rightarrow>
                  if length integers \<noteq> 2 \<or> \<not> modulus_admitted (integers ! 0) \<or>
                     \<not> md_field_bytes (integers ! 1) key_exponent (length key_exponent)
                  then Inl (- EINVAL)
                  else Inr \<lparr> fld_data = raw, fld_size = n - 1, fld_header = 0, fld_tag = 0 \<rparr>))"

text \<open>The items after the seventh field come in pairs, each with an identifier of its own.\<close>

definition items_distinct :: "md_der_field list \<Rightarrow> bool" where
  "items_distinct body \<longleftrightarrow>
     list_all (\<lambda>i. fld_tag (body ! i) = 6 \<and>
         list_all (\<lambda>j. \<not> md_field_equal (body ! i) (body ! j)) (filter (\<lambda>j. odd j \<and> j < i) [7..<length body]))
       (filter odd [7..<length body])"

definition md_parse_cert :: "md_walker \<Rightarrow> bytes \<Rightarrow> nat \<Rightarrow> int + md_der_cert" where
  "md_parse_cert walker data n =
    (case md_der_sequence walker data n of
       Inl ret \<Rightarrow> Inl ret
     | Inr envelope \<Rightarrow>
         if length envelope \<noteq> 3 \<or> md_pss_profile (envelope ! 1) \<noteq> 0 \<or> md_bits (envelope ! 2) 256 = None then Inl (- EINVAL)
         else case md_der_sequence walker (fld_data (envelope ! 0)) (fld_size (envelope ! 0)) of
           Inl ret \<Rightarrow> Inl ret
         | Inr body \<Rightarrow>
             if length body < 7 \<or> (length body - 7) mod 2 \<noteq> 0 then Inl (- EINVAL)
             else if \<not> md_field_equal (body ! 2) (envelope ! 1) \<and>
                     \<not> md_field_bytes (body ! 2) legacy_algorithm (length legacy_algorithm) then Inl (- EINVAL)
             else (case md_spki walker (body ! 6) of
               Inl ret \<Rightarrow> Inl ret
             | Inr key \<Rightarrow>
                 if \<not> items_distinct body then Inl (- EINVAL)
                 else Inr \<lparr> cert_tbs = envelope ! 0, cert_spki = body ! 6, cert_raw_key = key,
                            cert_signature = envelope ! 2, cert_body = body \<rparr>))"

definition md_metadata :: "md_der_cert \<Rightarrow> u8 \<Rightarrow> u8 \<Rightarrow> md_der_field option" where
  "md_metadata cert grp item =
    (let oid = [6, 7, 0x60, 0x86, 0x76, 0x93, 0x16, grp, item]; body = cert_body cert in
     case find (\<lambda>i. md_field_bytes (body ! i) oid (length oid)) (filter odd [7..<length body]) of
       None \<Rightarrow> None
     | Some i \<Rightarrow> Some (body ! (i + 1)))"

section \<open>The chain\<close>

definition signature_bytes :: "md_der_cert \<Rightarrow> bytes" where
  "signature_bytes cert = drop (fld_header (cert_signature cert) + 1) (fld_data (cert_signature cert))"

text \<open>The root is pinned, names the key of the leaf, and has signed itself.\<close>

definition md_root_checks :: "'w md_crypto \<Rightarrow> mt6878_md_pss32 ptr \<Rightarrow> md_der_cert \<Rightarrow> md_der_cert \<Rightarrow> bytes \<Rightarrow> 'w md_state \<Rightarrow>
    (int \<times> mt6878_md_pss32 ptr) \<times> 'w md_state" where
  "md_root_checks api ctx root leaf pin s =
    (case mt6878_md_pss32_sha256 api ctx (At 0 (fld_data (cert_spki root))) (fld_size (cert_spki root)) (zeroed 32) s of
       ((ret, hash), s) \<Rightarrow>
     if ret \<noteq> 0 then ((ret, ctx), s)
     else if hash \<noteq> take 32 pin then ((- EKEYREJECTED, ctx), s)
     else if (case md_metadata root 1 2 of None \<Rightarrow> True | Some field \<Rightarrow> \<not> md_field_equal field (cert_spki leaf))
       then ((- EKEYREJECTED, ctx), s)
     else mt6878_md_pss32_verify api ctx (At 0 (fld_data (cert_tbs root))) (fld_size (cert_tbs root))
            (At 0 (signature_bytes root)) 256 s)"

definition zero_bits :: bytes where "zero_bits = [3, 2, 0, 0]"
definition zero_items :: "(u8 \<times> u8) list" where "zero_items = [(2, 6), (2, 8), (4, 2)]"

definition md_zero_item :: "md_der_cert \<Rightarrow> u8 \<times> u8 \<Rightarrow> bool" where
  "md_zero_item leaf item =
    (case md_metadata leaf (fst item) (snd item) of
       None \<Rightarrow> False | Some field \<Rightarrow> md_field_bytes field zero_bits (length zero_bits))"

text \<open>The 32 bytes of a metadata item, the lookup and the bit string together.\<close>

definition md_attested :: "md_der_cert \<Rightarrow> u8 \<Rightarrow> u8 \<Rightarrow> bytes option" where
  "md_attested leaf grp item =
    (case md_metadata leaf grp item of
       None \<Rightarrow> None
     | Some field \<Rightarrow> (case md_bits field 32 of None \<Rightarrow> None | Some expected \<Rightarrow> Some (take 32 expected)))"

text \<open>What follows the verification of the leaf: its items, and the hash of the header.\<close>

definition md_leaf_hashes :: "'w md_crypto \<Rightarrow> mt6878_md_pss32 ptr \<Rightarrow> md_der_cert \<Rightarrow> bytes ptr \<Rightarrow> nat \<Rightarrow> 'w md_state \<Rightarrow>
    (int + mt6878_md_signed_hashes) \<times> 'w md_state" where
  "md_leaf_hashes api ctx leaf header header_size s =
    (if \<not> list_all (md_zero_item leaf) zero_items then (Inl (- EPROTONOSUPPORT), s)
     else case md_attested leaf 2 4 of
       None \<Rightarrow> (Inl (- EINVAL), s)
     | Some expected \<Rightarrow>
         (case mt6878_md_pss32_sha256 api ctx header header_size (zeroed 32) s of ((ret, hash), s) \<Rightarrow>
          if ret \<noteq> 0 then (Inl ret, s)
          else if hash \<noteq> expected then (Inl (- EKEYREJECTED), s)
          else case md_attested leaf 2 1 of
            None \<Rightarrow> (Inl (- EINVAL), s)
          | Some payload \<Rightarrow> (Inr \<lparr> header_sha256 = expected, payload_sha256 = payload \<rparr>, s)))"

text \<open>The two contexts are returned with the result, since the label \<^verbatim>\<open>out\<close> destroys them.\<close>

definition md_leaf_chain :: "'w md_crypto \<Rightarrow> md_der_cert \<Rightarrow> bytes ptr \<Rightarrow> nat \<Rightarrow> 'w md_state \<Rightarrow>
    ((int + mt6878_md_signed_hashes) \<times> mt6878_md_pss32 ptr) \<times> 'w md_state" where
  "md_leaf_chain api leaf header header_size s =
    (case mt6878_md_pss32_create api (At 0 (fld_data (cert_raw_key leaf))) (fld_size (cert_raw_key leaf)) s of
       (Inl ret, s) \<Rightarrow> ((Inl ret, Null), s)
     | (Inr c, s) \<Rightarrow>
         (case mt6878_md_pss32_verify api (At 0 c) (At 0 (fld_data (cert_tbs leaf))) (fld_size (cert_tbs leaf))
                 (At 0 (signature_bytes leaf)) 256 s of ((ret, ctx), s) \<Rightarrow>
          if ret \<noteq> 0 then ((Inl ret, ctx), s)
          else case md_leaf_hashes api ctx leaf header header_size s of (result, s) \<Rightarrow> ((result, ctx), s)))"

definition md_chain :: "'w md_crypto \<Rightarrow> md_der_cert \<Rightarrow> md_der_cert \<Rightarrow> bytes ptr \<Rightarrow> nat \<Rightarrow> bytes \<Rightarrow> 'w md_state \<Rightarrow>
    ((int + mt6878_md_signed_hashes) \<times> mt6878_md_pss32 ptr \<times> mt6878_md_pss32 ptr) \<times> 'w md_state" where
  "md_chain api root leaf header header_size pin s =
    (case mt6878_md_pss32_create api (At 0 (fld_data (cert_raw_key root))) (fld_size (cert_raw_key root)) s of
       (Inl ret, s) \<Rightarrow> ((Inl ret, Null, Null), s)
     | (Inr c, s) \<Rightarrow>
         (case md_root_checks api (At 0 c) root leaf pin s of ((ret, ctx), s) \<Rightarrow>
          if ret \<noteq> 0 then ((Inl ret, ctx, Null), s)
          else case md_leaf_chain api leaf header header_size s of ((result, leaf_ctx), s) \<Rightarrow>
            ((result, ctx, leaf_ctx), s)))"

definition md_parse_certs :: "md_walker \<Rightarrow> bytes \<Rightarrow> nat \<Rightarrow> bytes \<Rightarrow> nat \<Rightarrow> int + md_der_cert \<times> md_der_cert" where
  "md_parse_certs walker cert1 size1 cert2 size2 =
    (case md_parse_cert walker cert1 size1 of
       Inl ret \<Rightarrow> Inl ret
     | Inr root \<Rightarrow> (case md_parse_cert walker cert2 size2 of Inl ret \<Rightarrow> Inl ret | Inr leaf \<Rightarrow> Inr (root, leaf)))"

definition md_authenticate :: "'w md_crypto \<Rightarrow> md_walker \<Rightarrow> bytes \<Rightarrow> nat \<Rightarrow> bytes \<Rightarrow> nat \<Rightarrow> bytes ptr \<Rightarrow> nat \<Rightarrow> bytes \<Rightarrow> 'w md_state \<Rightarrow>
    ((int + mt6878_md_signed_hashes) \<times> mt6878_md_pss32 ptr \<times> mt6878_md_pss32 ptr) \<times> 'w md_state" where
  "md_authenticate api walker cert1 size1 cert2 size2 header header_size pin s =
    (case md_parse_certs walker cert1 size1 cert2 size2 of
       Inl ret \<Rightarrow> ((Inl ret, Null, Null), s)
     | Inr (root, leaf) \<Rightarrow> md_chain api root leaf header header_size pin s)"

definition released :: "md_resource \<Rightarrow> 'w md_state \<Rightarrow> 'w md_state" where
  "released r s = (case s of (w, tr) \<Rightarrow> (w, tr @ [Md_free r]))"

definition md_mtk_verify_pin :: "'w md_crypto \<Rightarrow> md_walker \<Rightarrow> bytes ptr \<Rightarrow> nat \<Rightarrow> bytes ptr \<Rightarrow> nat \<Rightarrow> bytes ptr \<Rightarrow> nat \<Rightarrow>
    mt6878_md_signed_hashes ptr \<Rightarrow> bytes ptr \<Rightarrow> 'w md_state \<Rightarrow> (int \<times> mt6878_md_signed_hashes ptr) \<times> 'w md_state" where
  "md_mtk_verify_pin api walker cert1 size1 cert2 size2 header header_size out pin s =
    (if cert1 = Null \<or> cert2 = Null \<or> size1 = 0 \<or> size2 = 0 \<or> size1 > MD_CERT_MAX \<or> size2 > MD_CERT_MAX \<or>
        header = Null \<or> header_size \<noteq> 512 \<or> out = Null \<or> pin = Null then ((- EINVAL, out), s)
     else case asked (cr_kzalloc api) s of (ok, s) \<Rightarrow>
     if \<not> ok then ((- ENOMEM, out), s)
     else let s = noted Md_work s in
     case md_authenticate api walker (contents cert1) size1 (contents cert2) size2 header header_size (contents pin) s of
       ((result, root_ctx, leaf_ctx), s) \<Rightarrow>
     let s = released Md_work (mt6878_md_pss32_destroy root_ctx (mt6878_md_pss32_destroy leaf_ctx s)) in
     (case result of Inl ret \<Rightarrow> ((ret, out), s) | Inr verified \<Rightarrow> ((0, store out verified), s)))"

definition mt6878_md_mtk_verify_header :: "'w md_crypto \<Rightarrow> md_walker \<Rightarrow> bytes ptr \<Rightarrow> nat \<Rightarrow> bytes ptr \<Rightarrow> nat \<Rightarrow> bytes ptr \<Rightarrow> nat \<Rightarrow>
    mt6878_md_signed_hashes ptr \<Rightarrow> 'w md_state \<Rightarrow> (int \<times> mt6878_md_signed_hashes ptr) \<times> 'w md_state" where
  "mt6878_md_mtk_verify_header api walker cert1 size1 cert2 size2 header header_size out s =
    md_mtk_verify_pin api walker cert1 size1 cert2 size2 header header_size out (At 0 md_mtk_root_pin) s"

section \<open>What the chain has to establish\<close>

text \<open>
  The reference speaks of the hash \<open>H\<close> and the RSA operation \<open>E\<close> only: a certificate is signed by its own key,
  and a chain attests the two hashes \<open>v\<close>.
\<close>

definition signed_by_own_key :: "(bytes \<Rightarrow> bytes) \<Rightarrow> (bytes \<Rightarrow> bytes \<Rightarrow> bytes) \<Rightarrow> md_der_cert \<Rightarrow> bool" where
  "signed_by_own_key H E cert \<longleftrightarrow>
    (let key = take (fld_size (cert_raw_key cert)) (fld_data (cert_raw_key cert));
         tbs = take (fld_size (cert_tbs cert)) (fld_data (cert_tbs cert))
     in key_admitted (fld_data (cert_raw_key cert)) (fld_size (cert_raw_key cert)) \<and>
        emsa_pss_verify H (E key (take 256 (signature_bytes cert))) (H tbs))"

definition delegated :: "md_der_cert \<Rightarrow> md_der_cert \<Rightarrow> bool" where
  "delegated root leaf =
    (case md_metadata root 1 2 of None \<Rightarrow> False | Some field \<Rightarrow> md_field_equal field (cert_spki leaf))"

definition attests :: "(bytes \<Rightarrow> bytes) \<Rightarrow> md_der_cert \<Rightarrow> bytes \<Rightarrow> mt6878_md_signed_hashes \<Rightarrow> bool" where
  "attests H leaf header v \<longleftrightarrow> list_all (md_zero_item leaf) zero_items \<and>
     md_attested leaf 2 4 = Some (header_sha256 v) \<and> header_sha256 v = H (take 512 header) \<and>
     md_attested leaf 2 1 = Some (payload_sha256 v)"

definition chain_signed :: "(bytes \<Rightarrow> bytes) \<Rightarrow> (bytes \<Rightarrow> bytes \<Rightarrow> bytes) \<Rightarrow> bytes \<Rightarrow> md_der_cert \<Rightarrow> md_der_cert \<Rightarrow>
    bytes \<Rightarrow> mt6878_md_signed_hashes \<Rightarrow> bool" where
  "chain_signed H E pin root leaf header v \<longleftrightarrow>
     H (take (fld_size (cert_spki root)) (fld_data (cert_spki root))) = pin \<and> delegated root leaf \<and>
     signed_by_own_key H E root \<and> signed_by_own_key H E leaf \<and> attests H leaf header v"

definition alloc_reliable :: "'w md_crypto \<Rightarrow> bool" where
  "alloc_reliable api \<longleftrightarrow> (\<forall>w. fst (cr_kzalloc api w) \<and> fst (cr_alloc_akcipher api w) = 0 \<and> fst (cr_maxsize api w) = 256 \<and>
     fst (cr_alloc_shash api w) = 0 \<and> fst (cr_digestsize api w) = 32 \<and> fst (cr_request_alloc api w)) \<and>
     (\<forall>k w. fst (cr_set_pub_key api k w) = 0)"

section \<open>Fields lie within the bounds of a certificate\<close>

definition field_bounded :: "md_der_field \<Rightarrow> bool" where
  "field_bounded f \<longleftrightarrow> 2 \<le> fld_size f \<and> fld_size f \<le> MD_CERT_MAX \<and> fld_header f \<le> fld_size f"

lemma der_header_bounds: "md_der_header p n = (0, h) \<Longrightarrow> 2 \<le> n \<and> h \<le> n"
  by (auto simp: md_der_header_def Let_def split: if_splits)

lemma note_field_bounded:
  assumes "mt6878_md_mtk_note_field data e out = Inr out'" and "list_all field_bounded out"
  shows "list_all field_bounded out'"
proof -
  obtain at0 hdrlen tag vlen where e: "e = (at0, hdrlen, tag, vlen)" by (metis prod.exhaust)
  show ?thesis
    using assms der_header_bounds
    by (auto simp: e mt6878_md_mtk_note_field_def Let_def field_bounded_def split: if_splits prod.splits)
qed

lemma asn1_walk_bounded:
  "asn1_walk data es st out = Inr out' \<Longrightarrow> list_all field_bounded out \<Longrightarrow> list_all field_bounded out'"
  by (induction es arbitrary: out) (auto split: if_splits sum.splits dest: note_field_bounded)

lemma sequence_bounded: "md_der_sequence walker data n = Inr fs \<Longrightarrow> list_all field_bounded fs"
  using asn1_walk_bounded [of "take n data" _ _ "[]" fs]
  by (auto simp: md_der_sequence_def split: if_splits prod.splits sum.splits)

lemma note_field_error: "mt6878_md_mtk_note_field data e out = Inl r \<Longrightarrow> r \<noteq> 0"
  by (auto simp: mt6878_md_mtk_note_field_def Let_def split: if_splits prod.splits)

lemma asn1_walk_error: "asn1_walk data es st out = Inl r \<Longrightarrow> r \<noteq> 0"
  by (induction es arbitrary: out) (auto split: if_splits sum.splits dest: note_field_error)

lemma sequence_error: "md_der_sequence walker data n = Inl r \<Longrightarrow> r \<noteq> 0"
  using asn1_walk_error [of "take n data"]
  by (auto simp: md_der_sequence_def split: if_splits prod.splits sum.splits)

lemma spki_error: "md_spki walker f = Inl r \<Longrightarrow> r \<noteq> 0"
  by (auto simp: md_spki_def Let_def split: if_splits option.splits sum.splits)

lemma parse_cert_error: "md_parse_cert walker data n = Inl r \<Longrightarrow> r \<noteq> 0"
  using sequence_error spki_error
  by (auto simp: md_parse_cert_def split: if_splits sum.splits)

lemma parse_cert_bounded:
  assumes "md_parse_cert walker data n = Inr cert"
  shows "field_bounded (cert_tbs cert)" "field_bounded (cert_spki cert)"
proof -
  obtain envelope body key where seq: "md_der_sequence walker data n = Inr envelope" "length envelope = 3"
      "md_der_sequence walker (fld_data (envelope ! 0)) (fld_size (envelope ! 0)) = Inr body" "7 \<le> length body"
    and cert: "cert = \<lparr> cert_tbs = envelope ! 0, cert_spki = body ! 6, cert_raw_key = key,
                        cert_signature = envelope ! 2, cert_body = body \<rparr>"
    using assms by (auto simp: md_parse_cert_def split: if_splits sum.splits)
  show "field_bounded (cert_tbs cert)" "field_bounded (cert_spki cert)"
    using sequence_bounded [OF seq(1)] sequence_bounded [OF seq(3)] seq(2,4) by (auto simp: cert list_all_length)
qed

section \<open>Each step decides its part of the chain\<close>

lemma create_error:
  assumes "mt6878_md_pss32_create api key len s = (Inl e, t)"
  shows "e \<noteq> 0"
  using assms
  by (auto simp: mt6878_md_pss32_create_def create_sha_def create_failed_def Let_def
      split: if_splits prod.splits)

lemma asked_result: "asked call s = (a, t) \<Longrightarrow> a = fst (call (fst s))"
  by (cases s) (auto simp: asked_def split: prod.splits)

lemma create_reliable:
  assumes "alloc_reliable api" and "key_admitted key len"
  shows "\<exists>c t. mt6878_md_pss32_create api (At a key) len s = (Inr c, t)"
  using assms
  by (auto simp: mt6878_md_pss32_create_def create_sha_def alloc_reliable_def md_crypto_error_def Let_def
      split: prod.splits dest!: asked_result)

lemma root_checks_result:
  assumes sound: "crypto_sound api H E" and idle: "pss_idle c" and "field_bounded (cert_spki root)" "field_bounded (cert_tbs root)"
    and key: "pss_key c = take (fld_size (cert_raw_key root)) (fld_data (cert_raw_key root))"
      "key_admitted (fld_data (cert_raw_key root)) (fld_size (cert_raw_key root))"
    and run: "md_root_checks api (At a c) root leaf pin s = ((ret, ctx), s')"
  defines "ok \<equiv> H (take (fld_size (cert_spki root)) (fld_data (cert_spki root))) = take 32 pin \<and> delegated root leaf \<and>
     signed_by_own_key H E root"
  shows "ctx = At a c" "snd s' = snd s" "ret = 0 \<longrightarrow> ok" "crypto_reliable api \<longrightarrow> ok \<longrightarrow> ret = 0"
proof -
  obtain r hash t where sha: "mt6878_md_pss32_sha256 api (At a c) (At 0 (fld_data (cert_spki root))) (fld_size (cert_spki root))
    (zeroed 32) s = ((r, hash), t)" by (metis prod.exhaust)
  have spki: "0 < fld_size (cert_spki root)" "fld_size (cert_spki root) \<le> 64 * 1024 * 1024"
    using assms(3) by (auto simp: field_bounded_def)
  note h = sha256_result [OF sound sha spki]
  obtain r2 ctx2 t2 where ver: "mt6878_md_pss32_verify api (At a c) (At 0 (fld_data (cert_tbs root))) (fld_size (cert_tbs root))
      (At 0 (signature_bytes root)) 256 t = ((r2, ctx2), t2)" by (metis prod.exhaust)
  note v = verify_result [OF sound idle ver]
  have tbs: "0 < fld_size (cert_tbs root)" "fld_size (cert_tbs root) \<le> 16384"
    using assms(4) by (auto simp: field_bounded_def)
  have del: "(case md_metadata root 1 2 of None \<Rightarrow> True | Some field \<Rightarrow> \<not> md_field_equal field (cert_spki leaf)) = (\<not> delegated root leaf)"
    by (simp add: delegated_def split: option.splits)
  have out: "((ret, ctx), s') = (if r \<noteq> 0 then ((r, At a c), t) else if hash \<noteq> take 32 pin \<or> \<not> delegated root leaf
    then ((- EKEYREJECTED, At a c), t) else ((r2, ctx2), t2))"
    using run unfolding md_root_checks_def sha ver prod.case del by (simp split: if_splits)
  have signed: "signed_by_own_key H E root = emsa_pss_verify H (E (pss_key c) (take 256 (signature_bytes root)))
      (H (take (fld_size (cert_tbs root)) (fld_data (cert_tbs root))))"
    using key by (simp add: signed_by_own_key_def)
  show "ctx = At a c" using out v(1) by (auto split: if_splits)
  show "snd s' = snd s" using out v(2) h(2) by (auto split: if_splits)
  show "ret = 0 \<longrightarrow> ok"
    using out v(3) h(1) by (auto simp: ok_def signed split: if_splits)
  show "crypto_reliable api \<longrightarrow> ok \<longrightarrow> ret = 0"
    using out v(4) h(1,3) tbs by (auto simp: ok_def signed split: if_splits)
qed

lemma leaf_hashes_result:
  assumes sound: "crypto_sound api H E" and run: "md_leaf_hashes api (At a c) leaf (At b header) 512 s = (result, s')"
  shows "snd s' = snd s" "result \<noteq> Inl 0" "result = Inr v \<longrightarrow> attests H leaf header v"
    "crypto_reliable api \<longrightarrow> attests H leaf header v \<longrightarrow> result = Inr v"
proof -
  obtain r hash t where sha: "mt6878_md_pss32_sha256 api (At a c) (At b header) 512 (zeroed 32) s = ((r, hash), t)"
    by (metis prod.exhaust)
  have h: "r = 0 \<longrightarrow> hash = H (take 512 header)" "snd t = snd s" "crypto_reliable api \<longrightarrow> r = 0"
    using sha256_result [OF sound sha] by simp_all
  consider "\<not> list_all (md_zero_item leaf) zero_items" | "list_all (md_zero_item leaf) zero_items" "md_attested leaf 2 4 = None"
    | e where "list_all (md_zero_item leaf) zero_items" "md_attested leaf 2 4 = Some e" by (cases "md_attested leaf 2 4") auto
  then have "snd s' = snd s \<and> result \<noteq> Inl 0 \<and> (result = Inr v \<longrightarrow> attests H leaf header v) \<and>
    (crypto_reliable api \<longrightarrow> attests H leaf header v \<longrightarrow> result = Inr v)"
  proof cases
    case 3
    have zero: "(\<not> list_all (md_zero_item leaf) zero_items) = False" using 3(1) by simp
    have out: "(result, s') = (if r \<noteq> 0 then (Inl r, t) else if hash \<noteq> e then (Inl (- EKEYREJECTED), t)
        else case md_attested leaf 2 1 of None \<Rightarrow> (Inl (- EINVAL), t)
          | Some p \<Rightarrow> (Inr \<lparr> header_sha256 = e, payload_sha256 = p \<rparr>, t))"
      using run unfolding md_leaf_hashes_def zero 3(2) option.case sha prod.case if_False by (rule sym)
    have att: "attests H leaf header v \<longleftrightarrow> e = header_sha256 v \<and> header_sha256 v = H (take 512 header) \<and>
      md_attested leaf 2 1 = Some (payload_sha256 v)"
      unfolding attests_def 3(2) using 3(1) by simp
    consider "r \<noteq> 0 \<or> hash \<noteq> e" | "r = 0" "hash = e" "md_attested leaf 2 1 = None"
      | p where "r = 0" "hash = e" "md_attested leaf 2 1 = Some p" by (cases "md_attested leaf 2 1") auto
    then show ?thesis
    proof cases
      case 1
      then have "s' = t" "\<exists>x. result = Inl x \<and> x \<noteq> 0" using out by (auto split: if_splits)
      then show ?thesis using 1 h unfolding att by auto
    next
      case 2
      then have "s' = t" "result = Inl (- EINVAL)" using out by simp_all
      then show ?thesis using 2 h unfolding att by simp
    next
      case (3 p)
      then have res: "s' = t" "result = Inr \<lparr> header_sha256 = e, payload_sha256 = p \<rparr>" using out by simp_all
      have e: "e = H (take 512 header)" using 3 h by simp
      have eq: "result = Inr v \<longleftrightarrow> e = header_sha256 v \<and> p = payload_sha256 v" unfolding res(2) by (cases v) simp
      have "attests H leaf header v \<longleftrightarrow> result = Inr v" unfolding att eq 3(3) e [symmetric] by blast
      moreover have "result \<noteq> Inl 0" unfolding res(2) by simp
      ultimately show ?thesis using h(2) res(1) by blast
    qed
  qed (use run in \<open>auto simp: md_leaf_hashes_def attests_def\<close>)
  then show "snd s' = snd s" "result \<noteq> Inl 0" "result = Inr v \<longrightarrow> attests H leaf header v"
    "crypto_reliable api \<longrightarrow> attests H leaf header v \<longrightarrow> result = Inr v" by blast+
qed

lemma leaf_chain_result:
  assumes sound: "crypto_sound api H E" and tbs: "field_bounded (cert_tbs leaf)"
    and run: "md_leaf_chain api leaf (At b header) 512 s = ((result, ctx), s')"
  shows "\<forall>q. outstanding (snd (mt6878_md_pss32_destroy ctx s')) q = outstanding (snd s) q" "result \<noteq> Inl 0"
    "result = Inr v \<longrightarrow> signed_by_own_key H E leaf \<and> attests H leaf header v"
    "crypto_reliable api \<and> alloc_reliable api \<and> signed_by_own_key H E leaf \<and> attests H leaf header v \<longrightarrow> result = Inr v"
proof -
  let ?key = "cert_raw_key leaf"
  obtain made t where cr: "mt6878_md_pss32_create api (At 0 (fld_data ?key)) (fld_size ?key) s = (made, t)" by (metis prod.exhaust)
  have "(\<forall>q. outstanding (snd (mt6878_md_pss32_destroy ctx s')) q = outstanding (snd s) q) \<and> result \<noteq> Inl 0 \<and>
    (result = Inr v \<longrightarrow> signed_by_own_key H E leaf \<and> attests H leaf header v) \<and>
    (crypto_reliable api \<and> alloc_reliable api \<and> signed_by_own_key H E leaf \<and> attests H leaf header v \<longrightarrow> result = Inr v)"
  proof (cases made)
    case (Inl e)
    have out: "result = Inl e" "ctx = Null" "s' = t" using run cr Inl by (simp_all add: md_leaf_chain_def)
    have "\<not> (alloc_reliable api \<and> signed_by_own_key H E leaf)"
      using create_reliable [of api "fld_data ?key" "fld_size ?key" 0 s] cr Inl by (auto simp: signed_by_own_key_def Let_def)
    then show ?thesis using out create_outstanding [OF cr] create_error [OF cr [unfolded Inl]] Inl
      by (auto simp: mt6878_md_pss32_destroy_def)
  next
    case (Inr c)
    note made = create_outstanding [OF cr, unfolded Inr, simplified]
    obtain r ctx2 t2 where ver: "mt6878_md_pss32_verify api (At 0 c) (At 0 (fld_data (cert_tbs leaf))) (fld_size (cert_tbs leaf))
      (At 0 (signature_bytes leaf)) 256 t = ((r, ctx2), t2)" by (metis prod.exhaust)
    have idle: "pss_idle c" using made by simp
    note v = verify_result [OF sound idle ver]
    obtain res t3 where att: "md_leaf_hashes api (At 0 c) leaf (At b header) 512 t2 = (res, t3)" by (metis prod.exhaust)
    note a = leaf_hashes_result(1,2) [OF sound att] leaf_hashes_result(3,4) [OF sound att, of v]
    have out: "((result, ctx), s') = (if r \<noteq> 0 then ((Inl r, At 0 c), t2) else ((res, At 0 c), t3))"
      using run cr ver att v(1) Inr by (simp add: md_leaf_chain_def split: if_splits)
    have own: "outstanding (snd (mt6878_md_pss32_destroy ctx s')) q = outstanding (snd s) q" for q
      using out made v(2) a(1) by (auto simp: destroy_outstanding split: if_splits)
    have signed: "signed_by_own_key H E leaf = emsa_pss_verify H (E (pss_key c) (take 256 (signature_bytes leaf)))
        (H (take (fld_size (cert_tbs leaf)) (fld_data (cert_tbs leaf))))"
      using made by (simp add: signed_by_own_key_def)
    have n: "0 < fld_size (cert_tbs leaf)" "fld_size (cert_tbs leaf) \<le> 16384" using tbs by (simp_all add: field_bounded_def)
    show ?thesis
    proof (cases "r = 0")
      case True
      then show ?thesis unfolding signed using own out v(3) a(2-4) by simp
    next
      case False
      then have "result = Inl r" using out by simp
      then show ?thesis unfolding signed using own v(4) n False by auto
    qed
  qed
  then show "\<forall>q. outstanding (snd (mt6878_md_pss32_destroy ctx s')) q = outstanding (snd s) q" "result \<noteq> Inl 0"
    "result = Inr v \<longrightarrow> signed_by_own_key H E leaf \<and> attests H leaf header v"
    "crypto_reliable api \<and> alloc_reliable api \<and> signed_by_own_key H E leaf \<and> attests H leaf header v \<longrightarrow> result = Inr v"
    by blast+
qed

lemma chain_result:
  assumes sound: "crypto_sound api H E"
    and wf: "field_bounded (cert_spki root)" "field_bounded (cert_tbs root)" "field_bounded (cert_tbs leaf)"
    and run: "md_chain api root leaf (At b header) 512 pin s = ((result, root_ctx, leaf_ctx), s')"
  shows "\<forall>q. outstanding (snd (mt6878_md_pss32_destroy root_ctx (mt6878_md_pss32_destroy leaf_ctx s'))) q = outstanding (snd s) q"
    "result \<noteq> Inl 0"
    "result = Inr v \<longrightarrow> chain_signed H E (take 32 pin) root leaf header v"
    "crypto_reliable api \<and> alloc_reliable api \<and> chain_signed H E (take 32 pin) root leaf header v \<longrightarrow> result = Inr v"
proof -
  let ?key = "cert_raw_key root" and ?signed = "chain_signed H E (take 32 pin) root leaf header v"
  obtain made t where cr: "mt6878_md_pss32_create api (At 0 (fld_data ?key)) (fld_size ?key) s = (made, t)" by (metis prod.exhaust)
  have "(\<forall>q. outstanding (snd (mt6878_md_pss32_destroy root_ctx (mt6878_md_pss32_destroy leaf_ctx s'))) q = outstanding (snd s) q) \<and>
    result \<noteq> Inl 0 \<and> (result = Inr v \<longrightarrow> ?signed) \<and>
    (crypto_reliable api \<and> alloc_reliable api \<and> ?signed \<longrightarrow> result = Inr v)"
  proof (cases made)
    case (Inl e)
    have out: "result = Inl e" "root_ctx = Null" "leaf_ctx = Null" "s' = t" using run cr Inl by (simp_all add: md_chain_def)
    have "\<not> (alloc_reliable api \<and> ?signed)"
      using create_reliable [of api "fld_data ?key" "fld_size ?key" 0 s] cr Inl
      by (auto simp: chain_signed_def signed_by_own_key_def Let_def)
    then show ?thesis using out create_outstanding [OF cr] create_error [OF cr [unfolded Inl]] Inl
      by (auto simp: mt6878_md_pss32_destroy_def)
  next
    case (Inr c)
    note made = create_outstanding [OF cr, unfolded Inr, simplified]
    obtain r ctx t2 where rc: "md_root_checks api (At 0 c) root leaf pin t = ((r, ctx), t2)" by (metis prod.exhaust)
    have c: "pss_idle c" "pss_key c = take (fld_size ?key) (fld_data ?key)" "key_admitted (fld_data ?key) (fld_size ?key)"
      using made by simp_all
    note checked = root_checks_result [OF sound c(1) wf(1,2) c(2,3) rc]
    obtain res lctx t3 where lc: "md_leaf_chain api leaf (At b header) 512 t2 = ((res, lctx), t3)" by (metis prod.exhaust)
    note l = leaf_chain_result(1,2) [OF sound wf(3) lc] leaf_chain_result(3,4) [OF sound wf(3) lc, of v]
    have out: "((result, root_ctx, leaf_ctx), s') = (if r \<noteq> 0 then ((Inl r, At 0 c, Null), t2) else ((res, At 0 c, lctx), t3))"
      using run cr rc lc checked(1) Inr by (simp add: md_chain_def split: if_splits)
    have null: "mt6878_md_pss32_destroy Null x = x" for x :: "'a md_state" by (simp add: mt6878_md_pss32_destroy_def)
    have own: "\<forall>q. outstanding (snd (mt6878_md_pss32_destroy root_ctx (mt6878_md_pss32_destroy leaf_ctx s'))) q = outstanding (snd s) q"
      using out made checked(2) l(1) by (cases "r = 0") (simp_all add: destroy_outstanding null)
    show ?thesis
    proof (cases "r = 0")
      case True
      then have "result = res" using out by simp
      then show ?thesis unfolding chain_signed_def using own checked(3) l(2-4) True by blast
    next
      case False
      then have "result = Inl r" using out by simp
      then show ?thesis unfolding chain_signed_def using own checked(4) False by auto
    qed
  qed
  then show "\<forall>q. outstanding (snd (mt6878_md_pss32_destroy root_ctx (mt6878_md_pss32_destroy leaf_ctx s'))) q = outstanding (snd s) q"
    "result \<noteq> Inl 0" "result = Inr v \<longrightarrow> ?signed"
    "crypto_reliable api \<and> alloc_reliable api \<and> ?signed \<longrightarrow> result = Inr v"
    by blast+
qed

text \<open>The call admits its arguments exactly when it gets as far as the work area.\<close>

definition sizes_admitted :: "nat \<Rightarrow> nat \<Rightarrow> nat \<Rightarrow> bool" where
  "sizes_admitted size1 size2 header_size \<longleftrightarrow>
     0 < size1 \<and> size1 \<le> MD_CERT_MAX \<and> 0 < size2 \<and> size2 \<le> MD_CERT_MAX \<and> header_size = 512"

lemma outstanding_released: "outstanding (snd (released q s)) r = outstanding (snd s) r - of_bool (q = r)"
  by (cases s) (simp add: released_def outstanding_def)

definition chain_accepted :: "md_walker \<Rightarrow> (bytes \<Rightarrow> bytes) \<Rightarrow> (bytes \<Rightarrow> bytes \<Rightarrow> bytes) \<Rightarrow> bytes \<Rightarrow> bytes \<Rightarrow> nat \<Rightarrow>
    bytes \<Rightarrow> nat \<Rightarrow> bytes \<Rightarrow> nat \<Rightarrow> mt6878_md_signed_hashes \<Rightarrow> bool" where
  "chain_accepted walker H E pin cert1 size1 cert2 size2 header header_size v \<longleftrightarrow>
     sizes_admitted size1 size2 header_size \<and>
     (case md_parse_certs walker cert1 size1 cert2 size2 of
        Inl _ \<Rightarrow> False | Inr (root, leaf) \<Rightarrow> chain_signed H E pin root leaf header v)"

lemma authenticate_result:
  assumes sound: "crypto_sound api H E" and sizes: "sizes_admitted size1 size2 header_size"
    and run: "md_authenticate api walker cert1 size1 cert2 size2 (At a header) 512 pin s = ((result, root_ctx, leaf_ctx), s')"
  defines "accepted \<equiv> chain_accepted walker H E (take 32 pin) cert1 size1 cert2 size2 header header_size"
  shows "(\<forall>q. outstanding (snd (mt6878_md_pss32_destroy root_ctx (mt6878_md_pss32_destroy leaf_ctx s'))) q =
      outstanding (snd s) q) \<and> result \<noteq> Inl 0 \<and> (result = Inr v \<longrightarrow> accepted v) \<and>
      (crypto_reliable api \<and> alloc_reliable api \<and> accepted v \<longrightarrow> result = Inr v)"
proof (cases "md_parse_certs walker cert1 size1 cert2 size2")
  case (Inl e)
  then have "e \<noteq> 0" using parse_cert_error by (auto simp: md_parse_certs_def split: sum.splits)
  then show ?thesis
    using run Inl by (auto simp: md_authenticate_def accepted_def chain_accepted_def mt6878_md_pss32_destroy_def)
next
  case (Inr p)
  obtain root leaf where p: "p = (root, leaf)" by (metis prod.exhaust)
  have wf: "field_bounded (cert_spki root)" "field_bounded (cert_tbs root)" "field_bounded (cert_tbs leaf)"
    using Inr p parse_cert_bounded by (auto simp: md_parse_certs_def split: sum.splits)
  have chain: "md_chain api root leaf (At a header) 512 pin s = ((result, root_ctx, leaf_ctx), s')"
    using run Inr p by (simp add: md_authenticate_def)
  have acc: "accepted v = chain_signed H E (take 32 pin) root leaf header v"
    using sizes Inr p by (simp add: accepted_def chain_accepted_def)
  show ?thesis unfolding acc using chain_result(1,2) [OF sound wf chain] chain_result(3,4) [OF sound wf chain, of v] by blast
qed

lemma verify_pin_result:
  assumes sound: "crypto_sound api H E"
    and run: "md_mtk_verify_pin api walker (At a1 cert1) size1 (At a2 cert2) size2 (At a3 header) header_size (At a4 old)
      (At a5 pin) s = ((ret, out), s')"
  defines "accepted \<equiv> chain_accepted walker H E (take 32 pin) cert1 size1 cert2 size2 header header_size"
  shows "\<forall>q. outstanding (snd s') q = outstanding (snd s) q" "ret = 0 \<longrightarrow> (\<exists>v. accepted v \<and> out = At a4 v)"
    "ret \<noteq> 0 \<longrightarrow> out = At a4 old" "crypto_reliable api \<and> alloc_reliable api \<and> accepted v \<longrightarrow> ret = 0"
proof -
  have "(\<forall>q. outstanding (snd s') q = outstanding (snd s) q) \<and> (ret = 0 \<longrightarrow> (\<exists>v. accepted v \<and> out = At a4 v)) \<and>
    (ret \<noteq> 0 \<longrightarrow> out = At a4 old) \<and> (crypto_reliable api \<and> alloc_reliable api \<and> accepted v \<longrightarrow> ret = 0)"
  proof (cases "sizes_admitted size1 size2 header_size")
    case False
    then have "ret = - EINVAL" "out = At a4 old" "s' = s"
      using run by (auto simp: md_mtk_verify_pin_def sizes_admitted_def split: if_splits)
    then show ?thesis using False by (simp add: accepted_def chain_accepted_def)
  next
    case True
    then have hs: "header_size = 512" by (simp add: sizes_admitted_def)
    obtain ok t where ok: "asked (cr_kzalloc api) s = (ok, t)" by (metis prod.exhaust)
    obtain result rctx lctx t2 where mid: "md_authenticate api walker cert1 size1 cert2 size2 (At a3 header) 512 pin (noted Md_work t) =
      ((result, rctx, lctx), t2)"
      by (metis prod.exhaust)
    let ?done = "released Md_work (mt6878_md_pss32_destroy rctx (mt6878_md_pss32_destroy lctx t2))"
    have out: "((ret, out), s') = (if \<not> ok then ((- ENOMEM, At a4 old), t)
      else case result of Inl r \<Rightarrow> ((r, At a4 old), ?done) | Inr x \<Rightarrow> ((0, At a4 x), ?done))"
    proof -
      have guard: "(At a1 cert1 = Null \<or> At a2 cert2 = Null \<or> size1 = 0 \<or> size2 = 0 \<or> size1 > MD_CERT_MAX \<or> size2 > MD_CERT_MAX \<or>
        At a3 header = Null \<or> header_size \<noteq> 512 \<or> At a4 old = Null \<or> At a5 pin = Null) = False"
        using True by (simp add: sizes_admitted_def)
      show ?thesis
        using run unfolding md_mtk_verify_pin_def guard [unfolded hs] hs if_False ok prod.case Let_def ptr.sel mid store.simps
        by (rule sym)
    qed
    have okr: "alloc_reliable api \<longrightarrow> ok" using asked_result [OF ok] by (simp add: alloc_reliable_def)
    note chain = authenticate_result [OF sound True mid, folded accepted_def]
    have free: "\<forall>q. outstanding (snd s') q = outstanding (snd s) q"
    proof -
      note rel = chain [of v, THEN conjunct1]
      have "s' = (if ok then ?done else t)" using out by (cases result; cases ok) simp_all
      then show ?thesis using rel ok [THEN asked_trace] by (simp add: outstanding_released outstanding_noted)
    qed
    show ?thesis
    proof (cases ok)
      case False
      then show ?thesis using out okr free by simp
    next
      case True
      show ?thesis
      proof (cases result)
        case (Inl r)
        then have "ret = r" "out = At a4 old" using out True by simp_all
        then show ?thesis using Inl chain [of v] free by simp
      next
        case (Inr x)
        then have "ret = 0" "out = At a4 x" using out True by simp_all
        then show ?thesis using Inr chain [of x] free by simp
      qed
    qed
  qed
  then show "\<forall>q. outstanding (snd s') q = outstanding (snd s) q" "ret = 0 \<longrightarrow> (\<exists>v. accepted v \<and> out = At a4 v)"
    "ret \<noteq> 0 \<longrightarrow> out = At a4 old" "crypto_reliable api \<and> alloc_reliable api \<and> accepted v \<longrightarrow> ret = 0"
    by blast+
qed

section \<open>The property\<close>

text \<open>
  C31. Firmware hashes are given out only for an authentic chain. Whatever the certificates, the
  ASN.1 walker and the crypto interface are, a result of 0 means that both certificates were parsed, the
  first key has the pinned hash and delegates to the second, both certificates carry a valid
  PSS signature, and the output holds the two hashes the second one attests, the first of
  which is the hash of the given header; any other result leaves the output as it was. Every
  allocation is released on every path. When allocators and
  crypto do not fail, every authentic chain is accepted.
\<close>
theorem cert_chain_authentic:
  assumes "crypto_sound api H E"
  shows "let ((ret, out), s') = mt6878_md_mtk_verify_header api walker (At a1 cert1) size1 (At a2 cert2) size2
                                  (At a3 header) header_size (At a4 old) s;
             accepted = chain_accepted walker H E md_mtk_root_pin cert1 size1 cert2 size2 header header_size
         in (\<forall>r. outstanding (snd s') r = outstanding (snd s) r) \<and>
            (if ret = 0 then out = At a4 (contents out) \<and> accepted (contents out) else out = At a4 old) \<and>
            (if crypto_reliable api \<and> alloc_reliable api then (ret = 0 \<longleftrightarrow> (\<exists>v. accepted v)) else True)"
proof -
  obtain ret out s' where run: "mt6878_md_mtk_verify_header api walker (At a1 cert1) size1 (At a2 cert2) size2
      (At a3 header) header_size (At a4 old) s = ((ret, out), s')" by (metis prod.exhaust)
  have pin: "take 32 md_mtk_root_pin = md_mtk_root_pin" by (simp add: md_mtk_root_pin_def)
  note res = verify_pin_result [OF assms run [unfolded mt6878_md_mtk_verify_header_def], unfolded pin]
  have guard: "(if P then Q else R) = ((P \<longrightarrow> Q) \<and> (\<not> P \<longrightarrow> R))" for P Q R by simp
  have one: "ret = 0 \<longrightarrow> out = At a4 (contents out) \<and>
      chain_accepted walker H E md_mtk_root_pin cert1 size1 cert2 size2 header header_size (contents out)"
    using res(2) by auto
  show ?thesis unfolding run Let_def prod.case guard using one res(1,3,4) by blast
qed

section \<open>A chain that is accepted\<close>

text \<open>
  One certificate serves as both: it names its own key and attests the pin, over a hash that is
  constant. The walker reports its elements by a table.
\<close>

definition sample_modulus :: bytes where "sample_modulus = replicate 256 0xff"
definition sample_key :: bytes where "sample_key = key_prefix @ sample_modulus @ key_exponent"
definition sample_spki :: bytes where
  "sample_spki = [0x30, 0x82, 1, 0x22] @ spki_algorithm @ [3, 0x82, 1, 0x0f, 0] @ sample_key"
definition item_oid :: "u8 \<Rightarrow> u8 \<Rightarrow> bytes" where "item_oid grp item = [6, 7, 0x60, 0x86, 0x76, 0x93, 0x16, grp, item]"
definition sample_tbs :: bytes where
  "sample_tbs = [0x30, 0x82, 2, 0xed] @ [5, 0, 5, 0] @ legacy_algorithm @ [5, 0, 5, 0, 5, 0] @ sample_spki @
     item_oid 1 2 @ sample_spki @ item_oid 2 6 @ zero_bits @ item_oid 2 8 @ zero_bits @ item_oid 4 2 @ zero_bits @
     item_oid 2 4 @ [3, 33, 0] @ md_mtk_root_pin @ item_oid 2 1 @ [3, 33, 0] @ md_mtk_root_pin"
definition sample_cert :: bytes where
  "sample_cert = [0x30, 0x82, 4, 0x39] @ sample_tbs @ pss_algorithm @ [3, 0x82, 1, 1, 0] @ zeroed 256"

definition sample_walker :: md_walker where
  "sample_walker data =
    (if length data = 1085 then [(8, 4, 0x30, 749), (759, 2, 0x30, 65), (828, 4, 3, 257)]
     else if length data = 753 then
       [(6, 2, 5, 0), (8, 2, 5, 0), (10, 2, 0x30, 13), (25, 2, 5, 0), (27, 2, 5, 0), (29, 2, 5, 0), (33, 4, 0x30, 290), (325, 2, 6, 7), (336, 4, 0x30, 290), (628, 2, 6, 7), (637, 2, 3, 2), (641, 2, 6, 7), (650, 2, 3, 2), (654, 2, 6, 7), (663, 2, 3, 2), (667, 2, 6, 7), (676, 2, 3, 33), (711, 2, 6, 7), (720, 2, 3, 33)]
     else if length data = 294 then [(6, 2, 0x30, 13), (23, 4, 3, 271)]
     else [(8, 4, 2, 257), (267, 2, 2, 3)], 0)"

lemma sample_lengths [simp]: "length sample_modulus = 256" "length sample_key = 270" "length sample_spki = 294"
  "length (item_oid g i) = 9" "length sample_tbs = 753" "length sample_cert = 1085" "length md_mtk_root_pin = 32"
  "length legacy_algorithm = 15" "length spki_algorithm = 15" "length pss_algorithm = 67" "length zero_bits = 4"
  "length key_prefix = 9" "length key_exponent = 5"
  by (simp_all add: sample_modulus_def sample_key_def sample_spki_def item_oid_def sample_tbs_def sample_cert_def
     md_mtk_root_pin_def legacy_algorithm_def spki_algorithm_def pss_algorithm_def zero_bits_def key_prefix_def key_exponent_def)

definition field_at :: "bytes \<Rightarrow> md_element \<Rightarrow> md_der_field" where
  "field_at data = (\<lambda>(value_at, hdrlen, tag, vlen).
     \<lparr> fld_data = drop (value_at - hdrlen) data, fld_size = hdrlen + vlen, fld_header = hdrlen, fld_tag = tag \<rparr>)"

definition element_ok :: "bytes \<Rightarrow> md_element \<Rightarrow> bool" where
  "element_ok data = (\<lambda>(value_at, hdrlen, tag, vlen).
     hdrlen + vlen \<le> MD_CERT_MAX \<and> md_der_header (drop (value_at - hdrlen) data) (hdrlen + vlen) = (0, hdrlen))"

lemma walk_ok:
  assumes "list_all (element_ok data) es" and "length out + length es \<le> MD_FIELDS_MAX"
  shows "asn1_walk data es 0 out = Inr (out @ map (field_at data) es)"
  using assms
proof (induction es arbitrary: out)
  case (Cons e es)
  have "mt6878_md_mtk_note_field data e out = Inr (out @ [field_at data e])"
    using Cons.prems by (auto simp: mt6878_md_mtk_note_field_def element_ok_def field_at_def Let_def split: prod.splits)
  then show ?case using Cons by simp
qed simp

lemma sequence_ok:
  assumes "walker data = (es, 0)" "list_all (element_ok data) es" "length es \<le> MD_FIELDS_MAX"
    "length data \<le> MD_CERT_MAX" "fst (md_der_header (data @ rest) (length data)) = 0" "data ! 0 = 0x30" "data \<noteq> []"
  shows "md_der_sequence walker (data @ rest) (length data) = Inr (map (field_at data) es)"
  using assms walk_ok [of data es "[]"] by (simp add: md_der_sequence_def nth_append)

lemmas der_eval = element_ok_def md_der_header_def der_length_def Let_def nth_append

lemma tbs_sequence: "md_der_sequence sample_walker (sample_tbs @ x) 753 = Inr (map (field_at sample_tbs) (fst (sample_walker sample_tbs)))"
  by (rule sequence_ok [of sample_walker sample_tbs, simplified])
    (simp_all add: sample_walker_def der_eval sample_tbs_def legacy_algorithm_def sample_spki_def item_oid_def zero_bits_def)

lemma spki_sequence: "md_der_sequence sample_walker (sample_spki @ x) 294 = Inr (map (field_at sample_spki) (fst (sample_walker sample_spki)))"
  by (rule sequence_ok [of sample_walker sample_spki, simplified])
    (simp_all add: sample_walker_def der_eval sample_spki_def spki_algorithm_def)

lemma key_sequence: "md_der_sequence sample_walker (sample_key @ x) 270 = Inr (map (field_at sample_key) (fst (sample_walker sample_key)))"
  by (rule sequence_ok [of sample_walker sample_key, simplified])
    (simp_all add: sample_walker_def der_eval sample_key_def key_prefix_def key_exponent_def nth_append)

lemma tbs_head: "sample_tbs = 0x30 # 0x82 # 2 # 0xed # drop 4 sample_tbs" by (simp add: sample_tbs_def)

lemma cert_sequence: "md_der_sequence sample_walker sample_cert 1085 = Inr (map (field_at sample_cert) (fst (sample_walker sample_cert)))"
proof -
  have head: "take 2 (drop 2 sample_tbs) = [2, 0xed]" "sample_tbs ! 0 = 0x30" "sample_tbs ! Suc 0 = 0x82" "sample_tbs ! 2 = 2"
    by (subst tbs_head, simp)+
  have "list_all (element_ok sample_cert) (fst (sample_walker sample_cert))"
    by (simp add: sample_walker_def der_eval sample_cert_def nth_append head) (simp add: pss_algorithm_def)
  moreover have "md_der_header sample_cert 1085 = (0, 4)" "sample_cert ! 0 = 0x30" "sample_cert \<noteq> []"
    by (simp_all add: sample_cert_def der_eval)
  ultimately show ?thesis
    using sequence_ok [of sample_walker sample_cert _ "[]", simplified] by (simp add: sample_walker_def)
qed

lemma spki_ok: "md_spki sample_walker \<lparr> fld_data = sample_spki @ x, fld_size = 294, fld_header = 4, fld_tag = 0x30 \<rparr> =
    Inr \<lparr> fld_data = sample_key, fld_size = 270, fld_header = 0, fld_tag = 0 \<rparr>"
proof -
  let ?alg = "field_at sample_spki (6, 2, 0x30, 13)" and ?bits = "field_at sample_spki (23, 4, 3, 271)"
  let ?modulus = "field_at sample_key (8, 4, 2, 257)" and ?exponent = "field_at sample_key (267, 2, 2, 3)"
  have seq: "md_der_sequence sample_walker (sample_spki @ x) 294 = Inr [?alg, ?bits]"
    "md_der_sequence sample_walker sample_key 270 = Inr [?modulus, ?exponent]"
    using spki_sequence [of x] key_sequence [of "[]"] by (simp_all add: sample_walker_def)
  have alg: "md_field_bytes ?alg spki_algorithm 15"
    by (simp add: md_field_bytes_def field_at_def sample_spki_def)
  have bits: "md_bits ?bits 270 = Some sample_key" "fld_size ?bits = 275" "fld_header ?bits = 4"
    by (simp_all add: md_bits_def field_at_def sample_spki_def)
  have ints: "modulus_admitted ?modulus" "md_field_bytes ?exponent key_exponent 5"
    by (simp_all add: modulus_admitted_def md_field_bytes_def field_at_def sample_key_def key_prefix_def nth_append sample_modulus_def)
  show ?thesis using seq alg bits ints by (simp add: md_spki_def)
qed

definition sample_parsed :: md_der_cert where
  "sample_parsed =
    \<lparr> cert_tbs = field_at sample_cert (8, 4, 0x30, 749),
      cert_spki = field_at sample_tbs (33, 4, 0x30, 290),
      cert_raw_key = \<lparr> fld_data = sample_key, fld_size = 270, fld_header = 0, fld_tag = 0 \<rparr>,
      cert_signature = field_at sample_cert (828, 4, 3, 257),
      cert_body = map (field_at sample_tbs) (fst (sample_walker sample_tbs)) \<rparr>"

lemma parse_ok: "md_parse_cert sample_walker sample_cert 1085 = Inr sample_parsed"
proof -
  have env: "fst (sample_walker sample_cert) = [(8, 4, 0x30, 749), (759, 2, 0x30, 65), (828, 4, 3, 257)]"
    by (simp add: sample_walker_def)
  let ?body = "map (field_at sample_tbs) (fst (sample_walker sample_tbs))"
  have body: "md_der_sequence sample_walker (fld_data (field_at sample_cert (8, 4, 0x30, 749))) 753 = Inr ?body"
    using tbs_sequence by (simp add: field_at_def sample_cert_def)
  have pss: "md_pss_profile (field_at sample_cert (759, 2, 0x30, 65)) = 0"
    by (simp add: md_pss_profile_def field_at_def md_field_bytes_def sample_cert_def)
  have sig: "md_bits (field_at sample_cert (828, 4, 3, 257)) 256 \<noteq> None"
    by (simp add: md_bits_def field_at_def sample_cert_def)
  have body_at: "length ?body = 19" "?body ! 2 = field_at sample_tbs (10, 2, 0x30, 13)" "?body ! 6 = field_at sample_tbs (33, 4, 0x30, 290)"
    by (simp_all add: sample_walker_def)
  have legacy: "md_field_bytes (field_at sample_tbs (10, 2, 0x30, 13)) legacy_algorithm 15"
    by (simp add: field_at_def md_field_bytes_def sample_tbs_def)
  have spki: "md_spki sample_walker (field_at sample_tbs (33, 4, 0x30, 290)) =
      Inr \<lparr> fld_data = sample_key, fld_size = 270, fld_header = 0, fld_tag = 0 \<rparr>"
    using spki_ok by (simp add: field_at_def sample_tbs_def)
  have items: "items_distinct ?body"
    by (simp add: items_distinct_def sample_walker_def upt_rec md_field_equal_def md_field_bytes_def field_at_def)
       (simp add: sample_tbs_def item_oid_def)
  show ?thesis
    unfolding md_parse_cert_def cert_sequence env
    using body pss sig body_at legacy spki items by (simp add: sample_parsed_def field_at_def)
qed

definition sample_hash :: "bytes \<Rightarrow> bytes" where "sample_hash x = md_mtk_root_pin"

definition sample_rsa :: "bytes \<Rightarrow> bytes \<Rightarrow> bytes" where
  "sample_rsa key sig = emsa_pss_encode sample_hash md_mtk_root_pin (zeroed 32)"

definition sample_chain_crypto :: "unit md_crypto" where
  "sample_chain_crypto = sample_crypto\<lparr> cr_digest := (\<lambda>x w. ((0, sample_hash x), w)),
     cr_encrypt := (\<lambda>key sig w. ((0, sample_rsa key sig, 256), w)) \<rparr>"

lemma sample_chain_sound: "crypto_sound sample_chain_crypto sample_hash sample_rsa"
proof -
  have "length (sample_rsa key sig) = 256" for key sig
    using length_mgf1 [of sample_hash]
    by (simp add: sample_rsa_def emsa_pss_encode_def clear_top_def length_xor_bytes sample_hash_def Let_def)
  then show ?thesis by (simp add: crypto_sound_def sample_chain_crypto_def) (simp add: sample_hash_def)
qed

lemma sample_chain_reliable: "crypto_reliable sample_chain_crypto \<and> alloc_reliable sample_chain_crypto"
  by (simp add: crypto_reliable_def alloc_reliable_def sample_chain_crypto_def sample_crypto_def)

text \<open>The six items of the certificate, identifier and value.\<close>

lemma sample_items:
  "filter odd [7..<length (cert_body sample_parsed)] = [7, 9, 11, 13, 15, 17]"
  "map (\<lambda>i. take 9 (fld_data (cert_body sample_parsed ! i))) [7, 9, 11, 13, 15, 17] =
     [item_oid 1 2, item_oid 2 6, item_oid 2 8, item_oid 4 2, item_oid 2 4, item_oid 2 1]"
  "map (\<lambda>i. fld_size (cert_body sample_parsed ! i)) [7, 9, 11, 13, 15, 17] = [9, 9, 9, 9, 9, 9]"
  "map (\<lambda>i. cert_body sample_parsed ! i) [8, 10, 12, 14, 16, 18] = map (field_at sample_tbs)
     [(336, 4, 0x30, 290), (637, 2, 3, 2), (650, 2, 3, 2), (663, 2, 3, 2), (676, 2, 3, 33), (720, 2, 3, 33)]"
proof -
  have n: "length (cert_body sample_parsed) = 19" by (simp add: sample_parsed_def sample_walker_def)
  show "filter odd [7..<length (cert_body sample_parsed)] = [7, 9, 11, 13, 15, 17]" unfolding n by (simp add: upt_rec)
  have body: "cert_body sample_parsed = map (field_at sample_tbs) (fst (sample_walker sample_tbs))" by (simp add: sample_parsed_def)
  show "map (\<lambda>i. fld_size (cert_body sample_parsed ! i)) [7, 9, 11, 13, 15, 17] = [9, 9, 9, 9, 9, 9]"
    "map (\<lambda>i. cert_body sample_parsed ! i) [8, 10, 12, 14, 16, 18] = map (field_at sample_tbs)
     [(336, 4, 0x30, 290), (637, 2, 3, 2), (650, 2, 3, 2), (663, 2, 3, 2), (676, 2, 3, 33), (720, 2, 3, 33)]"
    by (simp_all add: body sample_walker_def) (simp_all add: field_at_def)
  show "map (\<lambda>i. take 9 (fld_data (cert_body sample_parsed ! i))) [7, 9, 11, 13, 15, 17] =
     [item_oid 1 2, item_oid 2 6, item_oid 2 8, item_oid 4 2, item_oid 2 4, item_oid 2 1]"
    by (simp add: body sample_walker_def) (simp add: field_at_def sample_tbs_def)
qed

lemma sample_metadata:
  "md_metadata sample_parsed 1 2 = Some (field_at sample_tbs (336, 4, 0x30, 290))"
  "md_metadata sample_parsed 2 6 = Some (field_at sample_tbs (637, 2, 3, 2))"
  "md_metadata sample_parsed 2 8 = Some (field_at sample_tbs (650, 2, 3, 2))"
  "md_metadata sample_parsed 4 2 = Some (field_at sample_tbs (663, 2, 3, 2))"
  "md_metadata sample_parsed 2 4 = Some (field_at sample_tbs (676, 2, 3, 33))"
  "md_metadata sample_parsed 2 1 = Some (field_at sample_tbs (720, 2, 3, 33))"
proof -
  have md: "md_metadata sample_parsed grp item =
      (case find (\<lambda>i. fld_size (cert_body sample_parsed ! i) = 9 \<and>
                take 9 (fld_data (cert_body sample_parsed ! i)) = item_oid grp item) [7, 9, 11, 13, 15, 17] of
         None \<Rightarrow> None | Some i \<Rightarrow> Some (cert_body sample_parsed ! (i + 1)))" for grp item
    unfolding md_metadata_def Let_def item_oid_def [symmetric] sample_lengths(4) md_field_bytes_def sample_items(1) by simp
  have oid: "item_oid grp item = item_oid grp' item' \<longleftrightarrow> grp = grp' \<and> item = item'" for grp item grp' item'
    by (simp add: item_oid_def)
  note items = sample_items(2-4) [unfolded list.map list.inject]
  show "md_metadata sample_parsed 1 2 = Some (field_at sample_tbs (336, 4, 0x30, 290))"
    "md_metadata sample_parsed 2 6 = Some (field_at sample_tbs (637, 2, 3, 2))"
    "md_metadata sample_parsed 2 8 = Some (field_at sample_tbs (650, 2, 3, 2))"
    "md_metadata sample_parsed 4 2 = Some (field_at sample_tbs (663, 2, 3, 2))"
    "md_metadata sample_parsed 2 4 = Some (field_at sample_tbs (676, 2, 3, 33))"
    "md_metadata sample_parsed 2 1 = Some (field_at sample_tbs (720, 2, 3, 33))"
    unfolding md using items by (simp_all add: oid)
qed

lemma sample_attested: "attests sample_hash sample_parsed header \<lparr> header_sha256 = md_mtk_root_pin, payload_sha256 = md_mtk_root_pin \<rparr>"
proof -
  have zero: "list_all (md_zero_item sample_parsed) zero_items"
    by (simp add: zero_items_def md_zero_item_def sample_metadata md_field_bytes_def field_at_def) (simp add: sample_tbs_def)
  have att: "md_attested sample_parsed 2 4 = Some md_mtk_root_pin" "md_attested sample_parsed 2 1 = Some md_mtk_root_pin"
    by (simp_all add: md_attested_def sample_metadata field_at_def md_bits_def) (simp_all add: sample_tbs_def nth_append)
  show ?thesis using zero att by (simp add: attests_def sample_hash_def)
qed

lemma sample_accepted:
  "chain_accepted sample_walker sample_hash sample_rsa md_mtk_root_pin sample_cert 1085 sample_cert 1085 header 512
    \<lparr> header_sha256 = md_mtk_root_pin, payload_sha256 = md_mtk_root_pin \<rparr>"
proof -
  have del: "delegated sample_parsed sample_parsed"
    by (simp add: delegated_def sample_metadata md_field_equal_def md_field_bytes_def)
       (simp add: field_at_def sample_parsed_def sample_tbs_def)
  have signed: "signed_by_own_key sample_hash sample_rsa sample_parsed"
    using emsa_pss_roundtrip [of sample_hash "zeroed 32" md_mtk_root_pin]
    by (simp add: signed_by_own_key_def Let_def sample_hash_def sample_rsa_def)
       (simp add: sample_parsed_def key_admitted_def sample_key_def key_prefix_def nth_append sample_modulus_def)
  show ?thesis
    using del signed sample_attested
    by (simp add: chain_accepted_def sizes_admitted_def md_parse_certs_def parse_ok chain_signed_def sample_hash_def)
qed

theorem cert_chain_authentic_witness:
  "fst (fst (mt6878_md_mtk_verify_header sample_chain_crypto sample_walker (At 0 sample_cert) 1085 (At 0 sample_cert) 1085
     (At 0 (zeroed 512)) 512 (At 0 \<lparr> header_sha256 = [], payload_sha256 = [] \<rparr>) ((), []))) = 0"
  using cert_chain_authentic [OF sample_chain_sound, of sample_walker 0 sample_cert 1085 0 sample_cert 1085 0 "zeroed 512" 512 0 "\<lparr> header_sha256 = [], payload_sha256 = [] \<rparr>" "((), [])"]
    sample_accepted [of "zeroed 512"] sample_chain_reliable
  by (auto simp: Let_def case_prod_unfold)

end
