(* ===== verification/Scripts.thy ===== *)
theory Scripts
  imports Tetris_Prelude "HOL-Library.Sublist"
begin

text \<open>
  Sequences of fallible hardware steps. The drivers run chains of the form
  \<^verbatim>\<open>if (!ret) ret = step(...)\<close>; \<open>chain\<close> is that idiom. What the hardware sees is a trace of
  events in the state, and a step is described by the set of event words it produces when it
  succeeds; a step that fails has produced a prefix of one of them.
\<close>

section \<open>Chains\<close>

type_synonym 's action = "'s \<Rightarrow> int \<times> 's"

fun chain :: "'s action list \<Rightarrow> 's action" where
  "chain [] s = (0, s)"
| "chain (a # as) s = (case a s of (ret, t) \<Rightarrow> if ret \<noteq> 0 then (ret, t) else chain as t)"

lemma chain_append: "chain (xs @ ys) s = (case chain xs s of (ret, t) \<Rightarrow> if ret \<noteq> 0 then (ret, t) else chain ys t)"
  by (induction xs arbitrary: s) (auto split: prod.split)

section \<open>Event words\<close>

definition conc :: "'e list set \<Rightarrow> 'e list set \<Rightarrow> 'e list set" where
  "conc A B = {u @ v |u v. u \<in> A \<and> v \<in> B}"

fun concs :: "'e list set list \<Rightarrow> 'e list set" where
  "concs [] = {[]}"
| "concs (A # As) = conc A (concs As)"

definition partly :: "'e list set \<Rightarrow> 'e list \<Rightarrow> bool" where
  "partly A u \<longleftrightarrow> (\<exists>w \<in> A. prefix u w)"

lemma partlyI: "w \<in> A \<Longrightarrow> prefix u w \<Longrightarrow> partly A u"
  by (auto simp: partly_def)

lemma partly_self: "u \<in> A \<Longrightarrow> partly A u"
  by (rule partlyI [OF _ prefix_order.order_refl])

lemma partly_Nil: "A \<noteq> {} \<Longrightarrow> partly A []"
  by (auto simp: partly_def)

lemma concI: "u \<in> A \<Longrightarrow> v \<in> B \<Longrightarrow> u @ v \<in> conc A B"
  by (auto simp: conc_def)

lemma partly_conc_left: "partly A u \<Longrightarrow> B \<noteq> {} \<Longrightarrow> partly (conc A B) u"
proof -
  assume "partly A u" and "B \<noteq> {}"
  then obtain w v where "w \<in> A" "prefix u w" "v \<in> B" by (auto simp: partly_def)
  then show ?thesis by (intro partlyI [OF concI [of w A v B]]) simp_all
qed

lemma partly_conc_right: "u \<in> A \<Longrightarrow> partly B v \<Longrightarrow> partly (conc A B) (u @ v)"
proof -
  assume u: "u \<in> A" and "partly B v"
  then obtain w where "w \<in> B" "prefix v w" by (auto simp: partly_def)
  then show ?thesis by (intro partlyI [OF concI [OF u]]) simp_all
qed

lemma conc_nonempty: "A \<noteq> {} \<Longrightarrow> B \<noteq> {} \<Longrightarrow> conc A B \<noteq> {}"
  by (auto simp: conc_def)

lemma concs_nonempty: "list_all (\<lambda>A. A \<noteq> {}) As \<Longrightarrow> concs As \<noteq> {}"
  by (induction As) (simp_all add: conc_nonempty)

section \<open>Steps that follow a set of words\<close>

text \<open>
  \<open>follows tr ok A act\<close>: from every state with the invariant the step keeps it, appends to the
  trace a prefix of a word of \<open>A\<close>, and a whole word when it returns 0.
\<close>

definition follows :: "('s \<Rightarrow> 'e list) \<Rightarrow> ('s \<Rightarrow> bool) \<Rightarrow> 'e list set \<Rightarrow> 's action \<Rightarrow> bool" where
  "follows tr ok A act \<longleftrightarrow> A \<noteq> {} \<and> (\<forall>s. ok s \<longrightarrow> (case act s of (ret, t) \<Rightarrow>
     ok t \<and> (\<exists>u. tr t = tr s @ u \<and> partly A u \<and> (ret = 0 \<longrightarrow> u \<in> A))))"

lemma followsI:
  assumes "A \<noteq> {}"
    and "\<And>s ret t. ok s \<Longrightarrow> act s = (ret, t) \<Longrightarrow> ok t \<and> (\<exists>u. tr t = tr s @ u \<and> partly A u \<and> (ret = 0 \<longrightarrow> u \<in> A))"
  shows "follows tr ok A act"
  using assms unfolding follows_def by (auto split: prod.split)

lemma followsD:
  assumes "follows tr ok A act" and "ok s" and "act s = (ret, t)"
  shows "ok t" and "\<exists>u. tr t = tr s @ u \<and> partly A u \<and> (ret = 0 \<longrightarrow> u \<in> A)"
  using assms unfolding follows_def by (auto split: prod.splits)

lemma follows_nonempty: "follows tr ok A act \<Longrightarrow> A \<noteq> {}"
  by (simp add: follows_def)

lemma follows_seq:
  assumes "follows tr ok A a" and "follows tr ok B b"
  shows "follows tr ok (conc A B) (\<lambda>s. case a s of (ret, t) \<Rightarrow> if ret \<noteq> 0 then (ret, t) else b t)"
proof (rule followsI)
  show "conc A B \<noteq> {}" using assms by (simp add: follows_nonempty conc_nonempty)
next
  fix s ret t
  assume ok: "ok s" and run: "(case a s of (ret, t) \<Rightarrow> if ret \<noteq> 0 then (ret, t) else b t) = (ret, t)"
  obtain r m where a: "a s = (r, m)" by fastforce
  from followsD [OF assms(1) ok a] obtain u where u: "ok m" "tr m = tr s @ u" "partly A u" "r = 0 \<longrightarrow> u \<in> A" by auto
  show "ok t \<and> (\<exists>u. tr t = tr s @ u \<and> partly (conc A B) u \<and> (ret = 0 \<longrightarrow> u \<in> conc A B))"
  proof (cases "r = 0")
    case True
    then have b: "b m = (ret, t)" using run a by simp
    from followsD [OF assms(2) u(1) b] obtain v where "ok t" "tr t = tr m @ v" "partly B v" "ret = 0 \<longrightarrow> v \<in> B" by auto
    then show ?thesis using u True by (auto simp: partly_conc_right concI intro!: exI [of _ "u @ v"])
  next
    case False
    then have "ret \<noteq> 0" "t = m" using run a by auto
    then show ?thesis using u partly_conc_left [OF u(3) follows_nonempty [OF assms(2)]] by auto
  qed
qed

lemma follows_chain:
  assumes "list_all2 (follows tr ok) As acts"
  shows "follows tr ok (concs As) (chain acts)"
  using assms
proof (induction rule: list_all2_induct)
  case Nil
  show ?case by (rule followsI) (auto simp: partly_self)
next
  case (Cons A As act acts)
  have "chain (act # acts) = (\<lambda>s. case act s of (ret, t) \<Rightarrow> if ret \<noteq> 0 then (ret, t) else chain acts t)"
    by (simp add: fun_eq_iff)
  then show ?case using follows_seq [OF Cons(1) Cons(3)] by simp
qed

lemma follows_one:
  assumes "\<And>s ret t. ok s \<Longrightarrow> act s = (ret, t) \<Longrightarrow> ok t \<and> (tr t = tr s @ [e] \<or> ret \<noteq> 0 \<and> tr t = tr s)"
  shows "follows tr ok {[e]} act"
proof (rule followsI)
  fix s ret t
  assume "ok s" "act s = (ret, t)"
  from assms [OF this] show "ok t \<and> (\<exists>u. tr t = tr s @ u \<and> partly {[e]} u \<and> (ret = 0 \<longrightarrow> u \<in> {[e]}))"
    by (auto simp: partly_self partly_Nil)
qed simp

end
