(* ===== verification/Seninf_Mux.thy ===== *)
theory Seninf_Mux
  imports Scripts
begin

text \<open>
  The sensor interface backend of \<^verbatim>\<open>patches/camera-seninf/mt6878-seninf-mux.h\<close>: analog power on,
  multiplexer configuration and receiver shutdown as one-shot transactions over fallible register
  callbacks. The callbacks act on an arbitrary world and every access is recorded; the theorem
  describes what the hardware can see over any sequence of calls.
\<close>

unbundle bit_operations_syntax

section \<open>Data\<close>

datatype mt6878_seninf_region = MT6878_SENINF_BASE | MT6878_SENINF_ANALOG
datatype mt6878_seninf_action = MT6878_ANALOG_ON | MT6878_MUX_SETUP | MT6878_RECEIVER_OFF

record mt6878_seninf_plan =
  plan_port :: u32
  plan_intf :: u32
  plan_mux :: u32
  plan_group :: u32
  plan_pixel_mode :: u32

record 'w mt6878_seninf_backend =
  si_check :: "(mt6878_seninf_action \<Rightarrow> mt6878_seninf_plan \<Rightarrow> 'w \<Rightarrow> int \<times> 'w) option"
  si_read :: "(mt6878_seninf_region \<Rightarrow> u32 \<Rightarrow> 'w \<Rightarrow> (int \<times> u32) \<times> 'w) option"
  si_write :: "(mt6878_seninf_region \<Rightarrow> u32 \<Rightarrow> u32 \<Rightarrow> 'w \<Rightarrow> int \<times> 'w) option"
  si_delay_us :: "(u32 \<Rightarrow> 'w \<Rightarrow> int \<times> 'w) option"
  si_base_size :: u64
  si_analog_size :: u64

record mt6878_seninf_transaction =
  si_analog_attempted :: u32
  si_mux_attempted :: u32
  si_off_attempted :: u32
  si_step :: u32
  si_first_error :: int
  si_plan_bound :: u32
  si_plan :: mt6878_seninf_plan

datatype si_event =
  Si_check mt6878_seninf_action | Si_read mt6878_seninf_region u32 u32 |
  Si_write mt6878_seninf_region u32 u32 | Si_delay u32

type_synonym 'w si_state = "mt6878_seninf_transaction \<times> 'w \<times> si_event list"

section \<open>Helpers\<close>

definition mt6878_seninf_error :: "mt6878_seninf_transaction \<Rightarrow> int \<Rightarrow> int \<times> mt6878_seninf_transaction" where
  "mt6878_seninf_error tx ret =
    (ret, if ret \<noteq> 0 \<and> si_first_error tx = 0 then tx\<lparr> si_first_error := ret \<rparr> else tx)"

definition mt6878_seninf_bind_plan ::
  "mt6878_seninf_transaction \<Rightarrow> mt6878_seninf_plan \<Rightarrow> int \<times> mt6878_seninf_transaction" where
  "mt6878_seninf_bind_plan tx plan =
    (if si_plan_bound tx \<noteq> 0 \<and>
        (plan_port (si_plan tx) \<noteq> plan_port plan \<or> plan_intf (si_plan tx) \<noteq> plan_intf plan \<or>
         plan_mux (si_plan tx) \<noteq> plan_mux plan \<or> plan_group (si_plan tx) \<noteq> plan_group plan \<or>
         plan_pixel_mode (si_plan tx) \<noteq> plan_pixel_mode plan)
     then (- EINVAL, tx)
     else (0, tx\<lparr> si_plan := plan, si_plan_bound := 1 \<rparr>))"

definition mt6878_seninf_validate_backend ::
  "'w mt6878_seninf_backend ptr \<Rightarrow> mt6878_seninf_plan ptr \<Rightarrow> int" where
  "mt6878_seninf_validate_backend io plan =
    (if io = Null \<or> plan = Null \<or> si_check (contents io) = None \<or> si_read (contents io) = None \<or>
        si_write (contents io) = None \<or> si_delay_us (contents io) = None \<or>
        si_base_size (contents io) < 0x18000 \<or> si_analog_size (contents io) < 0x30000 \<or>
        plan_port (contents plan) > 1 \<or> plan_intf (contents plan) \<ge> 12 \<or> plan_mux (contents plan) \<ge> 13 \<or>
        plan_group (contents plan) > 3 \<or> plan_pixel_mode (contents plan) > 7
     then - EINVAL else 0)"

section \<open>Calls of the backend\<close>

definition do_check :: "'w mt6878_seninf_backend \<Rightarrow> mt6878_seninf_action \<Rightarrow> mt6878_seninf_plan \<Rightarrow> 'w si_state action" where
  "do_check io a plan s = (case s of (tx, w, tr) \<Rightarrow>
     (case the (si_check io) a plan w of (ret, w) \<Rightarrow> (ret, (tx, w, tr @ [Si_check a]))))"

definition do_read :: "'w mt6878_seninf_backend \<Rightarrow> mt6878_seninf_region \<Rightarrow> u32 \<Rightarrow> 'w si_state \<Rightarrow> (int \<times> u32) \<times> 'w si_state" where
  "do_read io region offset s = (case s of (tx, w, tr) \<Rightarrow>
     (case the (si_read io) region offset w of ((ret, v), w) \<Rightarrow> ((ret, v), (tx, w, tr @ [Si_read region offset v]))))"

definition do_write :: "'w mt6878_seninf_backend \<Rightarrow> mt6878_seninf_region \<Rightarrow> u32 \<Rightarrow> u32 \<Rightarrow> 'w si_state action" where
  "do_write io region offset v s = (case s of (tx, w, tr) \<Rightarrow>
     (case the (si_write io) region offset v w of (ret, w) \<Rightarrow> (ret, (tx, w, tr @ [Si_write region offset v]))))"

definition do_delay :: "'w mt6878_seninf_backend \<Rightarrow> u32 \<Rightarrow> 'w si_state action" where
  "do_delay io us s = (case s of (tx, w, tr) \<Rightarrow>
     (case the (si_delay_us io) us w of (ret, w) \<Rightarrow> (ret, (tx, w, tr @ [Si_delay us]))))"

text \<open>\<^verbatim>\<open>return mt6878_seninf_error(tx, ret)\<close> and \<^verbatim>\<open>tx->step++\<close> on a state.\<close>

definition latched :: "'w si_state action \<Rightarrow> 'w si_state action" where
  "latched act s = (case act s of (ret, (tx, d)) \<Rightarrow>
     (case mt6878_seninf_error tx ret of (ret, tx) \<Rightarrow> (ret, (tx, d))))"

definition stepped :: "'w si_state \<Rightarrow> 'w si_state" where
  "stepped s = (case s of (tx, d) \<Rightarrow> (tx\<lparr> si_step := si_step tx + 1 \<rparr>, d))"

definition region_size :: "'w mt6878_seninf_backend \<Rightarrow> mt6878_seninf_region \<Rightarrow> u64" where
  "region_size io region = (if region = MT6878_SENINF_BASE then si_base_size io else si_analog_size io)"

definition mt6878_seninf_update ::
  "'w mt6878_seninf_backend \<Rightarrow> mt6878_seninf_region \<Rightarrow> u32 \<Rightarrow> u32 \<Rightarrow> u32 \<Rightarrow> 'w si_state action" where
  "mt6878_seninf_update io region offset bits v = latched (\<lambda>s.
    if offset AND 3 \<noteq> 0 \<or> region_size io region < 4 \<or> ucast offset > region_size io region - 4 \<or>
       v AND NOT bits \<noteq> 0 then (- EINVAL, s)
    else case do_read io region offset (stepped s) of ((ret, old), s) \<Rightarrow>
      if ret \<noteq> 0 then (ret, s)
      else do_write io region offset ((old AND NOT bits) OR v) s)"

definition mt6878_seninf_delay :: "'w mt6878_seninf_backend \<Rightarrow> u32 \<Rightarrow> 'w si_state action" where
  "mt6878_seninf_delay io us = latched (\<lambda>s. do_delay io us (stepped s))"

section \<open>Operations\<close>

definition lane_bits :: "'w mt6878_seninf_backend \<Rightarrow> u32 \<Rightarrow> bool \<Rightarrow> 'w si_state action list" where
  "lane_bits io offset on = map (\<lambda>b. mt6878_seninf_update io MT6878_SENINF_ANALOG (offset + 0x20)
     (push_bit b 1) (if on then push_bit b 1 else 0)) [16..<22]"

definition mt6878_seninf_analog_half :: "'w mt6878_seninf_backend \<Rightarrow> u32 \<Rightarrow> bool \<Rightarrow> 'w si_state action" where
  "mt6878_seninf_analog_half io offset enable = chain
    (lane_bits io offset False @
     [mt6878_seninf_update io MT6878_SENINF_ANALOG offset 2 0,
      mt6878_seninf_update io MT6878_SENINF_ANALOG offset 1 0,
      mt6878_seninf_delay io 200] @
     (if \<not> enable then []
      else [mt6878_seninf_update io MT6878_SENINF_ANALOG offset 1 1,
            mt6878_seninf_delay io 30,
            mt6878_seninf_update io MT6878_SENINF_ANALOG offset 2 2,
            mt6878_seninf_delay io 1] @
           lane_bits io offset True @
           [mt6878_seninf_delay io 1]))"

text \<open>The common entry of the three operations: validation, then the binding of the plan.\<close>

definition entry :: "'w mt6878_seninf_backend ptr \<Rightarrow> mt6878_seninf_plan ptr \<Rightarrow>
    mt6878_seninf_transaction \<Rightarrow> int \<times> mt6878_seninf_transaction" where
  "entry io plan tx =
    (let ret = mt6878_seninf_validate_backend io plan in
     if ret \<noteq> 0 then (ret, tx) else mt6878_seninf_bind_plan tx (contents plan))"

definition mt6878_seninf_analog_on ::
  "'w mt6878_seninf_backend ptr \<Rightarrow> mt6878_seninf_plan ptr \<Rightarrow> 'w si_state action" where
  "mt6878_seninf_analog_on io plan s = (case s of (tx, d) \<Rightarrow>
     if si_analog_attempted tx \<noteq> 0 \<or> si_off_attempted tx \<noteq> 0 \<or> si_first_error tx \<noteq> 0 then (- EBUSY, s)
     else case entry io plan tx of (ret, tx) \<Rightarrow>
     if ret \<noteq> 0 then (ret, (tx, d))
     else let io = contents io; plan = contents plan in
       latched (chain [do_check io MT6878_ANALOG_ON plan,
                       mt6878_seninf_analog_half io (plan_port plan * 0x8000) True,
                       mt6878_seninf_analog_half io (plan_port plan * 0x8000 + 0x1000) True])
         (tx\<lparr> si_analog_attempted := 1 \<rparr>, d))"

definition mux_base :: "mt6878_seninf_plan \<Rightarrow> u32" where
  "mux_base plan = 0x0d00 + 0x1000 * plan_mux plan"

definition mux_fields :: "'w mt6878_seninf_backend \<Rightarrow> mt6878_seninf_plan \<Rightarrow> 'w si_state action" where
  "mux_fields io plan = chain
    [mt6878_seninf_update io MT6878_SENINF_BASE (mux_base plan) 1 1,
     mt6878_seninf_update io MT6878_SENINF_BASE (mux_base plan + 4) 0xf (8 + plan_group plan),
     mt6878_seninf_update io MT6878_SENINF_BASE (mux_base plan + 4) 0x700 (push_bit 8 (plan_pixel_mode plan)),
     mt6878_seninf_update io MT6878_SENINF_BASE (mux_base plan + 8) 8 8,
     mt6878_seninf_update io MT6878_SENINF_BASE (mux_base plan + 8) 0x10000 0,
     mt6878_seninf_update io MT6878_SENINF_BASE (mux_base plan + 8) 0x20000 0]"

definition mux_reset :: "'w mt6878_seninf_backend \<Rightarrow> mt6878_seninf_plan \<Rightarrow> 'w si_state action" where
  "mux_reset io plan = latched (\<lambda>s.
     case do_read io MT6878_SENINF_BASE (mux_base plan) (stepped s) of ((ret, old), s) \<Rightarrow>
     if ret \<noteq> 0 then (ret, s)
     else chain [do_write io MT6878_SENINF_BASE (mux_base plan) (old OR 6),
                 do_write io MT6878_SENINF_BASE (mux_base plan) (old AND NOT 6)] s)"

definition mux_select :: "'w mt6878_seninf_backend \<Rightarrow> mt6878_seninf_plan \<Rightarrow> 'w si_state action" where
  "mux_select io plan =
    (let shift = unat ((plan_mux plan mod 4) * 8)
     in mt6878_seninf_update io MT6878_SENINF_BASE (0x10 + (plan_mux plan div 4) * 4)
          (push_bit shift 0x1f) (push_bit shift (plan_intf plan)))"

definition mt6878_seninf_mux_setup ::
  "'w mt6878_seninf_backend ptr \<Rightarrow> mt6878_seninf_plan ptr \<Rightarrow> 'w si_state action" where
  "mt6878_seninf_mux_setup io plan s = (case s of (tx, d) \<Rightarrow>
     if si_mux_attempted tx \<noteq> 0 \<or> si_off_attempted tx \<noteq> 0 \<or> si_first_error tx \<noteq> 0 then (- EBUSY, s)
     else case entry io plan tx of (ret, tx) \<Rightarrow>
     if ret \<noteq> 0 then (ret, (tx, d))
     else let io = contents io; plan = contents plan in
       chain [latched (do_check io MT6878_MUX_SETUP plan), mux_fields io plan, mux_reset io plan, mux_select io plan]
         (tx\<lparr> si_mux_attempted := 1 \<rparr>, d))"

definition mt6878_seninf_receiver_off ::
  "'w mt6878_seninf_backend ptr \<Rightarrow> mt6878_seninf_plan ptr \<Rightarrow> 'w si_state action" where
  "mt6878_seninf_receiver_off io plan s = (case s of (tx, d) \<Rightarrow>
     if si_off_attempted tx \<noteq> 0 then (- EBUSY, s)
     else case entry io plan tx of (ret, tx) \<Rightarrow>
     if ret \<noteq> 0 then (ret, (tx, d))
     else let io = contents io; plan = contents plan in
       latched (chain [do_check io MT6878_RECEIVER_OFF plan,
                       mt6878_seninf_update io MT6878_SENINF_BASE (mux_base plan) 1 0,
                       (\<lambda>s. do_write io MT6878_SENINF_BASE (0x0a00 + 0x1000 * plan_intf plan) 0 (stepped s)),
                       mt6878_seninf_analog_half io (plan_port plan * 0x8000) False,
                       mt6878_seninf_analog_half io (plan_port plan * 0x8000 + 0x1000) False])
         (tx\<lparr> si_off_attempted := 1 \<rparr>, d))"

section \<open>Event words\<close>

abbreviation si_trace :: "'w si_state \<Rightarrow> si_event list" where
  "si_trace s \<equiv> snd (snd s)"

text \<open>The steps of an operation change only the first error, once, and the step counter.\<close>

definition si_steady :: "mt6878_seninf_transaction \<Rightarrow> 'w si_state \<Rightarrow> bool" where
  "si_steady tx s \<longleftrightarrow> (fst s)\<lparr> si_first_error := 0, si_step := 0 \<rparr> = tx\<lparr> si_first_error := 0, si_step := 0 \<rparr> \<and>
     (si_first_error tx \<noteq> 0 \<longrightarrow> si_first_error (fst s) = si_first_error tx)"

definition latches :: "'w si_state action \<Rightarrow> bool" where
  "latches act \<longleftrightarrow> (\<forall>s ret t. act s = (ret, t) \<longrightarrow> ret \<noteq> 0 \<longrightarrow> si_first_error (fst t) \<noteq> 0)"

definition si_update_words :: "mt6878_seninf_region \<Rightarrow> u32 \<Rightarrow> u32 \<Rightarrow> u32 \<Rightarrow> si_event list set" where
  "si_update_words region offset bits v =
     {[Si_read region offset x, Si_write region offset ((x AND NOT bits) OR v)] |x. True}"

lemma latchesD: "latches act \<Longrightarrow> act s = (ret, t) \<Longrightarrow> ret \<noteq> 0 \<Longrightarrow> si_first_error (fst t) \<noteq> 0"
  unfolding latches_def by blast

lemma latches_latched [simp]: "latches (latched act)"
  by (auto simp: latches_def latched_def mt6878_seninf_error_def split: prod.splits if_splits)

lemma latches_update [simp]: "latches (mt6878_seninf_update io region offset bits v)" "latches (mt6878_seninf_delay io us)"
  by (simp_all add: mt6878_seninf_update_def mt6878_seninf_delay_def)

lemma latches_chain: "list_all latches acts \<Longrightarrow> latches (chain acts)"
proof (induction acts)
  case (Cons a acts)
  then have a: "latches a" "latches (chain acts)" by simp_all
  show ?case
    unfolding latches_def
  proof (intro allI impI)
    fix s ret t
    assume run: "chain (a # acts) s = (ret, t)" and nz: "ret \<noteq> 0"
    obtain r m where "a s = (r, m)" by (metis prod.exhaust)
    then show "si_first_error (fst t) \<noteq> 0"
      using run nz latchesD [OF a(1)] latchesD [OF a(2)] by (cases "r = 0") auto
  qed
qed (simp add: latches_def)

lemma follows_latched:
  assumes "follows si_trace (si_steady tx) A act"
  shows "follows si_trace (si_steady tx) A (latched act)"
proof (rule followsI [OF follows_nonempty [OF assms]])
  fix s ret t
  assume ok: "si_steady tx s" and run: "latched act s = (ret, t)"
  obtain r m where c: "act s = (r, m)" by (metis prod.exhaust)
  have "ret = r" "snd t = snd m" "si_steady tx m \<Longrightarrow> si_steady tx t"
    using run c by (auto simp: latched_def mt6878_seninf_error_def si_steady_def split: prod.splits if_splits)
  then show "si_steady tx t \<and> (\<exists>u. si_trace t = si_trace s @ u \<and> partly A u \<and> (ret = 0 \<longrightarrow> u \<in> A))"
    using followsD [OF assms ok c] by simp
qed

lemma follows_stepped:
  assumes "follows si_trace (si_steady tx) A act"
  shows "follows si_trace (si_steady tx) A (\<lambda>s. act (stepped s))"
proof (rule followsI [OF follows_nonempty [OF assms]])
  fix s ret t
  assume ok: "si_steady tx s" and run: "act (stepped s) = (ret, t)"
  have "si_steady tx (stepped s)" "si_trace (stepped s) = si_trace s"
    using ok by (auto simp: si_steady_def stepped_def split: prod.splits)
  then show "si_steady tx t \<and> (\<exists>u. si_trace t = si_trace s @ u \<and> partly A u \<and> (ret = 0 \<longrightarrow> u \<in> A))"
    using followsD [OF assms _ run] by simp
qed

lemma follows_do:
  "follows si_trace (si_steady tx) {[Si_check a]} (do_check io a plan)"
  "follows si_trace (si_steady tx) {[Si_write region offset v]} (do_write io region offset v)"
  "follows si_trace (si_steady tx) {[Si_delay us]} (do_delay io us)"
  by (rule follows_one, auto simp: do_check_def do_write_def do_delay_def si_steady_def split: prod.splits)+

text \<open>A read followed by a step that may depend on the value.\<close>

lemma follows_read_then:
  assumes "\<And>x. follows si_trace (si_steady tx) (A x) (k x)"
  shows "follows si_trace (si_steady tx) {Si_read region offset x # u |x u. u \<in> A x}
    (\<lambda>s. case do_read io region offset s of ((ret, x), s) \<Rightarrow> if ret \<noteq> 0 then (ret, s) else k x s)" (is "follows _ _ ?B _")
proof (rule followsI)
  show "?B \<noteq> {}" using follows_nonempty [OF assms] by fastforce
next
  fix s ret t
  assume ok: "si_steady tx s"
    and run: "(case do_read io region offset s of ((ret, x), s) \<Rightarrow> if ret \<noteq> 0 then (ret, s) else k x s) = (ret, t)"
  obtain r x m where c: "do_read io region offset s = ((r, x), m)" by (metis prod.exhaust)
  have m: "si_steady tx m" "si_trace m = si_trace s @ [Si_read region offset x]"
    using ok c by (auto simp: do_read_def si_steady_def split: prod.splits)
  obtain w where w: "w \<in> A x" using follows_nonempty [OF assms] by blast
  show "si_steady tx t \<and> (\<exists>u. si_trace t = si_trace s @ u \<and> partly ?B u \<and> (ret = 0 \<longrightarrow> u \<in> ?B))"
  proof (cases "r = 0")
    case True
    then have "k x m = (ret, t)" using run c by simp
    from followsD [OF assms m(1) this] obtain u where u: "si_steady tx t" "si_trace t = si_trace m @ u"
        "partly (A x) u" "ret = 0 \<longrightarrow> u \<in> A x" by auto
    then obtain v where "v \<in> A x" "prefix u v" by (auto simp: partly_def)
    then have "partly ?B (Si_read region offset x # u)"
      by (intro partlyI [of "Si_read region offset x # v"]) auto
    then show ?thesis using u m by (intro conjI exI [of _ "Si_read region offset x # u"]) auto
  next
    case False
    have "partly ?B [Si_read region offset x]"
      using w by (intro partlyI [of "Si_read region offset x # w"]) auto
    then show ?thesis using False run c m by auto
  qed
qed

lemma follows_guard:
  assumes "follows si_trace (si_steady tx) A act"
  shows "follows si_trace (si_steady tx) A (\<lambda>s. if bad then (- EINVAL, s) else act s)"
  using assms partly_Nil [OF follows_nonempty [OF assms]] by (cases bad) (auto simp: follows_def)

lemma follows_si_update:
  "follows si_trace (si_steady tx) (si_update_words region offset bits v) (mt6878_seninf_update io region offset bits v)"
proof -
  have words: "si_update_words region offset bits v =
      {Si_read region offset x # u |x u. u \<in> {[Si_write region offset ((x AND NOT bits) OR v)]}}"
    by (auto simp: si_update_words_def)
  show ?thesis
    unfolding mt6878_seninf_update_def words
    by (intro follows_latched follows_guard)
      (rule follows_stepped [OF follows_read_then [OF follows_do(2)]])
qed

lemma follows_si_delay: "follows si_trace (si_steady tx) {[Si_delay us]} (mt6878_seninf_delay io us)"
  unfolding mt6878_seninf_delay_def by (intro follows_latched follows_stepped follows_do)

lemmas follows_si = follows_do follows_si_update follows_si_delay

section \<open>The scripts of the three operations\<close>

definition lane_words :: "u32 \<Rightarrow> bool \<Rightarrow> si_event list set list" where
  "lane_words offset on = map (\<lambda>b. si_update_words MT6878_SENINF_ANALOG (offset + 0x20)
     (push_bit b 1) (if on then push_bit b 1 else 0)) [16..<22]"

definition half_words :: "u32 \<Rightarrow> bool \<Rightarrow> si_event list set" where
  "half_words offset enable = concs
    (lane_words offset False @
     [si_update_words MT6878_SENINF_ANALOG offset 2 0, si_update_words MT6878_SENINF_ANALOG offset 1 0, {[Si_delay 200]}] @
     (if \<not> enable then []
      else [si_update_words MT6878_SENINF_ANALOG offset 1 1, {[Si_delay 30]},
            si_update_words MT6878_SENINF_ANALOG offset 2 2, {[Si_delay 1]}] @
           lane_words offset True @ [{[Si_delay 1]}]))"

definition field_words :: "mt6878_seninf_plan \<Rightarrow> si_event list set" where
  "field_words plan = concs
    [si_update_words MT6878_SENINF_BASE (mux_base plan) 1 1,
     si_update_words MT6878_SENINF_BASE (mux_base plan + 4) 0xf (8 + plan_group plan),
     si_update_words MT6878_SENINF_BASE (mux_base plan + 4) 0x700 (push_bit 8 (plan_pixel_mode plan)),
     si_update_words MT6878_SENINF_BASE (mux_base plan + 8) 8 8,
     si_update_words MT6878_SENINF_BASE (mux_base plan + 8) 0x10000 0,
     si_update_words MT6878_SENINF_BASE (mux_base plan + 8) 0x20000 0]"

definition reset_words :: "mt6878_seninf_plan \<Rightarrow> si_event list set" where
  "reset_words plan = {[Si_read MT6878_SENINF_BASE (mux_base plan) x,
     Si_write MT6878_SENINF_BASE (mux_base plan) (x OR 6),
     Si_write MT6878_SENINF_BASE (mux_base plan) (x AND NOT 6)] |x. True}"

definition select_words :: "mt6878_seninf_plan \<Rightarrow> si_event list set" where
  "select_words plan = (let shift = unat ((plan_mux plan mod 4) * 8)
     in si_update_words MT6878_SENINF_BASE (0x10 + (plan_mux plan div 4) * 4)
          (push_bit shift 0x1f) (push_bit shift (plan_intf plan)))"

fun action_words :: "mt6878_seninf_plan \<Rightarrow> mt6878_seninf_action \<Rightarrow> si_event list set" where
  "action_words plan MT6878_ANALOG_ON = concs [{[Si_check MT6878_ANALOG_ON]},
     half_words (plan_port plan * 0x8000) True, half_words (plan_port plan * 0x8000 + 0x1000) True]"
| "action_words plan MT6878_MUX_SETUP = concs [{[Si_check MT6878_MUX_SETUP]},
     field_words plan, reset_words plan, select_words plan]"
| "action_words plan MT6878_RECEIVER_OFF = concs [{[Si_check MT6878_RECEIVER_OFF]},
     si_update_words MT6878_SENINF_BASE (mux_base plan) 1 0,
     {[Si_write MT6878_SENINF_BASE (0x0a00 + 0x1000 * plan_intf plan) 0]},
     half_words (plan_port plan * 0x8000) False, half_words (plan_port plan * 0x8000 + 0x1000) False]"

lemma follows_lanes: "list_all2 (follows si_trace (si_steady tx)) (lane_words offset on) (lane_bits io offset on)"
  unfolding lane_words_def lane_bits_def list_all2_map1 list_all2_map2
  by (rule list.rel_refl) (rule follows_si_update)

lemma follows_half:
  "follows si_trace (si_steady tx) (half_words offset enable) (mt6878_seninf_analog_half io offset enable)"
  unfolding half_words_def mt6878_seninf_analog_half_def
  by (intro follows_chain list_all2_appendI follows_lanes) (simp_all add: follows_si follows_lanes list_all2_appendI)

lemma latches_half [simp]: "latches (mt6878_seninf_analog_half io offset enable)"
  unfolding mt6878_seninf_analog_half_def by (rule latches_chain) (simp add: lane_bits_def list_all_iff)

lemma follows_fields: "follows si_trace (si_steady tx) (field_words plan) (mux_fields io plan)"
  unfolding field_words_def mux_fields_def by (rule follows_chain) (simp add: follows_si)

lemma follows_mux_reset: "follows si_trace (si_steady tx) (reset_words plan) (mux_reset io plan)"
proof -
  let ?b = "mux_base plan"
  let ?A = "\<lambda>x. concs [{[Si_write MT6878_SENINF_BASE ?b (x OR 6)]}, {[Si_write MT6878_SENINF_BASE ?b (x AND NOT 6)]}]"
  have words: "reset_words plan = {Si_read MT6878_SENINF_BASE ?b x # u |x u. u \<in> ?A x}"
    by (auto simp: reset_words_def conc_def)
  have "follows si_trace (si_steady tx) (?A x) (chain [do_write io MT6878_SENINF_BASE ?b (x OR 6),
      do_write io MT6878_SENINF_BASE ?b (x AND NOT 6)])" for x
    by (rule follows_chain) (simp add: follows_do)
  then show ?thesis
    unfolding mux_reset_def words by (intro follows_latched follows_stepped [OF follows_read_then])
qed

lemma follows_select: "follows si_trace (si_steady tx) (select_words plan) (mux_select io plan)"
  by (simp add: select_words_def mux_select_def Let_def follows_si_update)

definition action_steps :: "'w mt6878_seninf_backend \<Rightarrow> mt6878_seninf_plan \<Rightarrow> mt6878_seninf_action \<Rightarrow> 'w si_state action" where
  "action_steps io plan a = (case a of
     MT6878_ANALOG_ON \<Rightarrow> latched (chain [do_check io MT6878_ANALOG_ON plan,
       mt6878_seninf_analog_half io (plan_port plan * 0x8000) True,
       mt6878_seninf_analog_half io (plan_port plan * 0x8000 + 0x1000) True])
   | MT6878_MUX_SETUP \<Rightarrow> chain [latched (do_check io MT6878_MUX_SETUP plan), mux_fields io plan, mux_reset io plan,
       mux_select io plan]
   | MT6878_RECEIVER_OFF \<Rightarrow> latched (chain [do_check io MT6878_RECEIVER_OFF plan,
       mt6878_seninf_update io MT6878_SENINF_BASE (mux_base plan) 1 0,
       (\<lambda>s. do_write io MT6878_SENINF_BASE (0x0a00 + 0x1000 * plan_intf plan) 0 (stepped s)),
       mt6878_seninf_analog_half io (plan_port plan * 0x8000) False,
       mt6878_seninf_analog_half io (plan_port plan * 0x8000 + 0x1000) False]))"

lemma follows_action: "follows si_trace (si_steady tx) (action_words plan a) (action_steps io plan a)"
proof (cases a)
  case MT6878_ANALOG_ON
  then show ?thesis
    unfolding action_steps_def by (simp del: concs.simps chain.simps)
      (intro follows_latched follows_chain, simp add: follows_si follows_half)
next
  case MT6878_MUX_SETUP
  then show ?thesis
    unfolding action_steps_def by (simp del: concs.simps chain.simps)
      (intro follows_chain, simp add: follows_latched follows_si follows_fields follows_mux_reset follows_select)
next
  case MT6878_RECEIVER_OFF
  then show ?thesis
    unfolding action_steps_def by (simp del: concs.simps chain.simps)
      (intro follows_latched follows_chain, simp add: follows_stepped [OF follows_do(2)] follows_si follows_half)
qed

lemma latches_action: "latches (action_steps io plan a)"
proof (cases a)
  case MT6878_MUX_SETUP
  have "latches (mux_fields io plan)" unfolding mux_fields_def by (rule latches_chain) simp
  then have "list_all latches [latched (do_check io MT6878_MUX_SETUP plan), mux_fields io plan, mux_reset io plan, mux_select io plan]"
    by (simp add: mux_reset_def mux_select_def Let_def)
  from latches_chain [OF this] show ?thesis using MT6878_MUX_SETUP by (simp add: action_steps_def del: chain.simps)
qed (simp_all add: action_steps_def del: chain.simps)

section \<open>Calls in sequence\<close>

type_synonym 'w si_call = "mt6878_seninf_action \<times> 'w mt6878_seninf_backend ptr \<times> mt6878_seninf_plan ptr"

fun seninf_call :: "'w si_call \<Rightarrow> 'w si_state action" where
  "seninf_call (MT6878_ANALOG_ON, io, plan) s = mt6878_seninf_analog_on io plan s"
| "seninf_call (MT6878_MUX_SETUP, io, plan) s = mt6878_seninf_mux_setup io plan s"
| "seninf_call (MT6878_RECEIVER_OFF, io, plan) s = mt6878_seninf_receiver_off io plan s"

definition seninf_step :: "'w si_call \<Rightarrow> 'w si_state \<Rightarrow> 'w si_state \<times> int" where
  "seninf_step c s = (case seninf_call c s of (ret, t) \<Rightarrow> (t, ret))"

fun tried :: "mt6878_seninf_transaction \<Rightarrow> mt6878_seninf_action \<Rightarrow> bool" where
  "tried tx MT6878_ANALOG_ON = (si_analog_attempted tx \<noteq> 0)"
| "tried tx MT6878_MUX_SETUP = (si_mux_attempted tx \<noteq> 0)"
| "tried tx MT6878_RECEIVER_OFF = (si_off_attempted tx \<noteq> 0)"

fun mark :: "mt6878_seninf_action \<Rightarrow> mt6878_seninf_transaction \<Rightarrow> mt6878_seninf_transaction" where
  "mark MT6878_ANALOG_ON tx = tx\<lparr> si_analog_attempted := 1 \<rparr>"
| "mark MT6878_MUX_SETUP tx = tx\<lparr> si_mux_attempted := 1 \<rparr>"
| "mark MT6878_RECEIVER_OFF tx = tx\<lparr> si_off_attempted := 1 \<rparr>"

definition busy :: "mt6878_seninf_transaction \<Rightarrow> mt6878_seninf_action \<Rightarrow> bool" where
  "busy tx a \<longleftrightarrow> tried tx a \<or> a \<noteq> MT6878_RECEIVER_OFF \<and> (tried tx MT6878_RECEIVER_OFF \<or> si_first_error tx \<noteq> 0)"

lemma seninf_call_uniform:
  "seninf_call (a, io, plan) (tx, d) =
    (if busy tx a then (- EBUSY, (tx, d))
     else case entry io plan tx of (ret, tx) \<Rightarrow>
       if ret \<noteq> 0 then (ret, (tx, d)) else action_steps (contents io) (contents plan) a (mark a tx, d))"
  by (cases a) (auto simp: busy_def mt6878_seninf_analog_on_def mt6878_seninf_mux_setup_def
      mt6878_seninf_receiver_off_def action_steps_def Let_def split: prod.split)

declare tried.simps [simp del] action_words.simps [simp del]

text \<open>
  What the hardware has seen: configuring actions, each at most once and one after the other, then at most
  one shutdown. While there is no error every action that was started ran to its end.
\<close>

definition seninf_history :: "mt6878_seninf_transaction \<Rightarrow> si_event list \<Rightarrow> bool" where
  "seninf_history tx tr \<longleftrightarrow> (\<exists>order begun off.
     tr = begun @ off \<and> distinct order \<and> set order = {a. a \<noteq> MT6878_RECEIVER_OFF \<and> tried tx a} \<and>
     partly (concs (map (action_words (si_plan tx)) order)) begun \<and>
     (si_first_error tx = 0 \<longrightarrow> begun \<in> concs (map (action_words (si_plan tx)) order)) \<and>
     (if tried tx MT6878_RECEIVER_OFF
      then partly (action_words (si_plan tx) MT6878_RECEIVER_OFF) off \<and>
        (si_first_error tx = 0 \<longrightarrow> off \<in> action_words (si_plan tx) MT6878_RECEIVER_OFF)
      else off = []))"

definition bound_when_tried :: "mt6878_seninf_transaction \<Rightarrow> bool" where
  "bound_when_tried tx \<longleftrightarrow> si_plan_bound tx \<noteq> 0 \<or> (\<forall>a. \<not> tried tx a)"

lemma conc_assoc: "conc (conc A B) C = conc A (conc B C)"
  unfolding conc_def by (auto; metis append.assoc)

lemma concs_snoc: "concs (As @ [A]) = conc (concs As) A"
proof (induction As)
  case Nil
  show ?case by (auto simp: conc_def)
qed (simp add: conc_assoc)

lemma history_same:
  assumes "seninf_history tx tr" and "\<And>a. tried tx' a = tried tx a" and "si_plan tx' = si_plan tx"
    and "si_first_error tx' = si_first_error tx"
  shows "seninf_history tx' tr"
  using assms(1) unfolding seninf_history_def assms(2-4) .

lemma history_fresh:
  assumes "seninf_history tx tr" and "\<forall>a. \<not> tried tx a" and "\<forall>a. \<not> tried tx' a"
  shows "seninf_history tx' tr"
proof -
  have "tr = []" using assms(1,2) by (auto simp: seninf_history_def partly_def)
  then show ?thesis using assms(3) by (auto simp: seninf_history_def partly_def intro!: exI [of _ "[]"])
qed

lemma plan_eqI:
  "plan_port p = plan_port q \<Longrightarrow> plan_intf p = plan_intf q \<Longrightarrow> plan_mux p = plan_mux q \<Longrightarrow>
   plan_group p = plan_group q \<Longrightarrow> plan_pixel_mode p = plan_pixel_mode q \<Longrightarrow> p = (q :: mt6878_seninf_plan)"
  by (cases p, cases q) simp

lemma entry_result:
  assumes "entry io plan tx = (ret, tx')"
  shows "tried tx' a = tried tx a" "si_first_error tx' = si_first_error tx"
    "si_plan_bound tx \<noteq> 0 \<longrightarrow> si_plan tx' = si_plan tx" "bound_when_tried tx \<longrightarrow> bound_when_tried tx'"
    "ret = 0 \<longrightarrow> si_plan tx' = contents plan \<and> si_plan_bound tx' \<noteq> 0"
proof -
  have t: "tried (tx\<lparr> si_plan := p, si_plan_bound := 1 \<rparr>) b = tried tx b" for p b by (cases b) (simp_all add: tried.simps)
  show "tried tx' a = tried tx a" "si_first_error tx' = si_first_error tx"
    "bound_when_tried tx \<longrightarrow> bound_when_tried tx'" "ret = 0 \<longrightarrow> si_plan tx' = contents plan \<and> si_plan_bound tx' \<noteq> 0"
    using assms by (auto simp: entry_def mt6878_seninf_bind_plan_def bound_when_tried_def t Let_def split: if_splits)
  show "si_plan_bound tx \<noteq> 0 \<longrightarrow> si_plan tx' = si_plan tx"
    using assms by (auto simp: entry_def mt6878_seninf_bind_plan_def Let_def split: if_splits intro: plan_eqI)
qed

lemma entry_history:
  assumes "entry io plan tx = (ret, tx')" and "seninf_history tx tr" and "bound_when_tried tx"
  shows "seninf_history tx' tr" "bound_when_tried tx'"
proof -
  note e = entry_result [OF assms(1)]
  show "bound_when_tried tx'" using e(4) assms(3) by blast
  show "seninf_history tx' tr"
  proof (cases "si_plan_bound tx = 0")
    case True
    then show ?thesis using assms(3) e(1) by (intro history_fresh [OF assms(2)]) (auto simp: bound_when_tried_def)
  next
    case False
    then show ?thesis using e by (intro history_same [OF assms(2)]) simp_all
  qed
qed

lemma mark_tried: "tried (mark a tx) b \<longleftrightarrow> b = a \<or> tried tx b"
  by (cases a; cases b) (simp_all add: tried.simps)

lemma mark_fields [simp]: "si_plan (mark a tx) = si_plan tx" "si_first_error (mark a tx) = si_first_error tx"
    "si_plan_bound (mark a tx) = si_plan_bound tx"
  by (cases a; simp)+

lemma steady_fields:
  assumes "si_steady tx s"
  shows "tried (fst s) a = tried tx a" "si_plan (fst s) = si_plan tx" "si_plan_bound (fst s) = si_plan_bound tx"
    "si_first_error (fst s) = 0 \<longrightarrow> si_first_error tx = 0"
proof -
  have "(fst s)\<lparr> si_first_error := 0, si_step := 0 \<rparr> = tx\<lparr> si_first_error := 0, si_step := 0 \<rparr>"
    and e: "si_first_error tx \<noteq> 0 \<longrightarrow> si_first_error (fst s) = si_first_error tx"
    using assms by (simp_all add: si_steady_def)
  then have eq: "si_analog_attempted (fst s) = si_analog_attempted tx" "si_mux_attempted (fst s) = si_mux_attempted tx"
      "si_off_attempted (fst s) = si_off_attempted tx" "si_plan (fst s) = si_plan tx" "si_plan_bound (fst s) = si_plan_bound tx"
    by (cases "fst s", cases tx, simp)+
  show "tried (fst s) a = tried tx a" by (cases a) (simp_all add: tried.simps eq)
  show "si_plan (fst s) = si_plan tx" "si_plan_bound (fst s) = si_plan_bound tx" by (simp_all add: eq)
  show "si_first_error (fst s) = 0 \<longrightarrow> si_first_error tx = 0" using e by auto
qed

text \<open>One action from a state in which it is not refused.\<close>

lemma action_history:
  assumes h: "seninf_history tx tr" and free: "\<not> busy tx a"
    and steady: "si_steady (mark a tx) t" and u: "partly (action_words (si_plan tx) a) u"
    and full: "si_first_error (fst t) = 0 \<longrightarrow> u \<in> action_words (si_plan tx) a"
  shows "seninf_history (fst t) (tr @ u)"
proof -
  note f = steady_fields [OF steady, unfolded mark_tried mark_fields]
  let ?W = "action_words (si_plan tx)"
  obtain order begun off where tr: "tr = begun @ off" "distinct order"
      and order: "set order = {b. b \<noteq> MT6878_RECEIVER_OFF \<and> tried tx b}"
      and part: "partly (concs (map ?W order)) begun"
      and whole: "si_first_error tx = 0 \<longrightarrow> begun \<in> concs (map ?W order)"
      and off: "\<not> tried tx MT6878_RECEIVER_OFF \<Longrightarrow> off = []"
    using h unfolding seninf_history_def by (auto split: if_splits)
  have fresh: "\<not> tried tx a" "off = []" using free off by (auto simp: busy_def)
  show ?thesis
  proof (cases "a = MT6878_RECEIVER_OFF")
    case True
    then have same: "set order = {b. b \<noteq> MT6878_RECEIVER_OFF \<and> (b = a \<or> tried tx b)}" using order by auto
    have kept: "si_first_error (fst t) = 0 \<longrightarrow> begun \<in> concs (map ?W order)" using whole f(4) by blast
    have last: "partly (?W MT6878_RECEIVER_OFF) u" "si_first_error (fst t) = 0 \<longrightarrow> u \<in> ?W MT6878_RECEIVER_OFF"
      using u full True by simp_all
    show ?thesis
      unfolding seninf_history_def f using tr(2) same part kept last True
      by (intro exI [of _ order] exI [of _ begun] exI [of _ u]) (simp add: tr(1) fresh(2))
  next
    case False
    then have ok: "begun \<in> concs (map ?W order)" "\<not> tried tx MT6878_RECEIVER_OFF"
      using whole free by (auto simp: busy_def)
    have order': "distinct (order @ [a])" "set (order @ [a]) = {b. b \<noteq> MT6878_RECEIVER_OFF \<and> (b = a \<or> tried tx b)}"
      using order fresh(1) tr(2) False by auto
    have words: "concs (map ?W (order @ [a])) = conc (concs (map ?W order)) (?W a)" by (simp add: concs_snoc)
    have "partly (concs (map ?W (order @ [a]))) (begun @ u)"
        "si_first_error (fst t) = 0 \<longrightarrow> begun @ u \<in> concs (map ?W (order @ [a]))"
      unfolding words using partly_conc_right [OF ok(1) u] full concI [OF ok(1)] by blast+
    then show ?thesis
      unfolding seninf_history_def f using order' ok(2) False
      by (intro exI [of _ "order @ [a]"] exI [of _ "begun @ u"] exI [of _ "[]"]) (simp add: tr(1) fresh(2) del: map_append)
  qed
qed

lemma seninf_call_history:
  assumes "seninf_call (a, io, plan) (tx, w, tr) = (ret, t)" and "seninf_history tx tr" and "bound_when_tried tx"
  shows "seninf_history (fst t) (si_trace t) \<and> bound_when_tried (fst t)"
proof (cases "busy tx a")
  case True
  then show ?thesis using assms by (auto simp: seninf_call_uniform)
next
  case False
  obtain r tx1 where e: "entry io plan tx = (r, tx1)" by (metis prod.exhaust)
  note h = entry_history [OF e assms(2,3)] and er = entry_result [OF e]
  show ?thesis
  proof (cases "r = 0")
    case False
    then show ?thesis using assms(1) \<open>\<not> busy tx a\<close> e h by (auto simp: seninf_call_uniform)
  next
    case True
    let ?s = "(mark a tx1, w, tr)"
    have run: "action_steps (contents io) (contents plan) a ?s = (ret, t)"
      using assms(1) False e True by (simp add: seninf_call_uniform)
    have free: "\<not> busy tx1 a" using False er by (simp add: busy_def)
    have "si_steady (mark a tx1) ?s" by (simp add: si_steady_def)
    from followsD [OF follows_action this run] obtain u where u: "si_steady (mark a tx1) t" "si_trace t = tr @ u"
        "partly (action_words (contents plan) a) u" "ret = 0 \<longrightarrow> u \<in> action_words (contents plan) a" by auto
    have plan: "contents plan = si_plan tx1" using er(5) True by simp
    have "si_first_error (fst t) = 0 \<longrightarrow> u \<in> action_words (si_plan tx1) a"
      using latchesD [OF latches_action run] u(4) plan by auto
    then have "seninf_history (fst t) (tr @ u)"
      using action_history [OF h(1) free u(1)] u(3) plan by simp
    moreover have "bound_when_tried (fst t)"
      using steady_fields(3) [OF u(1)] er(5) True by (simp add: bound_when_tried_def)
    ultimately show ?thesis using u(2) by simp
  qed
qed

definition seninf_inv :: "'w si_state \<Rightarrow> bool" where
  "seninf_inv s \<longleftrightarrow> seninf_history (fst s) (si_trace s) \<and> bound_when_tried (fst s)"

interpretation seninf: invariant_owner seninf_step seninf_inv
proof
  fix s :: "'a si_state" and c :: "'a si_call"
  assume "seninf_inv s"
  moreover obtain a io plan where "c = (a, io, plan)" by (metis prod.exhaust)
  moreover obtain tx w tr where "s = (tx, w, tr)" by (metis prod.exhaust)
  moreover obtain ret t where "seninf_call c s = (ret, t)" by (metis prod.exhaust)
  ultimately show "seninf_inv (fst (seninf_step c s))"
    using seninf_call_history [of a io plan tx w tr ret t] by (simp add: seninf_inv_def seninf_step_def)
qed

definition fresh_transaction :: "mt6878_seninf_plan \<Rightarrow> mt6878_seninf_transaction" where
  "fresh_transaction plan = \<lparr> si_analog_attempted = 0, si_mux_attempted = 0, si_off_attempted = 0, si_step = 0,
     si_first_error = 0, si_plan_bound = 0, si_plan = plan \<rparr>"

text \<open>
  C38. From a zeroed transaction, over any sequence of calls with any backends, plans and
  outcomes of the callbacks, the sensor interface sees at most one analog power-on and at most
  one multiplexer configuration, each following its register script for the one plan that was bound, and then
  at most one shutdown that follows its own. Nothing is configured after a shutdown or after a failure: an
  action other than a shutdown begins only when all before it ran to their ends, and while no error is latched every
  script that was begun is complete.
\<close>
theorem seninf_scripts_ordered:
  "let ((tx, w', trace), results) = run_ops seninf_step calls (fresh_transaction plan, w, [])
   in seninf_history tx trace"
proof -
  have "\<not> tried (fresh_transaction plan) a" for a by (cases a) (simp_all add: fresh_transaction_def tried.simps)
  then have "seninf_inv (fresh_transaction plan, w, [])"
    by (auto simp: seninf_inv_def seninf_history_def bound_when_tried_def partly_def intro!: exI [of _ "[]"])
  from seninf.inv_run [OF this, of calls] show ?thesis by (simp add: seninf_inv_def case_prod_unfold)
qed

end
