(* ===== verification/Ccd_Cq.thy ===== *)
theory Ccd_Cq
  imports Scripts
begin

text \<open>
  The command queue of the camera receiver, \<^verbatim>\<open>patches/camera-ccd-cq/mt6878-camera-ccd-cq.h\<close>: a
  buffer that grows from both ends, 12-byte descriptors from the front and the register values
  they point at from the back, closed by an END descriptor. The meaning of such a buffer is the
  sequence of register writes the engine makes when it walks the descriptors; the theory shows
  that it is the sequence the builder was asked for. The queue object itself is always present
  here: the functions return \<open>- EINVAL\<close> for a missing one and touch nothing.
\<close>

unbundle bit_operations_syntax

section \<open>The queue\<close>

definition MT6878_CQ_REG_BASE :: u32 where "MT6878_CQ_REG_BASE = 0x1a000000"
definition MT6878_CQ_REG_SIZE :: u32 where "MT6878_CQ_REG_SIZE = 0x00200000"
definition MT6878_CQ_DESC_BYTES :: u32 where "MT6878_CQ_DESC_BYTES = 12"
definition MT6878_CQ_MAX_WORDS :: u32 where "MT6878_CQ_MAX_WORDS = 511"
definition MT6878_CQ_END :: u32 where "MT6878_CQ_END = 0x06000000"

lemmas cq_consts = MT6878_CQ_REG_BASE_def MT6878_CQ_REG_SIZE_def MT6878_CQ_DESC_BYTES_def MT6878_CQ_MAX_WORDS_def MT6878_CQ_END_def

record mt6878_ccd_cq =
  cq_mem :: "bytes ptr"
  iova :: u64
  capacity :: u32
  cq_head :: u32
  cq_tail :: u32
  reg_base :: u32
  reg_size :: u32
  finished :: u32
  cq_first_error :: int

definition mt6878_cq_put32 :: "bytes \<Rightarrow> nat \<Rightarrow> u32 \<Rightarrow> bytes" where
  "mt6878_cq_put32 p k v = blit p k [ucast v, ucast (drop_bit 8 v), ucast (drop_bit 16 v), ucast (drop_bit 24 v)]"

definition mt6878_cq_put64 :: "bytes \<Rightarrow> nat \<Rightarrow> u64 \<Rightarrow> bytes" where
  "mt6878_cq_put64 p k v = mt6878_cq_put32 (mt6878_cq_put32 p k (ucast v)) (k + 4) (ucast (drop_bit 32 v))"

definition mt6878_cq_fail :: "int \<Rightarrow> mt6878_ccd_cq action" where
  "mt6878_cq_fail err cq =
    (let cq = (if cq_first_error cq = 0 then cq\<lparr> cq_first_error := err \<rparr> else cq) in (cq_first_error cq, cq))"

definition mt6878_ccd_cq_init :: "bytes ptr \<Rightarrow> u32 \<Rightarrow> u64 \<Rightarrow> u32 \<Rightarrow> u32 \<Rightarrow> mt6878_ccd_cq action" where
  "mt6878_ccd_cq_init buffer cap io base sz cq =
    (if buffer = Null \<or> cap < 28 \<or> cap AND 3 \<noteq> 0 \<or> io AND 15 \<noteq> 0 \<or> io \<ge> push_bit 34 1 \<or>
        ucast cap > push_bit 34 1 - io \<or> base < MT6878_CQ_REG_BASE \<or> base AND 3 \<noteq> 0 \<or>
        sz = 0 \<or> sz AND 3 \<noteq> 0 \<or> sz > MT6878_CQ_REG_SIZE \<or>
        base - MT6878_CQ_REG_BASE > MT6878_CQ_REG_SIZE - sz
     then (- EINVAL, cq)
     else (0, cq\<lparr> cq_mem := buffer, iova := io, capacity := cap, cq_head := 0, cq_tail := cap, reg_base := base,
                 reg_size := sz, finished := 0, cq_first_error := 0 \<rparr>))"

text \<open>The loop that stores the values, and the loop that emits the descriptors.\<close>

definition store_values :: "u32 \<Rightarrow> u32 list \<Rightarrow> bytes \<Rightarrow> bytes" where
  "store_values offset values p =
    fold (\<lambda>(j, v) p. mt6878_cq_put32 p (unat offset + unat (of_nat j * 4 :: u32)) v) (enumerate 0 values) p"

definition cq_command :: "u32 \<Rightarrow> u32 \<Rightarrow> u32" where
  "cq_command reg n = (reg AND 0xffff) OR push_bit 27 (drop_bit 16 reg AND 31) OR push_bit 16 (n - 1)"

function descriptors_loop :: "u32 \<Rightarrow> u64 \<Rightarrow> u32 \<Rightarrow> u32 \<Rightarrow> bytes \<Rightarrow> u32 \<times> bytes" where
  "descriptors_loop reg value_iova left head p =
    (if left = 0 then (head, p)
     else let n = (if left > MT6878_CQ_MAX_WORDS then MT6878_CQ_MAX_WORDS else left);
              p = mt6878_cq_put32 p (unat head) (cq_command reg n);
              p = mt6878_cq_put64 p (unat head + 4) value_iova
          in descriptors_loop (reg + n * 4) (value_iova + ucast (n * 4)) (left - n) (head + MT6878_CQ_DESC_BYTES) p)"
  by pat_completeness auto
termination
proof (relation "measure (\<lambda>(_, _, left, _, _). unat left)")
  fix reg value_iova left head p n and q r :: bytes
  assume "left \<noteq> 0" and n: "n = (if left > MT6878_CQ_MAX_WORDS then MT6878_CQ_MAX_WORDS else left)"
  then have "0 < unat left" "n \<le> left" "0 < unat n"
    by (auto simp: unat_gt_0 MT6878_CQ_MAX_WORDS_def)
  then show "((reg + n * 4, value_iova + ucast (n * 4), left - n, head + MT6878_CQ_DESC_BYTES, r), reg, value_iova, left, head, p)
      \<in> measure (\<lambda>(_, _, left, _, _). unat left)"
    by (simp add: unat_sub)
qed simp

declare descriptors_loop.simps [simp del]

text \<open>The address test on the values, \<^verbatim>\<open>unsigned long\<close> being 64 bits wide.\<close>

definition values_alias :: "u64 \<Rightarrow> u64 \<Rightarrow> u32 \<Rightarrow> u32 \<Rightarrow> bool" where
  "values_alias src dst cap n \<longleftrightarrow> (src \<ge> dst \<and> src - dst < ucast cap) \<or> (src < dst \<and> dst - src < ucast n)"

definition mt6878_ccd_cq_values :: "u32 \<Rightarrow> u32 list ptr \<Rightarrow> u32 \<Rightarrow> mt6878_ccd_cq action" where
  "mt6878_ccd_cq_values reg values count cq =
    (if cq_mem cq = Null then (- EINVAL, cq)
     else if cq_first_error cq \<noteq> 0 then (cq_first_error cq, cq)
     else if finished cq \<noteq> 0 then (- EALREADY, cq)
     else if values = Null \<or> count = 0 \<or> reg AND 3 \<noteq> 0 \<or> reg < reg_base cq \<or> reg - reg_base cq \<ge> reg_size cq \<or>
             count > (reg_size cq - (reg - reg_base cq)) div 4 then mt6878_cq_fail (- ERANGE) cq
     else let size_bytes = count * 4; descriptors = (count + MT6878_CQ_MAX_WORDS - 1) div MT6878_CQ_MAX_WORDS in
     if cq_head cq > cq_tail cq \<or> size_bytes > cq_tail cq - cq_head cq \<or>
        descriptors * MT6878_CQ_DESC_BYTES + MT6878_CQ_DESC_BYTES > cq_tail cq - cq_head cq - size_bytes \<or>
        cq_head cq + descriptors * MT6878_CQ_DESC_BYTES + MT6878_CQ_DESC_BYTES > 65535 then mt6878_cq_fail (- ENOSPC) cq
     else if values_alias (address values) (address (cq_mem cq)) (capacity cq) size_bytes then mt6878_cq_fail (- EINVAL) cq
     else let offset = cq_tail cq - size_bytes;
              p = store_values offset (take (unat count) (contents values)) (contents (cq_mem cq));
              (head, p) = descriptors_loop reg (iova cq + ucast offset) count (cq_head cq) p
          in (0, cq\<lparr> cq_mem := store (cq_mem cq) p, cq_head := head, cq_tail := offset \<rparr>))"

text \<open>\<open>local\<close> is the address of the function's own copy of the cookie.\<close>

definition mt6878_ccd_cq_frame_cookie :: "u64 \<Rightarrow> u32 \<Rightarrow> u32 \<Rightarrow> u32 \<Rightarrow> mt6878_ccd_cq action" where
  "mt6878_ccd_cq_frame_cookie local central_base session cookie cq =
    (if cq_mem cq = Null then (- EINVAL, cq)
     else if cq_first_error cq \<noteq> 0 then (cq_first_error cq, cq)
     else if finished cq \<noteq> 0 then (- EALREADY, cq)
     else if session > 3 \<or> drop_bit 24 cookie \<noteq> session \<or> central_base < reg_base cq \<or> central_base AND 3 \<noteq> 0 \<or>
             central_base - reg_base cq \<ge> reg_size cq \<or> reg_size cq - (central_base - reg_base cq) < 0x740
     then mt6878_cq_fail (- ERANGE) cq
     else let reg = central_base + 0x57c; last_reg = reg + 7 * 0x40 in
     if last_reg < reg \<or> cq_head cq > cq_tail cq \<or>
        cq_tail cq - cq_head cq < 8 * (MT6878_CQ_DESC_BYTES + 4) + MT6878_CQ_DESC_BYTES \<or>
        cq_head cq + 9 * MT6878_CQ_DESC_BYTES > 65535 then mt6878_cq_fail (- ENOSPC) cq
     else chain (map (\<lambda>tag. mt6878_ccd_cq_values (reg + of_nat tag * 0x40) (At local [cookie]) 1) [0 ..< 8]) cq)"

definition mt6878_ccd_cq_finish :: "u32 ptr \<Rightarrow> u32 ptr \<Rightarrow> mt6878_ccd_cq \<Rightarrow> int \<times> u32 ptr \<times> u32 ptr \<times> mt6878_ccd_cq" where
  "mt6878_ccd_cq_finish descriptor_bytes values_start cq =
    (if cq_mem cq = Null \<or> descriptor_bytes = Null \<or> values_start = Null then (- EINVAL, descriptor_bytes, values_start, cq)
     else if cq_first_error cq \<noteq> 0 then (cq_first_error cq, descriptor_bytes, values_start, cq)
     else if finished cq \<noteq> 0 then (- EALREADY, descriptor_bytes, values_start, cq)
     else if cq_head cq = 0 \<or> cq_head cq > cq_tail cq \<or> cq_tail cq - cq_head cq < MT6878_CQ_DESC_BYTES
     then (case mt6878_cq_fail (- ENOSPC) cq of (ret, cq) \<Rightarrow> (ret, descriptor_bytes, values_start, cq))
     else let p = mt6878_cq_put32 (contents (cq_mem cq)) (unat (cq_head cq)) MT6878_CQ_END;
              p = mt6878_cq_put64 p (unat (cq_head cq) + 4) 0;
              cq = cq\<lparr> cq_mem := store (cq_mem cq) p, cq_head := cq_head cq + MT6878_CQ_DESC_BYTES, finished := 1 \<rparr>
          in (0, store descriptor_bytes (cq_head cq), store values_start (cq_tail cq), cq))"

section \<open>What the engine does with a queue\<close>

text \<open>
  A descriptor names a register of the 2 MB aperture (21 bits), a number of words (9 bits) and
  the address of the values; the engine stops at the END command.
\<close>

definition desc_register :: "u32 \<Rightarrow> u32" where
  "desc_register command = MT6878_CQ_REG_BASE + ((command AND 0xffff) OR push_bit 16 (drop_bit 27 command))"

definition desc_words :: "u32 \<Rightarrow> nat" where
  "desc_words command = unat (drop_bit 16 command AND 0x1ff) + 1"

definition words_at :: "bytes \<Rightarrow> u32 \<Rightarrow> nat \<Rightarrow> nat \<Rightarrow> (u32 \<times> u32) list" where
  "words_at p reg off n = map (\<lambda>j. (reg + of_nat (4 * j), le32 (drop (off + 4 * j) p))) [0 ..< n]"

fun cq_engine :: "nat \<Rightarrow> bytes \<Rightarrow> u64 \<Rightarrow> nat \<Rightarrow> (u32 \<times> u32) list option" where
  "cq_engine 0 p io h = None"
| "cq_engine (Suc n) p io h =
    (let command = le32 (drop h p); addr = get_le64 (drop (h + 4) p) in
     if command = MT6878_CQ_END then Some []
     else map_option ((@) (words_at p (desc_register command) (unat (addr - io)) (desc_words command)))
       (cq_engine n p io (h + 12)))"

section \<open>Byte level\<close>

lemma put32_bytes: "mt6878_cq_put32 p k v = blit p k (put32 v)"
  by (simp add: mt6878_cq_put32_def put32_def)

lemma put64_bytes: "k \<le> length p \<Longrightarrow> mt6878_cq_put64 p k v = blit p k (put_le64 v)"
  by (simp add: mt6878_cq_put64_def put32_bytes put_le64_def blit_blit_adjacent)

definition value_bytes :: "u32 list \<Rightarrow> bytes" where
  "value_bytes vs = concat (map put32 vs)"

lemma length_value_bytes [simp]: "length (value_bytes vs) = 4 * length vs"
  by (induction vs) (simp_all add: value_bytes_def)

lemma drop_value_bytes: "j < length vs \<Longrightarrow> \<exists>rest. drop (4 * j) (value_bytes vs) = put32 (vs ! j) @ rest"
proof (induction vs arbitrary: j)
  case (Cons v vs)
  then show ?case
  proof (cases j)
    case (Suc i)
    have "drop (4 * j) (value_bytes (v # vs)) = drop (4 * i) (value_bytes vs)"
      by (simp add: Suc value_bytes_def)
    then show ?thesis using Cons Suc by simp
  qed (simp add: value_bytes_def)
qed simp

lemma unat_of_nat_u32: "n < 2 ^ 32 \<Longrightarrow> unat (of_nat n :: u32) = n"
  by (simp add: unsigned_of_nat take_bit_nat_eq_self)

lemma store_values_from:
  assumes "off + 4 * (k + length vs) \<le> length p" and "off + 4 * (k + length vs) < 2 ^ 32"
  shows "fold (\<lambda>(j, v) p. mt6878_cq_put32 p (off + unat (of_nat j * 4 :: u32)) v) (enumerate k vs) p =
    blit p (off + 4 * k) (value_bytes vs)"
  using assms
proof (induction vs arbitrary: k p)
  case (Cons v vs)
  have k: "unat (of_nat k * 4 :: u32) = 4 * k"
    using unat_of_nat_u32 [of "4 * k"] Cons.prems by (simp add: mult.commute)
  let ?q = "blit p (off + 4 * k) (put32 v)"
  have "fold (\<lambda>(j, v) p. mt6878_cq_put32 p (off + unat (of_nat j * 4 :: u32)) v) (enumerate (Suc k) vs) ?q =
      blit ?q (off + 4 * Suc k) (value_bytes vs)"
    using Cons.prems by (intro Cons.IH) simp_all
  also have "\<dots> = blit p (off + 4 * k) (put32 v @ value_bytes vs)"
    using Cons.prems by (intro blit_blit_adjacent) simp_all
  finally show ?case by (simp add: k put32_bytes value_bytes_def)
qed (simp add: value_bytes_def)

lemma store_values_result:
  assumes "unat offset + 4 * length vs \<le> length p" and "unat offset + 4 * length vs < 2 ^ 32"
  shows "store_values offset vs p = blit p (unat offset) (value_bytes vs)"
  using store_values_from [of "unat offset" 0 vs p] assms by (simp add: store_values_def)

lemma words_at_cong:
  assumes "\<And>i. off \<le> i \<Longrightarrow> i < off + 4 * n \<Longrightarrow> p ! i = q ! i" and "off + 4 * n \<le> length p" and "length p = length q"
  shows "words_at p reg off n = words_at q reg off n"
proof -
  have "le32 (drop (off + 4 * j) p) = le32 (drop (off + 4 * j) q)" if "j < n" for j
  proof -
    have "drop (off + 4 * j) p ! i = drop (off + 4 * j) q ! i" if "i < 4" for i
      using assms \<open>j < n\<close> that by simp
    from this [of 0] this [of 1] this [of 2] this [of 3] show ?thesis unfolding le32_def by simp
  qed
  then show ?thesis by (simp add: words_at_def)
qed

lemma words_at_stored:
  assumes "off + 4 * length vs \<le> length p"
  shows "words_at (blit p off (value_bytes vs)) reg off (length vs) = map (\<lambda>j. (reg + of_nat (4 * j), vs ! j)) [0 ..< length vs]"
proof -
  have "le32 (drop (off + 4 * j) (blit p off (value_bytes vs))) = vs ! j" if j: "j < length vs" for j
  proof -
    obtain rest where r: "drop (4 * j) (value_bytes vs) = put32 (vs ! j) @ rest" using drop_value_bytes [OF j] by blast
    have "drop (off + 4 * j) (blit p off (value_bytes vs)) = drop (4 * j) (value_bytes vs) @ drop (off + 4 * length vs) p"
      using assms j by (simp add: blit_def)
    then show ?thesis by (simp add: r)
  qed
  then show ?thesis by (simp add: words_at_def)
qed

section \<open>Descriptors\<close>

type_synonym desc = "u32 \<times> nat \<times> nat"

text \<open>A descriptor as register, offset of its values and number of words.\<close>

definition desc_bytes :: "u64 \<Rightarrow> desc \<Rightarrow> bytes" where
  "desc_bytes io d = (case d of (reg, off, n) \<Rightarrow> put32 (cq_command reg (of_nat n)) @ put_le64 (io + of_nat off))"

definition desc_ok :: "nat \<Rightarrow> nat \<Rightarrow> desc \<Rightarrow> bool" where
  "desc_ok tail cap d = (case d of (reg, off, n) \<Rightarrow> 0 < n \<and> n \<le> 511 \<and> tail \<le> off \<and> off + 4 * n \<le> cap \<and>
     0x1a000000 \<le> unat reg \<and> unat reg < 0x1a200000)"

definition desc_writes :: "bytes \<Rightarrow> desc \<Rightarrow> (u32 \<times> u32) list" where
  "desc_writes p d = (case d of (reg, off, n) \<Rightarrow> words_at p reg off n)"

lemma length_desc_bytes [simp]: "length (desc_bytes io d) = 12"
  by (simp add: desc_bytes_def split: prod.split)

lemma count_bits:
  assumes "0 < n" and "n \<le> 511"
  shows "unat (of_nat n - 1 :: u32) = n - 1" and "9 \<le> k \<Longrightarrow> \<not> bit (of_nat n - 1 :: u32) k"
proof -
  let ?m = "of_nat n - 1 :: u32"
  have "?m = of_nat (n - 1)" using assms by (simp add: of_nat_diff)
  moreover have "unat (of_nat (n - 1) :: u32) = n - 1" by (rule unat_of_nat_u32) (use assms in simp)
  ultimately show um: "unat ?m = n - 1" by (simp only:)
  then have "unat (take_bit 9 ?m) = unat ?m" using assms by (simp add: unsigned_take_bit_eq take_bit_nat_eq_self)
  then have "take_bit 9 ?m = ?m" by (simp only: word_unat_eq_iff)
  then show "\<not> bit ?m k" if "9 \<le> k" using that by (metis bit_take_bit_iff not_le)
qed

lemma command_words:
  assumes "0 < n" and "n \<le> 511"
  shows "desc_words (cq_command reg (of_nat n)) = n" and "cq_command reg (of_nat n) \<noteq> MT6878_CQ_END"
proof -
  define m where "m = (of_nat n - 1 :: u32)"
  note um = count_bits(1) [OF assms, folded m_def] and high = count_bits(2) [OF assms, folded m_def]
  have mask: "(0x1ff :: u32) = mask 9" "(0xffff :: u32) = mask 16" "(31 :: u32) = mask 5" by (simp_all add: mask_eq_exp_minus_1)
  have "drop_bit 16 (cq_command reg (of_nat n)) AND 0x1ff = m"
    unfolding cq_command_def mask m_def [symmetric]
    by (rule bit_word_eqI) (use high in \<open>auto simp: bit_simps intro: leI\<close>)
  then show "desc_words (cq_command reg (of_nat n)) = n" using um assms by (simp add: desc_words_def)
  have "\<not> bit (cq_command reg (of_nat n)) 25"
    unfolding cq_command_def mask m_def [symmetric] using high [of 9] by (simp add: bit_simps)
  moreover have "bit MT6878_CQ_END 25" by (simp add: MT6878_CQ_END_def bit_iff_odd_drop_bit)
  ultimately show "cq_command reg (of_nat n) \<noteq> MT6878_CQ_END" by metis
qed

lemma command_register:
  assumes "0 < n" and "n \<le> 511" and "0x1a000000 \<le> unat reg" and "unat reg < 0x1a200000"
  shows "desc_register (cq_command reg (of_nat n)) = reg"
proof -
  define m where "m = (of_nat n - 1 :: u32)"
  note high = count_bits(2) [OF assms(1,2), folded m_def]
  have mask: "(0xffff :: u32) = mask 16" "(31 :: u32) = mask 5" by (simp_all add: mask_eq_exp_minus_1)
  have low: "(cq_command reg (of_nat n) AND 0xffff) OR push_bit 16 (drop_bit 27 (cq_command reg (of_nat n))) = take_bit 21 reg"
    unfolding cq_command_def mask m_def [symmetric]
    by (rule bit_word_eqI) (use high in \<open>auto simp: bit_simps\<close>)
  define x where "x = unat reg - 0x1a000000"
  have x: "unat reg = x + 208 * 2 ^ 21" "x < 2 ^ 21" using assms by (simp_all add: x_def)
  have "unat (take_bit 21 reg) = unat reg mod 2 ^ 21" by (simp add: take_bit_eq_mod unat_mod)
  also have "\<dots> = x" unfolding x(1) mod_mult_self1 using x(2) by (rule mod_less)
  finally have "unat (MT6878_CQ_REG_BASE + take_bit 21 reg) = unat reg"
    using x by (simp add: MT6878_CQ_REG_BASE_def unat_add_lem [THEN iffD1])
  then show ?thesis unfolding desc_register_def low by (simp only: word_unat_eq_iff)
qed

text \<open>How a run of values is split into descriptors of at most 511 words.\<close>

function chunks :: "u32 \<Rightarrow> nat \<Rightarrow> nat \<Rightarrow> desc list" where
  "chunks reg off n = (if n = 0 then [] else (reg, off, min 511 n) # chunks (reg + of_nat (4 * min 511 n)) (off + 4 * min 511 n) (n - min 511 n))"
  by pat_completeness auto
termination by (relation "measure (\<lambda>(_, _, n). n)") auto

declare chunks.simps [simp del]

lemma length_chunks: "length (chunks reg off n) = (n + 510) div 511"
proof (induction reg off n rule: chunks.induct)
  case (1 reg off n)
  then show ?case by (cases "n \<le> 511") (auto simp: chunks.simps [of reg off n] chunks.simps [of _ _ 0] min_def div_if [of "n + 510"])
qed

lemma words_at_split: "m \<le> n \<Longrightarrow> words_at p reg off n = words_at p reg off m @ words_at p (reg + of_nat (4 * m)) (off + 4 * m) (n - m)"
proof -
  assume "m \<le> n"
  then have "[0 ..< n] = [0 ..< m] @ map (\<lambda>i. i + m) [0 ..< n - m]" using upt_add_eq_append [of 0 m "n - m"] map_add_upt [of m "n - m"] by (simp add: add.commute)
  then show ?thesis by (simp add: words_at_def algebra_simps)
qed

lemma chunks_writes: "concat (map (desc_writes p) (chunks reg off n)) = words_at p reg off n"
proof (induction reg off n rule: chunks.induct)
  case (1 reg off n)
  show ?case
  proof (cases "n = 0")
    case True
    then show ?thesis by (simp add: chunks.simps words_at_def)
  next
    case False
    then show ?thesis
      using 1 words_at_split [of "min 511 n" n p reg off] by (simp add: chunks.simps [of reg off n] desc_writes_def)
  qed
qed

lemma put_descriptor:
  assumes "k + 12 \<le> length p"
  shows "mt6878_cq_put64 (mt6878_cq_put32 p k c) (k + 4) v = blit p k (put32 c @ put_le64 v)"
  using assms by (simp add: put32_bytes put64_bytes blit_blit_adjacent)

lemma descriptors_loop_result:
  assumes "unat head + 12 * length (chunks reg off (unat left)) \<le> length p" and "4 * unat left < 2 ^ 32"
    and "value_iova = io + of_nat off" and "length p < 2 ^ 32"
  shows "descriptors_loop reg value_iova left head p =
    (head + of_nat (12 * length (chunks reg off (unat left))), blit p (unat head) (concat (map (desc_bytes io) (chunks reg off (unat left)))))"
  using assms
proof (induction reg value_iova left head p arbitrary: off rule: descriptors_loop.induct)
  case (1 reg value_iova left head p)
  show ?case
  proof (cases "left = 0")
    case True
    then show ?thesis by (simp add: descriptors_loop.simps [of reg] chunks.simps [of reg off 0])
  next
    case False
    define n where "n = (if left > MT6878_CQ_MAX_WORDS then MT6878_CQ_MAX_WORDS else left)"
    have n: "unat n = min 511 (unat left)" "n \<le> left"
      by (auto simp: n_def MT6878_CQ_MAX_WORDS_def word_less_nat_alt word_le_nat_alt)
    have n4: "unat (n * 4) = 4 * unat n" using n 1(3) by (simp add: unat_mult_lem [THEN iffD1])
    have nn: "n * 4 = of_nat (4 * min 511 (unat left))" "(ucast (n * 4) :: u64) = of_nat (4 * min 511 (unat left))"
      using n(1) n4 by (metis of_nat_unat ucast_id, metis of_nat_unat)
    let ?rest = "chunks (reg + n * 4) (off + 4 * min 511 (unat left)) (unat (left - n))"
    let ?p = "blit p (unat head) (put32 (cq_command reg n) @ put_le64 value_iova)"
    have rest: "chunks reg off (unat left) = (reg, off, unat n) # ?rest"
      using False n nn by (simp add: chunks.simps [of reg off "unat left"] unat_sub unat_gt_0)
    have fits: "unat head + 12 * Suc (length ?rest) \<le> length p" using 1(2) by (simp add: rest)
    have head: "unat (head + MT6878_CQ_DESC_BYTES) = unat head + 12"
      using fits 1(5) by (simp add: MT6878_CQ_DESC_BYTES_def unat_add_lem [THEN iffD1])
    have put: "mt6878_cq_put64 (mt6878_cq_put32 p (unat head) (cq_command reg n)) (unat head + 4) value_iova = ?p"
      using fits by (intro put_descriptor) simp
    have "descriptors_loop reg value_iova left head p =
        descriptors_loop (reg + n * 4) (value_iova + ucast (n * 4)) (left - n) (head + MT6878_CQ_DESC_BYTES) ?p"
      using False fits by (simp add: descriptors_loop.simps [of reg] n_def [symmetric] Let_def put)
    also have "\<dots> = (head + MT6878_CQ_DESC_BYTES + of_nat (12 * length ?rest),
        blit ?p (unat (head + MT6878_CQ_DESC_BYTES)) (concat (map (desc_bytes io) ?rest)))"
      using 1(3-5) fits n nn head False
      by (intro 1(1) [OF False n_def refl refl, unfolded put]) (simp_all add: unat_sub)
    also have "\<dots> = (head + of_nat (12 * length (chunks reg off (unat left))),
        blit p (unat head) (concat (map (desc_bytes io) (chunks reg off (unat left)))))"
      using fits 1(4) by (simp add: rest head [unfolded MT6878_CQ_DESC_BYTES_def] blit_blit_adjacent desc_bytes_def MT6878_CQ_DESC_BYTES_def)
    finally show ?thesis .
  qed
qed

section \<open>The invariant of a queue\<close>

definition cq_program :: "mt6878_ccd_cq \<Rightarrow> desc list \<Rightarrow> (u32 \<times> u32) list" where
  "cq_program cq ds = concat (map (desc_writes (contents (cq_mem cq))) ds)"

text \<open>
  The front of the buffer holds the descriptors \<open>ds\<close>, their values lie behind the tail, and
  there is room for END until it is written.
\<close>

definition cq_ok :: "mt6878_ccd_cq \<Rightarrow> desc list \<Rightarrow> bool" where
  "cq_ok cq ds \<longleftrightarrow> cq_mem cq \<noteq> Null \<and> length (contents (cq_mem cq)) = unat (capacity cq) \<and>
     unat (iova cq) + unat (capacity cq) \<le> 2 ^ 34 \<and>
     0x1a000000 \<le> unat (reg_base cq) \<and> unat (reg_base cq) + unat (reg_size cq) \<le> 0x1a200000 \<and>
     unat (cq_head cq) = 12 * length ds + (if finished cq = 0 then 0 else 12) \<and>
     12 * length ds + 12 \<le> unat (cq_tail cq) \<and> unat (cq_tail cq) \<le> unat (capacity cq) \<and> 12 * length ds + 12 \<le> 65535 \<and>
     list_all (desc_ok (unat (cq_tail cq)) (unat (capacity cq))) ds \<and>
     take (12 * length ds) (contents (cq_mem cq)) = concat (map (desc_bytes (iova cq)) ds) \<and>
     (finished cq = 0 \<or> ds \<noteq> [] \<and> le32 (drop (12 * length ds) (contents (cq_mem cq))) = MT6878_CQ_END)"

lemma unat_of_nat_u64: "n < 2 ^ 64 \<Longrightarrow> unat (of_nat n :: u64) = n"
  by (simp add: unsigned_of_nat take_bit_nat_eq_self)

lemma desc_engine:
  assumes "desc_ok tail cap d" and "cap < 2 ^ 32" and "take 12 (drop h p) = desc_bytes io d"
  shows "cq_engine (Suc n) p io h = map_option ((@) (desc_writes p d)) (cq_engine n p io (h + 12))"
proof -
  obtain reg off m where d: "d = (reg, off, m)" by (metis prod.exhaust)
  note ok = assms(1) [unfolded d desc_ok_def prod.case]
  obtain rest where r: "drop h p = put32 (cq_command reg (of_nat m)) @ put_le64 (io + of_nat off) @ rest"
    using assms(3) append_take_drop_id [of 12 "drop h p"] by (simp add: d desc_bytes_def) metis
  have c: "le32 (drop h p) = cq_command reg (of_nat m)" by (simp add: r)
  have "drop (h + 4) p = put_le64 (io + of_nat off) @ rest" using r by (metis add.commute append_eq_conv_conj drop_drop length_put32)
  then have a: "get_le64 (drop (h + 4) p) = io + of_nat off" using le64_take [of "drop (h + 4) p" "io + of_nat off"] by simp
  have "unat (io + of_nat off - io) = off" using ok assms(2) by (simp add: unat_of_nat_u64)
  then show ?thesis
    using ok command_words [of m reg] command_register [of m reg] by (simp add: c a Let_def d desc_writes_def)
qed

lemma descs_engine:
  assumes "list_all (desc_ok tail cap) ds" and "cap < 2 ^ 32"
    and "take (12 * length ds) (drop h p) = concat (map (desc_bytes io) ds)" and "le32 (drop (h + 12 * length ds) p) = MT6878_CQ_END"
  shows "cq_engine (Suc (length ds)) p io h = Some (concat (map (desc_writes p) ds))"
  using assms
proof (induction ds arbitrary: h)
  case (Cons d ds)
  have t: "take 12 (drop h p) = desc_bytes io d" "take (12 * length ds) (drop (h + 12) p) = concat (map (desc_bytes io) ds)"
  proof -
    have "take (12 + 12 * length ds) (drop h p) = take 12 (drop h p) @ take (12 * length ds) (drop (h + 12) p)"
      by (simp add: take_add add.commute)
    then have e: "take 12 (drop h p) @ take (12 * length ds) (drop (h + 12) p) = desc_bytes io d @ concat (map (desc_bytes io) ds)"
      using Cons.prems(3) by simp
    have "length (take (12 + 12 * length ds) (drop h p)) = 12 + 12 * length ds"
      using arg_cong [OF Cons.prems(3), of length] by (simp add: length_concat comp_def sum_list_triv)
    then have "12 \<le> length (drop h p)" by simp
    then have "length (take 12 (drop h p)) = length (desc_bytes io d)" by simp
    with e show "take 12 (drop h p) = desc_bytes io d" "take (12 * length ds) (drop (h + 12) p) = concat (map (desc_bytes io) ds)"
      by (simp_all add: append_eq_append_conv)
  qed
  have "cq_engine (Suc (length ds)) p io (h + 12) = Some (concat (map (desc_writes p) ds))"
    using Cons.prems t(2) by (intro Cons.IH) (simp_all add: algebra_simps)
  then show ?case using desc_engine [OF _ Cons.prems(2) t(1), of tail "Suc (length ds)"] Cons.prems(1) by simp
qed (simp add: Let_def)

section \<open>Appending values\<close>

text \<open>The admission test of \<open>mt6878_ccd_cq_values\<close>, without wrap-around.\<close>

definition values_fit :: "mt6878_ccd_cq \<Rightarrow> u32 \<Rightarrow> nat \<Rightarrow> bool" where
  "values_fit cq reg n \<longleftrightarrow> unat (reg_base cq) \<le> unat reg \<and> unat reg + 4 * n \<le> unat (reg_base cq) + unat (reg_size cq) \<and>
     unat (cq_head cq) + 12 * ((n + 510) div 511) + 12 + 4 * n \<le> unat (cq_tail cq) \<and>
     unat (cq_head cq) + 12 * ((n + 510) div 511) + 12 \<le> 65535"

lemma register_test:
  fixes reg :: u32
  assumes "unat base + unat sz \<le> 0x1a200000"
  shows "\<not> (reg < base \<or> reg - base \<ge> sz \<or> count > (sz - (reg - base)) div 4) \<and> count \<noteq> 0 \<longleftrightarrow>
    count \<noteq> 0 \<and> unat base \<le> unat reg \<and> unat reg + 4 * unat count \<le> unat base + unat sz"
proof (cases "unat base \<le> unat reg \<and> unat reg - unat base < unat sz")
  case True
  then have le: "base \<le> reg" by (simp add: word_le_nat_alt)
  have d: "unat (reg - base) = unat reg - unat base" using unat_sub [OF le] .
  then have "reg - base \<le> sz" using True by (simp add: word_le_nat_alt)
  then have e: "unat (sz - (reg - base)) = unat sz - (unat reg - unat base)" using d by (simp add: unat_sub)
  have "count > (sz - (reg - base)) div 4 \<longleftrightarrow> \<not> unat reg + 4 * unat count \<le> unat base + unat sz"
    using True by (simp add: word_less_nat_alt unat_div e) linarith
  then show ?thesis using True le d by (auto simp: word_less_nat_alt word_le_nat_alt)
next
  case False
  have "reg < base \<or> reg - base \<ge> sz"
  proof (cases "reg < base")
    case f: False
    then have le: "base \<le> reg" by simp
    then show ?thesis using False unat_sub [OF le] by (auto simp: word_le_nat_alt)
  qed simp
  moreover have "unat reg + 4 * unat count \<le> unat base + unat sz \<Longrightarrow> unat base \<le> unat reg \<Longrightarrow> count = 0"
  proof -
    assume "unat reg + 4 * unat count \<le> unat base + unat sz" "unat base \<le> unat reg"
    then have "unat count = 0" using False by linarith
    then show "count = 0" by (simp only: unsigned_eq_0_iff)
  qed
  ultimately show ?thesis by blast
qed

lemma space_test:
  fixes head tail count :: u32
  assumes "unat count \<le> 0x80000" and "unat head \<le> 65535"
  shows "\<not> (head > tail \<or> count * 4 > tail - head \<or>
      (count + MT6878_CQ_MAX_WORDS - 1) div MT6878_CQ_MAX_WORDS * MT6878_CQ_DESC_BYTES + MT6878_CQ_DESC_BYTES > tail - head - count * 4 \<or>
      head + (count + MT6878_CQ_MAX_WORDS - 1) div MT6878_CQ_MAX_WORDS * MT6878_CQ_DESC_BYTES + MT6878_CQ_DESC_BYTES > 65535) \<longleftrightarrow>
    unat head + 12 * ((unat count + 510) div 511) + 12 + 4 * unat count \<le> unat tail \<and>
    unat head + 12 * ((unat count + 510) div 511) + 12 \<le> 65535"
proof -
  let ?d = "(count + MT6878_CQ_MAX_WORDS - 1) div MT6878_CQ_MAX_WORDS * MT6878_CQ_DESC_BYTES"
  have c4: "unat (count * 4) = 4 * unat count" using assms(1) by (simp add: unat_mult_lem [THEN iffD1])
  have "unat (count + 511 - 1) = unat count + 510"
  proof -
    have "unat (count + 511) = unat count + 511" using assms(1) by (simp add: unat_add_lem [THEN iffD1])
    moreover from this have "1 \<le> count + 511" by (simp add: word_le_nat_alt)
    ultimately show ?thesis using unat_sub [of 1 "count + 511"] by simp
  qed
  then have q: "unat ((count + 511 - 1) div 511) = (unat count + 510) div 511" by (simp add: unat_div)
  have qb: "(unat count + 510) div 511 \<le> 1027" using assms(1) by simp
  have d: "unat ?d = 12 * ((unat count + 510) div 511)"
    using q qb by (simp add: MT6878_CQ_MAX_WORDS_def MT6878_CQ_DESC_BYTES_def unat_mult_lem [THEN iffD1])
  then have d12: "unat (?d + MT6878_CQ_DESC_BYTES) = 12 * ((unat count + 510) div 511) + 12"
    using qb by (simp add: MT6878_CQ_DESC_BYTES_def unat_add_lem [THEN iffD1])
  have hd: "unat (head + ?d + MT6878_CQ_DESC_BYTES) = unat head + 12 * ((unat count + 510) div 511) + 12"
    using d12 qb assms(2) by (simp add: add.assoc unat_add_lem [THEN iffD1])
  show ?thesis
  proof (cases "unat head + 4 * unat count \<le> unat tail")
    case True
    then have th: "unat (tail - head) = unat tail - unat head" by (simp add: unat_sub word_le_nat_alt)
    then have "unat (tail - head - count * 4) = unat tail - unat head - 4 * unat count"
      using True c4 by (simp add: unat_sub word_le_nat_alt)
    then show ?thesis using True th c4 d12 hd by (auto simp: word_less_nat_alt not_less)
  next
    case False
    have "head > tail \<or> count * 4 > tail - head"
    proof (cases "head > tail")
      case f: False
      then have "head \<le> tail" by simp
      from unat_sub [OF this] show ?thesis using False c4 by (simp add: word_less_nat_alt) linarith
    qed simp
    then show ?thesis using False by linarith
  qed
qed

lemma desc_ok_mono: "desc_ok t cap d \<Longrightarrow> s \<le> t \<Longrightarrow> desc_ok s cap d"
  by (auto simp: desc_ok_def)

lemma chunks_ok:
  assumes "0x1a000000 \<le> unat reg" and "unat reg + 4 * n \<le> 0x1a200000" and "tail \<le> off" and "off + 4 * n \<le> cap"
  shows "list_all (desc_ok tail cap) (chunks reg off n)"
  using assms
proof (induction reg off n rule: chunks.induct)
  case (1 reg off n)
  show ?case
  proof (cases "n = 0")
    case False
    have u: "unat (of_nat (4 * min 511 n) :: u32) = 4 * min 511 n" by (rule unat_of_nat_u32) simp
    then have r: "unat (reg + of_nat (4 * min 511 n)) = unat reg + 4 * min 511 n"
      using 1(3) by (subst unat_add_lem [THEN iffD1]) simp_all
    have "list_all (desc_ok tail cap) (chunks (reg + of_nat (4 * min 511 n)) (off + 4 * min 511 n) (n - min 511 n))"
      using 1(2-5) by (intro 1(1) [OF False]) (auto simp: r simp del: of_nat_mult of_nat_numeral)
    moreover have "desc_ok tail cap (reg, off, min 511 n)" using False 1(2-5) by (auto simp: desc_ok_def)
    ultimately show ?thesis using False by (simp add: chunks.simps [of reg off n])
  qed (simp add: chunks.simps)
qed

lemma desc_writes_cong:
  assumes "desc_ok tail cap d" and "length p = cap" and "length q = cap" and "\<And>i. tail \<le> i \<Longrightarrow> i < cap \<Longrightarrow> p ! i = q ! i"
  shows "desc_writes p d = desc_writes q d"
  using assms words_at_cong [of _ _ p q] by (auto simp: desc_writes_def desc_ok_def split: prod.splits)

lemma fail_result:
  "e \<noteq> 0 \<Longrightarrow> \<exists>err. mt6878_cq_fail e cq = (err, cq\<lparr> cq_first_error := err \<rparr>) \<and> err \<noteq> 0 \<and> (cq_first_error cq \<noteq> 0 \<longrightarrow> err = cq_first_error cq)"
  by (auto simp: mt6878_cq_fail_def Let_def)

lemma values_cases:
  assumes ok: "cq_ok cq ds" and run: "mt6878_ccd_cq_values reg values count cq = (ret, cq')"
  shows "ret \<noteq> 0 \<and> (\<exists>e. cq' = cq\<lparr> cq_first_error := e \<rparr> \<and> (finished cq = 0 \<longrightarrow> e \<noteq> 0)) \<or>
    ret = 0 \<and> cq_first_error cq = 0 \<and> finished cq = 0 \<and> values \<noteq> Null \<and> values_fit cq reg (unat count) \<and>
    (let offset = cq_tail cq - count * 4;
         (head, p) = descriptors_loop reg (iova cq + ucast offset) count (cq_head cq)
           (store_values offset (take (unat count) (contents values)) (contents (cq_mem cq)))
     in cq' = cq\<lparr> cq_mem := store (cq_mem cq) p, cq_head := head, cq_tail := offset \<rparr>)"
proof -
  note o = ok [unfolded cq_ok_def]
  let ?rng = "values = Null \<or> count = 0 \<or> reg AND 3 \<noteq> 0 \<or> reg < reg_base cq \<or> reg - reg_base cq \<ge> reg_size cq \<or>
             count > (reg_size cq - (reg - reg_base cq)) div 4"
  let ?space = "cq_head cq > cq_tail cq \<or> count * 4 > cq_tail cq - cq_head cq \<or>
      (count + MT6878_CQ_MAX_WORDS - 1) div MT6878_CQ_MAX_WORDS * MT6878_CQ_DESC_BYTES + MT6878_CQ_DESC_BYTES > cq_tail cq - cq_head cq - count * 4 \<or>
      cq_head cq + (count + MT6878_CQ_MAX_WORDS - 1) div MT6878_CQ_MAX_WORDS * MT6878_CQ_DESC_BYTES + MT6878_CQ_DESC_BYTES > 65535"
  let ?clash = "values_alias (address values) (address (cq_mem cq)) (capacity cq) (count * 4)"
  have keep: "\<exists>e. cq = cq\<lparr> cq_first_error := e \<rparr> \<and> (finished cq = 0 \<longrightarrow> e \<noteq> 0)" if "cq_first_error cq \<noteq> 0 \<or> finished cq \<noteq> 0"
    using that by (intro exI [of _ "cq_first_error cq"]) auto
  consider "cq_first_error cq \<noteq> 0" | "cq_first_error cq = 0" "finished cq \<noteq> 0"
    | "cq_first_error cq = 0" "finished cq = 0" "?rng"
    | "cq_first_error cq = 0" "finished cq = 0" "\<not> ?rng" "?space"
    | "cq_first_error cq = 0" "finished cq = 0" "\<not> ?rng" "\<not> ?space" "?clash"
    | "cq_first_error cq = 0" "finished cq = 0" "\<not> ?rng" "\<not> ?space" "\<not> ?clash"
    by blast
  then show ?thesis
  proof cases
    case 1
    then have "ret \<noteq> 0" "cq' = cq" using run o by (auto simp: mt6878_ccd_cq_values_def)
    then show ?thesis using keep 1 by blast
  next
    case 2
    then have "ret \<noteq> 0" "cq' = cq" using run o by (auto simp: mt6878_ccd_cq_values_def)
    then show ?thesis using keep 2 by blast
  next
    case 3
    then have "mt6878_cq_fail (- ERANGE) cq = (ret, cq')" using run o unfolding mt6878_ccd_cq_values_def by simp
    then show ?thesis using fail_result [of "- ERANGE" cq] by auto
  next
    case 4
    then have "mt6878_cq_fail (- ENOSPC) cq = (ret, cq')"
      using run o unfolding mt6878_ccd_cq_values_def if_not_P [OF 4(3)] Let_def if_P [OF 4(4)] by simp
    then show ?thesis using fail_result [of "- ENOSPC" cq] by auto
  next
    case 5
    then have "mt6878_cq_fail (- EINVAL) cq = (ret, cq')"
      using run o unfolding mt6878_ccd_cq_values_def if_not_P [OF 5(3)] Let_def if_not_P [OF 5(4)] if_P [OF 5(5)] by simp
    then show ?thesis using fail_result [of "- EINVAL" cq] by auto
  next
    case 6
    have reg: "unat (reg_base cq) \<le> unat reg" "unat reg + 4 * unat count \<le> unat (reg_base cq) + unat (reg_size cq)"
      using register_test [of "reg_base cq" "reg_size cq" reg count] o 6(3) by auto
    then have c: "unat count \<le> 0x80000" using o by linarith
    have h: "unat (cq_head cq) \<le> 65535" using o 6(2) by simp
    have "values_fit cq reg (unat count)" using space_test [OF c h, of "cq_tail cq"] 6(4) reg by (simp only: values_fit_def simp_thms)
    then show ?thesis
      using run o 6(1-3) unfolding mt6878_ccd_cq_values_def if_not_P [OF 6(3)] Let_def if_not_P [OF 6(4)] if_not_P [OF 6(5)]
      by (auto split: prod.splits)
  qed
qed

text \<open>The buffer after an accepted call: the values below the tail, the descriptors after the head.\<close>

lemma values_buffer:
  assumes ok: "cq_ok cq ds" and live: "finished cq = 0" and fit: "values_fit cq reg (unat count)" and n: "unat count \<le> length vs"
  defines "off \<equiv> unat (cq_tail cq) - 4 * unat count"
  defines "es \<equiv> chunks reg off (unat count)"
  defines "q \<equiv> blit (contents (cq_mem cq)) off (value_bytes (take (unat count) vs))"
  shows "unat (cq_tail cq - count * 4) = off"
    and "descriptors_loop reg (iova cq + ucast (cq_tail cq - count * 4)) count (cq_head cq)
        (store_values (cq_tail cq - count * 4) (take (unat count) vs) (contents (cq_mem cq))) =
      (cq_head cq + of_nat (12 * length es), blit q (unat (cq_head cq)) (concat (map (desc_bytes (iova cq)) es)))"
    and "unat (cq_head cq + of_nat (12 * length es)) = 12 * (length ds + length es)"
    and "12 * (length ds + length es) + 12 \<le> off" and "length q = unat (capacity cq)"
proof -
  note o = ok [unfolded cq_ok_def] and f = fit [unfolded values_fit_def]
  have cap: "unat (capacity cq) < 2 ^ 32" using unsigned_less [of "capacity cq", where ?'a = nat] by simp
  have len: "length es = (unat count + 510) div 511" unfolding es_def by (rule length_chunks)
  have "4 * unat count < 2 ^ 32" using f o cap by linarith
  then have c4: "unat (count * 4) = 4 * unat count" by (simp add: unat_mult_lem [THEN iffD1])
  show off: "unat (cq_tail cq - count * 4) = off"
    using f c4 by (simp add: off_def unat_sub word_le_nat_alt)
  have bound: "off + 4 * unat count \<le> unat (capacity cq)" using f o by (simp add: off_def)
  have store: "store_values (cq_tail cq - count * 4) (take (unat count) vs) (contents (cq_mem cq)) = q"
    unfolding q_def using off bound n o cap by (subst store_values_result) (simp_all add: min_absorb2)
  show lq: "length q = unat (capacity cq)" unfolding q_def using o n bound by (simp add: min_absorb2)
  have head: "unat (cq_head cq) = 12 * length ds" using o live by simp
  show room: "12 * (length ds + length es) + 12 \<le> off" using f head len by (simp add: off_def) linarith
  then have fits: "unat (cq_head cq) + 12 * length es \<le> length q" using head lq bound by simp
  have io: "iova cq + ucast (cq_tail cq - count * 4) = iova cq + of_nat off" using off by (metis of_nat_unat)
  show "descriptors_loop reg (iova cq + ucast (cq_tail cq - count * 4)) count (cq_head cq)
      (store_values (cq_tail cq - count * 4) (take (unat count) vs) (contents (cq_mem cq))) =
      (cq_head cq + of_nat (12 * length es), blit q (unat (cq_head cq)) (concat (map (desc_bytes (iova cq)) es)))"
    unfolding store es_def using fits lq cap \<open>4 * unat count < 2 ^ 32\<close>
    by (intro descriptors_loop_result [OF _ _ io]) (simp_all add: es_def)
  have "unat (of_nat (12 * length es) :: u32) = 12 * length es" by (rule unat_of_nat_u32) (use fits lq cap in linarith)
  then show "unat (cq_head cq + of_nat (12 * length es)) = 12 * (length ds + length es)"
    using head fits lq cap by (subst unat_add_lem [THEN iffD1]) simp_all
qed

lemma length_concat_desc [simp]: "length (concat (map (desc_bytes io) es)) = 12 * length es"
  by (induction es) simp_all

lemma values_appends:
  assumes ok: "cq_ok cq ds" and run: "mt6878_ccd_cq_values reg values count cq = (0, cq')" and n: "unat count \<le> length (contents values)"
  shows "\<exists>es. cq_ok cq' (ds @ es) \<and> length es = (unat count + 510) div 511 \<and> cq_first_error cq' = 0 \<and> finished cq' = 0 \<and>
    unat (cq_tail cq') = unat (cq_tail cq) - 4 * unat count \<and> reg_base cq' = reg_base cq \<and> reg_size cq' = reg_size cq \<and>
    capacity cq' = capacity cq \<and> iova cq' = iova cq \<and> address (cq_mem cq') = address (cq_mem cq) \<and>
    cq_program cq' (ds @ es) = cq_program cq ds @ map (\<lambda>j. (reg + of_nat (4 * j), contents values ! j)) [0 ..< unat count]"
proof -
  define off where "off = unat (cq_tail cq) - 4 * unat count"
  let ?vs = "take (unat count) (contents values)"
  let ?es = "chunks reg off (unat count)" and ?p = "contents (cq_mem cq)"
  let ?q = "blit ?p off (value_bytes ?vs)"
  let ?r = "blit ?q (unat (cq_head cq)) (concat (map (desc_bytes (iova cq)) ?es))"
  have live: "cq_first_error cq = 0" "finished cq = 0" and fit: "values_fit cq reg (unat count)"
    using values_cases [OF ok run] by (auto simp: Let_def)
  note b = values_buffer [OF ok live(2) fit n, folded off_def] and o = ok [unfolded cq_ok_def] and f = fit [unfolded values_fit_def]
  have cq': "cq' = cq\<lparr> cq_mem := store (cq_mem cq) ?r, cq_head := cq_head cq + of_nat (12 * length ?es), cq_tail := cq_tail cq - count * 4 \<rparr>"
    using values_cases [OF ok run] by (simp add: Let_def b(2))
  have mem: "contents (store (cq_mem cq) ?r) = ?r" "store (cq_mem cq) ?r \<noteq> Null" "address (store (cq_mem cq) ?r) = address (cq_mem cq)"
    using o by (cases "cq_mem cq"; simp)+
  have head: "unat (cq_head cq) = 12 * length ds" using o live(2) by simp
  have cap: "unat (capacity cq) < 2 ^ 32" using unsigned_less [of "capacity cq", where ?'a = nat] by simp
  have lv: "length (value_bytes ?vs) = 4 * unat count" using n by (simp add: min_absorb2)
  have within: "off + 4 * unat count = unat (cq_tail cq)" "unat (cq_tail cq) \<le> length ?p" using f o by (auto simp: off_def)
  have lp: "length ?p = unat (capacity cq)" using o by simp
  have room: "unat (cq_head cq) + 12 * length ?es \<le> off" "off \<le> length ?q" using b(4,5) head within lp by simp_all
  have lr: "length ?r = unat (capacity cq)" using room b(5) by (subst length_blit) simp_all
  have same: "?r ! i = ?p ! i" if "unat (cq_tail cq) \<le> i" "i < unat (capacity cq)" for i
    using that b(5) room within lv lp by (simp add: nth_blit)
  have front: "take (12 * length (ds @ ?es)) ?r = concat (map (desc_bytes (iova cq)) (ds @ ?es))"
  proof -
    have "take (12 * length ds) ?q = take (12 * length ds) ?p" using b(4) within by (intro take_blit_before) simp_all
    then have "take (12 * length ds) ?q = concat (map (desc_bytes (iova cq)) ds)" using o by simp
    then show ?thesis
      using take_blit_prefix [of "12 * length ds" ?q "concat (map (desc_bytes (iova cq)) ?es)"] b(4,5) head within o
      by (simp add: algebra_simps)
  qed
  have descs: "list_all (desc_ok off (unat (capacity cq))) (ds @ ?es)"
  proof -
    have "off \<le> unat (cq_tail cq)" using within by linarith
    then have "list_all (desc_ok off (unat (capacity cq))) ds"
      using o by (auto elim!: list.pred_mono_strong intro: desc_ok_mono)
    moreover have "list_all (desc_ok off (unat (capacity cq))) ?es"
      using o f within lp by (intro chunks_ok) linarith+
    ultimately show ?thesis by simp
  qed
  have old: "concat (map (desc_writes ?r) ds) = concat (map (desc_writes ?p) ds)"
  proof -
    have "desc_writes ?r d = desc_writes ?p d" if "d \<in> set ds" for d
      using desc_writes_cong [of "unat (cq_tail cq)" "unat (capacity cq)" d ?r ?p] that o lr same by (simp add: list_all_iff)
    then show ?thesis by (simp cong: map_cong)
  qed
  have new: "concat (map (desc_writes ?r) ?es) = map (\<lambda>j. (reg + of_nat (4 * j), contents values ! j)) [0 ..< unat count]"
  proof -
    have "words_at ?r reg off (unat count) = words_at ?q reg off (unat count)"
      using lr b(5) room within lp by (intro words_at_cong) (simp_all add: nth_blit)
    also have "\<dots> = map (\<lambda>j. (reg + of_nat (4 * j), contents values ! j)) [0 ..< unat count]"
      using words_at_stored [of off ?vs ?p reg] within n by (simp add: min_absorb2)
    finally show ?thesis by (simp add: chunks_writes)
  qed
  have "off \<le> unat (capacity cq)" using within lp by linarith
  then have "cq_ok cq' (ds @ ?es)"
    using o live b(1,3,4) descs front mem lr f length_chunks [of reg off "unat count"] head unfolding cq_ok_def cq' by (simp add: algebra_simps)
  then show ?thesis
    using live b(1) mem old new cq' length_chunks [of reg off "unat count"]
    by (intro exI [of _ ?es]) (simp add: cq_program_def off_def)
qed

lemma values_succeed:
  assumes ok: "cq_ok cq ds" and live: "cq_first_error cq = 0" "finished cq = 0"
    and arg: "values \<noteq> Null" "count \<noteq> 0" "reg AND 3 = 0" "values_fit cq reg (unat count)"
    and apart: "\<not> values_alias (address values) (address (cq_mem cq)) (capacity cq) (count * 4)"
  shows "fst (mt6878_ccd_cq_values reg values count cq) = 0"
proof -
  note o = ok [unfolded cq_ok_def] and f = arg(4) [unfolded values_fit_def]
  have "\<not> (reg < reg_base cq \<or> reg - reg_base cq \<ge> reg_size cq \<or> count > (reg_size cq - (reg - reg_base cq)) div 4)"
    using register_test [of "reg_base cq" "reg_size cq" reg count] o f arg(2) by blast
  moreover have "unat count \<le> 0x80000" "unat (cq_head cq) \<le> 65535" using o f by linarith+
  note space_test [OF this, of "cq_tail cq"]
  ultimately show ?thesis
    unfolding mt6878_ccd_cq_values_def Let_def using o f live arg(1-3) apart by (simp split: prod.splits)
qed

text \<open>A series of one-word appends, each from the address of a local variable.\<close>

definition append_words :: "(u32 \<times> u64 \<times> u32) list \<Rightarrow> mt6878_ccd_cq action" where
  "append_words ws = chain (map (\<lambda>(reg, src, v). mt6878_ccd_cq_values reg (At src [v]) 1) ws)"

lemma append_words_succeed:
  assumes "cq_ok cq ds" and "cq_first_error cq = 0" "finished cq = 0"
    and "\<And>reg src v. (reg, src, v) \<in> set ws \<Longrightarrow> reg AND 3 = 0 \<and> unat (reg_base cq) \<le> unat reg \<and>
      unat reg + 4 \<le> unat (reg_base cq) + unat (reg_size cq) \<and> \<not> values_alias src (address (cq_mem cq)) (capacity cq) 4"
    and "12 * length ds + 16 * length ws + 12 \<le> unat (cq_tail cq)" and "12 * length ds + 12 * length ws + 12 \<le> 65535"
  shows "\<exists>cq' es. append_words ws cq = (0, cq') \<and> cq_ok cq' (ds @ es) \<and> length es = length ws \<and> cq_first_error cq' = 0 \<and>
    finished cq' = 0 \<and> unat (cq_tail cq') = unat (cq_tail cq) - 4 * length ws \<and> capacity cq' = capacity cq \<and> iova cq' = iova cq \<and>
    cq_program cq' (ds @ es) = cq_program cq ds @ map (\<lambda>(reg, src, v). (reg, v)) ws"
  using assms
proof (induction ws arbitrary: cq ds)
  case Nil
  then show ?case by (intro exI [of _ cq] exI [of _ "[]"]) (simp add: append_words_def)
next
  case (Cons w ws)
  obtain reg src v where w: "w = (reg, src, v)" by (metis prod.exhaust)
  note p = Cons.prems(4) [of reg src v, unfolded w, simplified]
  have head: "unat (cq_head cq) = 12 * length ds" using Cons.prems(1,3) by (simp add: cq_ok_def)
  have "values_fit cq reg (unat (1 :: u32))" using p Cons.prems(5,6) head by (simp add: values_fit_def)
  then have "fst (mt6878_ccd_cq_values reg (At src [v]) 1 cq) = 0"
    using p Cons.prems(1-3) by (intro values_succeed) simp_all
  then obtain cq1 where run: "mt6878_ccd_cq_values reg (At src [v]) 1 cq = (0, cq1)" by (metis prod.collapse)
  from values_appends [OF Cons.prems(1) run] obtain es where es: "cq_ok cq1 (ds @ es)" "length es = 1" "cq_first_error cq1 = 0"
      "finished cq1 = 0" "unat (cq_tail cq1) = unat (cq_tail cq) - 4" "reg_base cq1 = reg_base cq" "reg_size cq1 = reg_size cq"
      "capacity cq1 = capacity cq" "iova cq1 = iova cq" "address (cq_mem cq1) = address (cq_mem cq)"
      "cq_program cq1 (ds @ es) = cq_program cq ds @ [(reg, v)]"
    by auto
  have "\<exists>cq' fs. append_words ws cq1 = (0, cq') \<and> cq_ok cq' ((ds @ es) @ fs) \<and> length fs = length ws \<and> cq_first_error cq' = 0 \<and>
    finished cq' = 0 \<and> unat (cq_tail cq') = unat (cq_tail cq1) - 4 * length ws \<and> capacity cq' = capacity cq1 \<and> iova cq' = iova cq1 \<and>
    cq_program cq' ((ds @ es) @ fs) = cq_program cq1 (ds @ es) @ map (\<lambda>(reg, src, v). (reg, v)) ws"
  proof (rule Cons.IH [OF es(1,3,4)])
    show "12 * length (ds @ es) + 16 * length ws + 12 \<le> unat (cq_tail cq1)" using Cons.prems(5) es(2,5) by simp
    show "12 * length (ds @ es) + 12 * length ws + 12 \<le> 65535" using Cons.prems(6) es(2) by simp
  qed (use Cons.prems(4) es(6-8,10) in auto)
  then obtain cq' fs where fs: "append_words ws cq1 = (0, cq')" "cq_ok cq' (ds @ es @ fs)" "length fs = length ws" "cq_first_error cq' = 0"
      "finished cq' = 0" "unat (cq_tail cq') = unat (cq_tail cq1) - 4 * length ws" "capacity cq' = capacity cq1" "iova cq' = iova cq1"
      "cq_program cq' (ds @ es @ fs) = cq_program cq1 (ds @ es) @ map (\<lambda>(reg, src, v). (reg, v)) ws" by auto
  have "append_words (w # ws) cq = (0, cq')" using fs(1) run by (simp add: append_words_def w)
  then show ?case
    using fs es by (intro exI [of _ cq'] exI [of _ "es @ fs"]) (simp add: w)
qed

lemma values_apart:
  assumes ok: "cq_ok cq ds" and run: "mt6878_ccd_cq_values reg values count cq = (0, cq')"
  shows "\<not> values_alias (address values) (address (cq_mem cq)) (capacity cq) (count * 4)"
proof
  assume al: "values_alias (address values) (address (cq_mem cq)) (capacity cq) (count * 4)"
  show False using run ok al fail_result [of "- EINVAL" cq] fail_result [of "- ENOSPC" cq] fail_result [of "- ERANGE" cq]
    by (auto simp: mt6878_ccd_cq_values_def cq_ok_def Let_def split: if_splits)
qed

lemma append_words_apart:
  assumes "cq_ok cq ds" and "append_words ws cq = (0, cq')" and "(reg, src, v) \<in> set ws"
  shows "\<not> values_alias src (address (cq_mem cq)) (capacity cq) 4"
  using assms
proof (induction ws arbitrary: cq ds)
  case (Cons w ws)
  obtain r s x where w: "w = (r, s, x)" by (metis prod.exhaust)
  obtain ret cq1 where run: "mt6878_ccd_cq_values r (At s [x]) 1 cq = (ret, cq1)" by (metis prod.exhaust)
  have ret: "ret = 0" "append_words ws cq1 = (0, cq')"
    using Cons.prems(2) run by (auto simp: append_words_def w split: if_splits)
  have v: "mt6878_ccd_cq_values r (At s [x]) 1 cq = (0, cq1)" using run ret by simp
  have le: "unat (1 :: u32) \<le> length (contents (At s [x]))" by simp
  from values_appends [OF Cons.prems(1) v le] obtain es where es: "cq_ok cq1 (ds @ es)" "capacity cq1 = capacity cq"
      "address (cq_mem cq1) = address (cq_mem cq)" by blast
  show ?case
  proof (cases "(reg, src, v) = w")
    case True
    then show ?thesis using values_apart [OF Cons.prems(1) v] w by simp
  next
    case False
    then show ?thesis using Cons.IH [OF es(1) ret(2)] Cons.prems(3) es(2,3) by simp
  qed
qed simp

lemma append_words_refused:
  assumes "cq_ok cq ds" and "cq_first_error cq = 0" and "values_alias src (address (cq_mem cq)) (capacity cq) 4"
  shows "\<exists>ret cq' e. append_words ((reg, src, v) # ws) cq = (ret, cq') \<and> ret \<noteq> 0 \<and> cq' = cq\<lparr> cq_first_error := e \<rparr> \<and> (finished cq = 0 \<longrightarrow> e \<noteq> 0)"
proof -
  obtain ret cq' where run: "mt6878_ccd_cq_values reg (At src [v]) 1 cq = (ret, cq')" by (metis prod.exhaust)
  have "ret \<noteq> 0"
  proof
    assume "ret = 0"
    then show False using run assms fail_result [of "- EINVAL" cq] fail_result [of "- ENOSPC" cq] fail_result [of "- ERANGE" cq]
      by (auto simp: mt6878_ccd_cq_values_def cq_ok_def Let_def split: if_splits)
  qed
  then show ?thesis using values_cases [OF assms(1) run] run by (auto simp: append_words_def)
qed

section \<open>The frame cookie\<close>

lemma cookie_words:
  "chain (map (\<lambda>tag. mt6878_ccd_cq_values (reg + of_nat tag * 0x40) (At local [cookie]) 1) [0 ..< 8]) =
   append_words (map (\<lambda>tag. (reg + of_nat tag * 0x40, local, cookie)) [0 ..< 8])"
  by (simp add: append_words_def comp_def)

text \<open>The cookie goes to all eight tags or to none.\<close>

lemma and_3_mod: "(w :: u32) AND 3 = 0 \<longleftrightarrow> unat w mod 4 = 0"
proof -
  have "w AND 3 = take_bit 2 w" by (simp add: take_bit_eq_mask mask_eq_exp_minus_1)
  then have "w AND 3 = 0 \<longleftrightarrow> unat (take_bit 2 w) = 0" by (simp add: unsigned_eq_0_iff)
  then show ?thesis by (simp add: take_bit_eq_mod unat_mod)
qed

lemma cookie_register:
  assumes "unat (central_base :: u32) + 0x740 \<le> 0x1a200000" and "central_base AND 3 = 0" and "tag < 8"
  shows "unat (central_base + 0x57c + of_nat tag * 0x40) = unat central_base + 0x57c + 64 * tag"
    and "(central_base + 0x57c + of_nat tag * 0x40) AND 3 = 0"
proof -
  have "unat (of_nat (64 * tag + 0x57c) :: u32) = 64 * tag + 0x57c" by (rule unat_of_nat_u32) (use assms in simp)
  moreover have "central_base + 0x57c + of_nat tag * 0x40 = central_base + of_nat (64 * tag + 0x57c)" by simp
  ultimately show u: "unat (central_base + 0x57c + of_nat tag * 0x40) = unat central_base + 0x57c + 64 * tag"
    using assms(1,3) by (simp only: unat_add_lem [THEN iffD1]) (subst unat_add_lem [THEN iffD1], simp_all)
  show "(central_base + 0x57c + of_nat tag * 0x40) AND 3 = 0"
    using assms(2) unfolding and_3_mod u by presburger
qed

lemma cookie_cases:
  assumes ok: "cq_ok cq ds" and run: "mt6878_ccd_cq_frame_cookie local central_base session cookie cq = (ret, cq')"
  shows "ret \<noteq> 0 \<and> (\<exists>e. cq' = cq\<lparr> cq_first_error := e \<rparr> \<and> (finished cq = 0 \<longrightarrow> e \<noteq> 0)) \<or>
    ret = 0 \<and> (\<exists>es. cq_ok cq' (ds @ es) \<and> es \<noteq> [] \<and> iova cq' = iova cq \<and> cq_first_error cq' = 0 \<and> finished cq' = 0 \<and>
      cq_program cq' (ds @ es) = cq_program cq ds @ map (\<lambda>tag. (central_base + 0x57c + of_nat tag * 0x40, cookie)) [0 ..< 8])"
proof -
  note o = ok [unfolded cq_ok_def]
  let ?rng = "session > 3 \<or> drop_bit 24 cookie \<noteq> session \<or> central_base < reg_base cq \<or> central_base AND 3 \<noteq> 0 \<or>
             central_base - reg_base cq \<ge> reg_size cq \<or> reg_size cq - (central_base - reg_base cq) < 0x740"
  let ?space = "central_base + 0x57c + 7 * 0x40 < central_base + 0x57c \<or> cq_head cq > cq_tail cq \<or>
        cq_tail cq - cq_head cq < 8 * (MT6878_CQ_DESC_BYTES + 4) + MT6878_CQ_DESC_BYTES \<or>
        cq_head cq + 9 * MT6878_CQ_DESC_BYTES > 65535"
  let ?ws = "map (\<lambda>tag. (central_base + 0x57c + of_nat tag * 0x40, local, cookie)) [0 ..< 8]"
  have keep: "\<exists>e. cq = cq\<lparr> cq_first_error := e \<rparr> \<and> (finished cq = 0 \<longrightarrow> e \<noteq> 0)" if "cq_first_error cq \<noteq> 0 \<or> finished cq \<noteq> 0"
    using that by (intro exI [of _ "cq_first_error cq"]) auto
  consider "cq_first_error cq \<noteq> 0 \<or> finished cq \<noteq> 0" | "cq_first_error cq = 0" "finished cq = 0" "?rng"
    | "cq_first_error cq = 0" "finished cq = 0" "\<not> ?rng" "?space"
    | "cq_first_error cq = 0" "finished cq = 0" "\<not> ?rng" "\<not> ?space" by blast
  then show ?thesis
  proof cases
    case 1
    then have "ret \<noteq> 0" "cq' = cq" using run o by (auto simp: mt6878_ccd_cq_frame_cookie_def split: if_splits)
    then show ?thesis using keep [OF 1] by blast
  next
    case 2
    then have "mt6878_cq_fail (- ERANGE) cq = (ret, cq')" using run o unfolding mt6878_ccd_cq_frame_cookie_def by simp
    then show ?thesis using fail_result [of "- ERANGE" cq] by auto
  next
    case 3
    then have "mt6878_cq_fail (- ENOSPC) cq = (ret, cq')"
      using run o unfolding mt6878_ccd_cq_frame_cookie_def if_not_P [OF 3(3)] Let_def if_P [OF 3(4)] by simp
    then show ?thesis using fail_result [of "- ENOSPC" cq] by auto
  next
    case 4
    have go: "append_words ?ws cq = (ret, cq')"
      using run o 4(1,2) unfolding mt6878_ccd_cq_frame_cookie_def if_not_P [OF 4(3)] Let_def if_not_P [OF 4(4)] cookie_words by simp
    show ?thesis
    proof (cases "values_alias local (address (cq_mem cq)) (capacity cq) 4")
      case True
      let ?rest = "map (\<lambda>tag. (central_base + 0x57c + of_nat tag * 0x40, local, cookie)) [1 ..< 8]"
      have ws: "?ws = (central_base + 0x57c, local, cookie) # ?rest" by (simp add: upt_conv_Cons)
      from append_words_refused [OF ok 4(1) True, of "central_base + 0x57c" cookie ?rest] go [unfolded ws] show ?thesis by auto
    next
      case False
      have central: "unat (reg_base cq) \<le> unat central_base" "unat central_base + 0x740 \<le> unat (reg_base cq) + unat (reg_size cq)"
        "central_base AND 3 = 0"
      proof -
        have le: "reg_base cq \<le> central_base" using 4(3) by (simp add: not_less)
        then have d: "unat (central_base - reg_base cq) = unat central_base - unat (reg_base cq)" by (rule unat_sub)
        have lt: "central_base - reg_base cq < reg_size cq" using 4(3) by (simp add: not_le)
        then have "unat (reg_size cq - (central_base - reg_base cq)) = unat (reg_size cq) - (unat central_base - unat (reg_base cq))"
          using unat_sub [of "central_base - reg_base cq" "reg_size cq"] d by simp
        moreover have "0x740 \<le> unat (reg_size cq - (central_base - reg_base cq))" using 4(3) by (simp add: word_less_nat_alt)
        ultimately show "unat central_base + 0x740 \<le> unat (reg_base cq) + unat (reg_size cq)" using d le by (simp add: word_le_nat_alt)
        show "unat (reg_base cq) \<le> unat central_base" using le by (simp add: word_le_nat_alt)
        show "central_base AND 3 = 0" using 4(3) by blast
      qed
      have head: "unat (cq_head cq) = 12 * length ds" "cq_head cq \<le> cq_tail cq" using o 4(2,4) by (simp_all add: not_less)
      have "140 \<le> unat (cq_tail cq - cq_head cq)" using 4(4) by (simp add: word_less_nat_alt MT6878_CQ_DESC_BYTES_def)
      then have space: "12 * length ds + 140 \<le> unat (cq_tail cq)"
        using head unat_sub [OF head(2)] by (simp add: word_le_nat_alt)
      have "unat (cq_head cq + 108) = unat (cq_head cq) + 108" using o 4(2) by (simp add: unat_add_lem [THEN iffD1])
      then have lim: "12 * length ds + 108 \<le> 65535"
        using 4(4) head by (simp add: word_less_nat_alt MT6878_CQ_DESC_BYTES_def)
      have "\<exists>cq' es. append_words ?ws cq = (0, cq') \<and> cq_ok cq' (ds @ es) \<and> length es = length ?ws \<and> cq_first_error cq' = 0 \<and>
        finished cq' = 0 \<and> unat (cq_tail cq') = unat (cq_tail cq) - 4 * length ?ws \<and> capacity cq' = capacity cq \<and> iova cq' = iova cq \<and>
        cq_program cq' (ds @ es) = cq_program cq ds @ map (\<lambda>(reg, src, v). (reg, v)) ?ws"
      proof (rule append_words_succeed [OF ok 4(1,2)])
        fix reg src v
        assume "(reg, src, v) \<in> set ?ws"
        then obtain tag where t: "tag < 8" "reg = central_base + 0x57c + of_nat tag * 0x40" "src = local" by auto
        have b: "unat central_base + 0x740 \<le> 0x1a200000" using central o by linarith
        show "reg AND 3 = 0 \<and> unat (reg_base cq) \<le> unat reg \<and> unat reg + 4 \<le> unat (reg_base cq) + unat (reg_size cq) \<and>
            \<not> values_alias src (address (cq_mem cq)) (capacity cq) 4"
          using cookie_register [OF b central(3) t(1)] central t False by simp
      qed (use space lim in simp_all)
      then show ?thesis using go by (auto simp: comp_def)
    qed
  qed
qed

section \<open>Closing the queue\<close>

lemma finish_result:
  assumes ok: "cq_ok cq ds" and run: "mt6878_ccd_cq_finish db vs cq = (ret, db', vs', cq')"
  shows "if db \<noteq> Null \<and> vs \<noteq> Null \<and> cq_first_error cq = 0 \<and> finished cq = 0 \<and> ds \<noteq> []
    then ret = 0 \<and> contents db' = of_nat (12 * Suc (length ds)) \<and> contents vs' = cq_tail cq \<and> finished cq' = 1 \<and> cq_ok cq' ds \<and>
      cq_engine (Suc (length ds)) (contents (cq_mem cq')) (iova cq) 0 = Some (cq_program cq ds)
    else ret \<noteq> 0 \<and> db' = db \<and> vs' = vs \<and> (\<exists>e. cq' = cq\<lparr> cq_first_error := e \<rparr>)"
proof -
  note o = ok [unfolded cq_ok_def]
  let ?h = "unat (cq_head cq)" and ?p = "contents (cq_mem cq)"
  let ?q = "blit ?p ?h (put32 MT6878_CQ_END @ put_le64 0)"
  have keep: "\<exists>e. cq = cq\<lparr> cq_first_error := e \<rparr>" by (intro exI [of _ "cq_first_error cq"]) simp
  consider "db = Null \<or> vs = Null \<or> cq_first_error cq \<noteq> 0 \<or> finished cq \<noteq> 0"
    | "\<not> (db = Null \<or> vs = Null \<or> cq_first_error cq \<noteq> 0 \<or> finished cq \<noteq> 0)" "ds = []"
    | "\<not> (db = Null \<or> vs = Null \<or> cq_first_error cq \<noteq> 0 \<or> finished cq \<noteq> 0)" "ds \<noteq> []" by blast
  then show ?thesis
  proof cases
    case 1
    then have "ret \<noteq> 0" "db' = db" "vs' = vs" "cq' = cq" using run o by (auto simp: mt6878_ccd_cq_finish_def split: if_splits)
    then show ?thesis using keep 1 by auto
  next
    case 2
    then have "cq_head cq = 0" using o by (simp add: unsigned_eq_0_iff)
    then show ?thesis using run o 2 fail_result [of "- ENOSPC" cq] by (auto simp: mt6878_ccd_cq_finish_def)
  next
    case 3
    have head: "?h = 12 * length ds" "?h + 12 \<le> unat (cq_tail cq)" "unat (cq_tail cq) \<le> length ?p" using o 3 by auto
    have test: "\<not> (cq_head cq = 0 \<or> cq_head cq > cq_tail cq \<or> cq_tail cq - cq_head cq < MT6878_CQ_DESC_BYTES)"
    proof -
      have le: "cq_head cq \<le> cq_tail cq" using head by (simp add: word_le_nat_alt)
      have "0 < ?h" using head 3(2) by simp
      then show ?thesis using le head unat_sub [OF le] by (auto simp: word_less_nat_alt MT6878_CQ_DESC_BYTES_def)
    qed
    have put: "mt6878_cq_put64 (mt6878_cq_put32 ?p ?h MT6878_CQ_END) (?h + 4) 0 = ?q"
      using head by (intro put_descriptor) linarith
    let ?cq = "cq\<lparr> cq_mem := store (cq_mem cq) ?q, cq_head := cq_head cq + MT6878_CQ_DESC_BYTES, finished := 1 \<rparr>"
    have res: "ret = 0" "db' = store db (cq_head cq + MT6878_CQ_DESC_BYTES)" "vs' = store vs (cq_tail cq)" "cq' = ?cq"
      using run o 3(1) test unfolding mt6878_ccd_cq_finish_def Let_def put by (auto split: if_splits)
    have mem: "contents (store (cq_mem cq) ?q) = ?q" "store (cq_mem cq) ?q \<noteq> Null" using o by (cases "cq_mem cq"; simp)+
    have lq: "length ?q = unat (capacity cq)" using head o by (subst length_blit) simp_all
    have cap: "unat (capacity cq) < 2 ^ 32" using unsigned_less [of "capacity cq", where ?'a = nat] by simp
    have h12: "cq_head cq + MT6878_CQ_DESC_BYTES = of_nat (12 * Suc (length ds))"
    proof -
      have "cq_head cq = of_nat ?h" by simp
      then show ?thesis unfolding head(1) by (simp add: MT6878_CQ_DESC_BYTES_def)
    qed
    then have u12: "unat (cq_head cq + MT6878_CQ_DESC_BYTES) = 12 * length ds + 12"
      using head o cap by (simp only: h12) (subst unat_of_nat_u32, simp_all)
    have endmark: "le32 (drop (12 * length ds) ?q) = MT6878_CQ_END"
      using head by (simp add: blit_def)
    have front: "take (12 * length ds) ?q = concat (map (desc_bytes (iova cq)) ds)"
      using o head by (subst take_blit_before) simp_all
    have "desc_writes ?q d = desc_writes ?p d" if "d \<in> set ds" for d
    proof (rule desc_writes_cong [of "unat (cq_tail cq)" "unat (capacity cq)"])
      show "desc_ok (unat (cq_tail cq)) (unat (capacity cq)) d" using o that by (simp add: list_all_iff)
    qed (use o head lq in \<open>simp_all add: nth_blit\<close>)
    then have prog: "concat (map (desc_writes ?q) ds) = cq_program cq ds" by (simp add: cq_program_def cong: map_cong)
    have "cq_engine (Suc (length ds)) ?q (iova cq) 0 = Some (concat (map (desc_writes ?q) ds))"
      using o cap front endmark by (intro descs_engine [of "unat (cq_tail cq)" "unat (capacity cq)"]) simp_all
    moreover have "cq_ok ?cq ds"
      using o mem lq u12 endmark front 3(2) unfolding cq_ok_def by simp
    moreover have "contents (store db (cq_head cq + MT6878_CQ_DESC_BYTES)) = cq_head cq + MT6878_CQ_DESC_BYTES"
        "contents (store vs (cq_tail cq)) = cq_tail cq" using 3(1) by (simp_all add: contents_store)
    ultimately show ?thesis using 3 res mem prog h12 by simp
  qed
qed

section \<open>Sequences of calls\<close>

datatype cq_call = Values u32 u64 "u32 list" | Frame_cookie u64 u32 u32 u32

fun cq_step :: "cq_call \<Rightarrow> mt6878_ccd_cq \<Rightarrow> mt6878_ccd_cq \<times> int" where
  "cq_step (Values reg src vs) cq = prod.swap (mt6878_ccd_cq_values reg (At src vs) (of_nat (length vs)) cq)"
| "cq_step (Frame_cookie local central_base session cookie) cq =
    prod.swap (mt6878_ccd_cq_frame_cookie local central_base session cookie cq)"

text \<open>The register writes a call stands for.\<close>

fun call_writes :: "cq_call \<Rightarrow> (u32 \<times> u32) list" where
  "call_writes (Values reg src vs) = map (\<lambda>j. (reg + of_nat (4 * j), vs ! j)) [0 ..< unat (of_nat (length vs) :: u32)]"
| "call_writes (Frame_cookie local central_base session cookie) = map (\<lambda>tag. (central_base + 0x57c + of_nat tag * 0x40, cookie)) [0 ..< 8]"

definition cq_built :: "cq_call list \<Rightarrow> int list \<Rightarrow> mt6878_ccd_cq \<Rightarrow> bool" where
  "cq_built calls rets cq \<longleftrightarrow> (\<exists>ds. cq_ok cq ds \<and> finished cq = 0 \<and>
     (cq_first_error cq = 0 \<longleftrightarrow> list_all (\<lambda>r. r = 0) rets) \<and>
     (cq_first_error cq = 0 \<longrightarrow> cq_program cq ds = concat (map call_writes calls) \<and> (ds = [] \<longleftrightarrow> calls = [])))"

lemma cq_ok_error: "cq_ok (cq\<lparr> cq_first_error := e \<rparr>) ds = cq_ok cq ds"
  by (simp add: cq_ok_def)

lemma call_cases:
  assumes ok: "cq_ok cq ds" and live: "finished cq = 0" and run: "cq_step c cq = (cq', ret)"
  shows "ret \<noteq> 0 \<and> (\<exists>e. cq' = cq\<lparr> cq_first_error := e \<rparr> \<and> e \<noteq> 0) \<or>
    ret = 0 \<and> cq_first_error cq' = 0 \<and> cq_first_error cq = 0 \<and> finished cq' = 0 \<and> iova cq' = iova cq \<and>
    (\<exists>es. cq_ok cq' (ds @ es) \<and> es \<noteq> [] \<and> cq_program cq' (ds @ es) = cq_program cq ds @ call_writes c)"
proof (cases c)
  case (Values reg src vs)
  let ?n = "of_nat (length vs) :: u32"
  have v: "mt6878_ccd_cq_values reg (At src vs) ?n cq = (ret, cq')" using run Values by (simp add: prod.swap_def prod_eq_iff)
  show ?thesis
  proof (cases "ret = 0")
    case True
    have le: "unat ?n \<le> length (contents (At src vs))" by (simp add: unsigned_of_nat take_bit_nat_less_eq_self)
    have pos: "cq_first_error cq = 0" "unat ?n \<noteq> 0"
      using v True ok fail_result [of "- ERANGE" cq] by (auto simp: mt6878_ccd_cq_values_def cq_ok_def unsigned_eq_0_iff split: if_splits)
    from values_appends [OF ok v [unfolded True] le] obtain es where es: "cq_ok cq' (ds @ es)" "length es = (unat ?n + 510) div 511"
        "cq_first_error cq' = 0" "finished cq' = 0" "iova cq' = iova cq"
        "cq_program cq' (ds @ es) = cq_program cq ds @ map (\<lambda>j. (reg + of_nat (4 * j), vs ! j)) [0 ..< unat ?n]"
      unfolding ptr.sel by blast
    have "0 < length es" unfolding es(2) using pos(2) by (simp add: div_greater_zero_iff)
    then have "es \<noteq> []" by simp
    then show ?thesis
      unfolding Values call_writes.simps by (intro disjI2 conjI exI [of _ es] es True pos(1))
  qed (use values_cases [OF ok v] live in auto)
next
  case (Frame_cookie local central_base session cookie)
  then have v: "mt6878_ccd_cq_frame_cookie local central_base session cookie cq = (ret, cq')" using run by (simp add: prod.swap_def prod_eq_iff)
  then have "ret = 0 \<longrightarrow> cq_first_error cq = 0" using ok by (auto simp: mt6878_ccd_cq_frame_cookie_def split: if_splits)
  then show ?thesis using cookie_cases [OF ok v] live Frame_cookie by auto
qed

lemma failed_stays: "cq_first_error cq \<noteq> 0 \<Longrightarrow> snd (cq_step c cq) \<noteq> 0"
  by (cases c) (auto simp: mt6878_ccd_cq_values_def mt6878_ccd_cq_frame_cookie_def)

lemma built_run:
  assumes "cq_built done_calls rets cq"
  shows "cq_built (done_calls @ calls) (rets @ snd (run_ops cq_step calls cq)) (fst (run_ops cq_step calls cq)) \<and>
    iova (fst (run_ops cq_step calls cq)) = iova cq"
  using assms
proof (induction calls arbitrary: done_calls rets cq)
  case (Cons c calls)
  obtain cq' ret where run: "cq_step c cq = (cq', ret)" by (metis prod.exhaust)
  from Cons.prems obtain ds where ds: "cq_ok cq ds" "finished cq = 0" "cq_first_error cq = 0 \<longleftrightarrow> list_all (\<lambda>r. r = 0) rets"
      "cq_first_error cq = 0 \<longrightarrow> cq_program cq ds = concat (map call_writes done_calls) \<and> (ds = [] \<longleftrightarrow> done_calls = [])"
    by (auto simp: cq_built_def)
  have "cq_built (done_calls @ [c]) (rets @ [ret]) cq' \<and> iova cq' = iova cq"
    using call_cases [OF ds(1,2) run]
  proof (elim disjE conjE exE)
    fix e
    assume f: "ret \<noteq> 0" "cq' = cq\<lparr> cq_first_error := e \<rparr>" "e \<noteq> 0"
    then show ?thesis using ds(1,2) by (auto simp: cq_built_def cq_ok_error)
  next
    fix es
    assume g: "ret = 0" "cq_first_error cq' = 0" "cq_first_error cq = 0" "finished cq' = 0" "iova cq' = iova cq" "cq_ok cq' (ds @ es)" "es \<noteq> []"
      "cq_program cq' (ds @ es) = cq_program cq ds @ call_writes c"
    then show ?thesis using ds unfolding cq_built_def by (intro conjI exI [of _ "ds @ es"]) simp_all
  qed
  then show ?case using Cons.IH [of "done_calls @ [c]" "rets @ [ret]" cq'] run by simp
qed simp

lemma init_ok:
  assumes "mt6878_ccd_cq_init (At a p) cap io base sz cq0 = (0, cq)" and "length p = unat cap"
  shows "cq_ok cq []" and "finished cq = 0" and "cq_first_error cq = 0" and "iova cq = io" and "cq_mem cq = At a p"
    and "capacity cq = cap" and "cq_tail cq = cap" and "cq_head cq = 0" and "reg_base cq = base" and "reg_size cq = sz"
proof -
  have t: "\<not> cap < 28" "\<not> io \<ge> push_bit 34 1" "\<not> ucast cap > push_bit 34 1 - io" "\<not> base < MT6878_CQ_REG_BASE"
      "\<not> sz > MT6878_CQ_REG_SIZE" "\<not> base - MT6878_CQ_REG_BASE > MT6878_CQ_REG_SIZE - sz"
    using assms(1) by (auto simp: mt6878_ccd_cq_init_def split: if_splits)
  have cq: "cq = cq0\<lparr> cq_mem := At a p, iova := io, capacity := cap, cq_head := 0, cq_tail := cap, reg_base := base,
      reg_size := sz, finished := 0, cq_first_error := 0 \<rparr>"
    using assms(1) by (auto simp: mt6878_ccd_cq_init_def split: if_splits)
  have io: "io \<le> push_bit 34 1" using t(2) by simp
  have "unat (push_bit 34 1 - io) = 2 ^ 34 - unat io" using unat_sub [OF io] by simp
  moreover have "unat io \<le> 2 ^ 34" using io by (simp add: word_le_nat_alt)
  ultimately have dma: "unat io + unat cap \<le> 2 ^ 34" using t(3) by (simp add: word_less_nat_alt)
  have le: "MT6878_CQ_REG_BASE \<le> base" "sz \<le> MT6878_CQ_REG_SIZE" using t(4,5) by simp_all
  then have regs: "0x1a000000 \<le> unat base" "unat base + unat sz \<le> 0x1a200000"
    using t(6) unat_sub [OF le(1)] unat_sub [OF le(2)]
    by (simp_all add: word_le_nat_alt word_less_nat_alt MT6878_CQ_REG_BASE_def MT6878_CQ_REG_SIZE_def)
  show "cq_ok cq []" unfolding cq cq_ok_def using assms(2) dma regs t(1) by (simp add: word_less_nat_alt)
qed (use assms in \<open>auto simp: mt6878_ccd_cq_init_def split: if_splits\<close>)

section \<open>Properties\<close>

text \<open>
  C36. A queue does what it was asked for. On a fresh queue, after any sequence of appends and
  frame cookies, the queue can be closed exactly when there was at least one call and no call
  failed; and walking the closed buffer the way the engine does, from the first descriptor to
  END, makes exactly the register writes of the calls, in their order. The reported descriptor
  length covers END and ends at or below the first value, so no append, and not END itself, ever
  overwrote a value or a descriptor.
\<close>

theorem cq_queue_exact:
  assumes "mt6878_ccd_cq_init (At a p) cap io base sz cq0 = (0, cq)" and "length p = unat cap"
  shows "case run_ops cq_step calls cq of (cq1, rets) \<Rightarrow>
    (case mt6878_ccd_cq_finish (At d x) (At s y) cq1 of (ret, db, vs, cq2) \<Rightarrow>
      if calls \<noteq> [] \<and> list_all (\<lambda>r. r = 0) rets
      then ret = 0 \<and> unat (contents db) \<le> unat (contents vs) \<and>
        cq_engine (unat (contents db) div 12) (contents (cq_mem cq2)) io 0 = Some (concat (map call_writes calls))
      else ret \<noteq> 0)"
proof -
  obtain cq1 rets where run: "run_ops cq_step calls cq = (cq1, rets)" by (metis prod.exhaust)
  obtain ret db vs cq2 where fin: "mt6878_ccd_cq_finish (At d x) (At s y) cq1 = (ret, db, vs, cq2)" by (metis prod.exhaust)
  note i = init_ok [OF assms]
  have "cq_built [] [] cq" unfolding cq_built_def using i by (intro exI [of _ "[]"]) (simp add: cq_program_def)
  from built_run [OF this, of calls] run have b: "cq_built calls rets cq1" "iova cq1 = io" using i by simp_all
  then obtain ds where ds: "cq_ok cq1 ds" "finished cq1 = 0" "cq_first_error cq1 = 0 \<longleftrightarrow> list_all (\<lambda>r. r = 0) rets"
      "cq_first_error cq1 = 0 \<longrightarrow> cq_program cq1 ds = concat (map call_writes calls) \<and> (ds = [] \<longleftrightarrow> calls = [])"
    by (auto simp: cq_built_def)
  note f = finish_result [OF ds(1) fin]
  have "12 * Suc (length ds) < 2 ^ 32" using ds(1) by (simp add: cq_ok_def)
  then have u: "unat (of_nat (12 * Suc (length ds)) :: u32) = 12 * Suc (length ds)" by (rule unat_of_nat_u32)
  have "12 * Suc (length ds) \<le> unat (cq_tail cq1)" using ds(1) by (simp add: cq_ok_def)
  then show ?thesis
    unfolding run fin prod.case using f ds b(2) u by (cases "calls \<noteq> [] \<and> list_all (\<lambda>r. r = 0) rets") (auto simp del: of_nat_mult)
qed

definition sample_cq :: mt6878_ccd_cq where
  "sample_cq = snd (mt6878_ccd_cq_init (At 0x1000 (replicate 64 0)) 64 0x100 0x1a000000 0x1000
     \<lparr> cq_mem = Null, iova = 0, capacity = 0, cq_head = 0, cq_tail = 0, reg_base = 0, reg_size = 0, finished = 0, cq_first_error = 0 \<rparr>)"

theorem cq_queue_exact_witness:
  "case run_ops cq_step [Values 0x1a000010 0 [7, 9]] sample_cq of (cq1, rets) \<Rightarrow> rets = [0] \<and>
    (case mt6878_ccd_cq_finish (At 1 0) (At 2 0) cq1 of (ret, db, vs, cq2) \<Rightarrow>
      cq_engine (unat (contents db) div 12) (contents (cq_mem cq2)) 0x100 0 = Some [(0x1a000010, 7), (0x1a000014, 9)])"
proof -
  have init: "mt6878_ccd_cq_init (At 0x1000 (replicate 64 0)) 64 0x100 0x1a000000 0x1000
     \<lparr> cq_mem = Null, iova = 0, capacity = 0, cq_head = 0, cq_tail = 0, reg_base = 0, reg_size = 0, finished = 0, cq_first_error = 0 \<rparr>
     = (0, sample_cq)"
    by (simp add: sample_cq_def mt6878_ccd_cq_init_def MT6878_CQ_REG_BASE_def MT6878_CQ_REG_SIZE_def)
  have rets: "snd (run_ops cq_step [Values 0x1a000010 0 [7, 9]] sample_cq) = [0]" by code_simp
  have writes: "call_writes (Values 0x1a000010 0 [7, 9]) = [(0x1a000010, 7), (0x1a000014, 9)]" by code_simp
  obtain cq1 where run: "run_ops cq_step [Values 0x1a000010 0 [7, 9]] sample_cq = (cq1, [0])" using rets by (metis prod.collapse)
  show ?thesis
    using cq_queue_exact [OF init, of "[Values 0x1a000010 0 [7, 9]]" 1 0 2 0] writes unfolding run
    by (auto split: prod.splits simp del: call_writes.simps)
qed

end
