(* ===== verification/Camsv_Capture.thy ===== *)
theory Camsv_Capture
  imports Scripts
begin

text \<open>
  One frame through the camera receiver, \<^verbatim>\<open>patches/camera-camsv/mt6878-camsv-capture.h\<close>: the job
  is validated (geometry, DMA buffers, tags), its owners are verified, the routing registers
  and the command queue are programmed, completions are collected and the receiver is stopped
  and reset. The backend is a table of callbacks and a parameter here; every call of one is
  recorded in a trace, together with the value a read returned.
\<close>

unbundle bit_operations_syntax

section \<open>Data\<close>

datatype mt6878_camsv_region = MT6878_SV_CENTRAL | MT6878_SV_DMA | MT6878_SV_CQ | MT6878_SV_SENINF

datatype mt6878_camsv_owner = MT6878_SV_RESOURCES | MT6878_SV_IOMMU | MT6878_SV_ROUTE | MT6878_SV_IRQ
  | MT6878_SV_COMPOSER | MT6878_SV_STOPPED

record mt6878_camsv_buffer =
  dma :: u64
  buffer_size :: u32
  mapped :: u32

record mt6878_camsv_dma_layout =
  layout_format :: u32
  layout_width :: u32
  layout_height :: u32
  bytesperline :: u32
  sizeimage :: u32
  pixel_mode_shift :: u32

record mt6878_camsv_job =
  sv_id :: u32
  job_width :: u32
  job_height :: u32
  job_sequence :: u32
  raw_tag :: u32
  pdaf_tag :: u32
  group_tags :: "u32 list"
  raw_buffer :: mt6878_camsv_buffer
  pdaf_buffer :: mt6878_camsv_buffer
  cq_buffer :: mt6878_camsv_buffer
  raw_layout :: mt6878_camsv_dma_layout
  pdaf_layout :: mt6878_camsv_dma_layout

record 'w mt6878_camsv_backend =
  sv_verify :: "(mt6878_camsv_owner \<Rightarrow> mt6878_camsv_job \<Rightarrow> 'w \<Rightarrow> int \<times> 'w) option"
  sv_read :: "(mt6878_camsv_region \<Rightarrow> u32 \<Rightarrow> 'w \<Rightarrow> (int \<times> u32) \<times> 'w) option"
  sv_write :: "(mt6878_camsv_region \<Rightarrow> u32 \<Rightarrow> u32 \<Rightarrow> 'w \<Rightarrow> int \<times> 'w) option"
  sv_barrier :: "('w \<Rightarrow> int \<times> 'w) option"
  sv_delay_us :: "(u32 \<Rightarrow> 'w \<Rightarrow> int \<times> 'w) option"
  sv_smi_clamp :: "(u32 \<Rightarrow> u32 \<Rightarrow> 'w \<Rightarrow> int \<times> 'w) option"
  region_sizes :: "u64 list"

record mt6878_camsv_transaction =
  tx_job :: mt6878_camsv_job
  attempted :: u32
  submitted :: u32
  complete_tags :: u32
  off_attempted :: u32
  quiesced :: u32
  hw_attempted :: u32
  sv_first_error :: int

text \<open>What the backend is asked to do.\<close>

datatype sv_event = Verify mt6878_camsv_owner | Sv_read mt6878_camsv_region u32 u32
  | Sv_write mt6878_camsv_region u32 u32 | Barrier | Delay u32 | Smi_clamp u32 u32

type_synonym 'w sv_state = "mt6878_camsv_transaction \<times> 'w \<times> sv_event list"

fun region_number :: "mt6878_camsv_region \<Rightarrow> nat" where
  "region_number MT6878_SV_CENTRAL = 0"
| "region_number MT6878_SV_DMA = 1"
| "region_number MT6878_SV_CQ = 2"
| "region_number MT6878_SV_SENINF = 3"

definition SV_DMA_FMT_BAYER8 :: u32 where "SV_DMA_FMT_BAYER8 = 0"
definition SV_DMA_FMT_BAYER10 :: u32 where "SV_DMA_FMT_BAYER10 = 1"
definition SV_DMA_FMT_BAYER10_MIPI :: u32 where "SV_DMA_FMT_BAYER10_MIPI = 80"
definition SV_CQ_SIZE :: u32 where "SV_CQ_SIZE = 0x0158"
definition SV_CQ_MSB :: u32 where "SV_CQ_MSB = 0x0150"
definition SV_CQ_LSB :: u32 where "SV_CQ_LSB = 0x014c"
definition SV_CQ_START :: u32 where "SV_CQ_START = 0x0014"
definition SV_CQ_EN :: u32 where "SV_CQ_EN = 0x0100"
definition SV_CQ_SUB_EN :: u32 where "SV_CQ_SUB_EN = 0x0130"
definition SV_DMA_RESET :: u32 where "SV_DMA_RESET = 0x0020"
definition SV_CQ_RESET :: u32 where "SV_CQ_RESET = 0x0010"
definition SV_DCM_DIS :: u32 where "SV_DCM_DIS = 0x007C"
definition SV_SW_CTL :: u32 where "SV_SW_CTL = 0x01D0"
definition SV_CAMMUX_OPT :: u32 where "SV_CAMMUX_OPT = 0x0004"
definition SV_VC_MASK :: u32 where "SV_VC_MASK = 0x1f"
definition SV_DT_MASK :: u32 where "SV_DT_MASK = 0x3f00"
definition SV_DT_SHIFT :: nat where "SV_DT_SHIFT = 8"
definition SV_VC_EN_MASK :: u32 where "SV_VC_EN_MASK = 0x80"
definition SV_DT_EN_MASK :: u32 where "SV_DT_EN_MASK = 0x8000"

section \<open>Validation\<close>

definition mt6878_camsv_layout_validate :: "mt6878_camsv_dma_layout \<Rightarrow> u32 \<Rightarrow> int" where
  "mt6878_camsv_layout_validate l capacity =
    (if layout_width l = 0 \<or> layout_height l = 0 \<or> layout_width l > 65535 \<or> layout_height l > 65535 \<or>
        pixel_mode_shift l > 4 then - EINVAL
     else if layout_format l \<noteq> SV_DMA_FMT_BAYER8 \<and> layout_format l \<noteq> SV_DMA_FMT_BAYER10 \<and>
             layout_format l \<noteq> SV_DMA_FMT_BAYER10_MIPI then - EOPNOTSUPP
     else let bits = (if layout_format l = SV_DMA_FMT_BAYER8 then 8 else 10);
              bus = push_bit (unat (pixel_mode_shift l)) 16 div 8;
              row = (layout_width l * bits + 7) div 8;
              row = (row + bus - 1) div bus * bus in
     if bytesperline l < row \<or> bytesperline l > 65535 \<or> bytesperline l mod bus \<noteq> 0 \<or>
        sizeimage l \<noteq> bytesperline l * layout_height l \<or> sizeimage l > capacity then - ERANGE
     else 0)"

definition mt6878_camsv_error :: "mt6878_camsv_transaction \<Rightarrow> int \<Rightarrow> int \<times> mt6878_camsv_transaction" where
  "mt6878_camsv_error tx ret =
    (let tx = (if ret \<noteq> 0 \<and> sv_first_error tx = 0 then tx\<lparr> sv_first_error := ret \<rparr> else tx)
     in (sv_first_error tx, tx))"

definition mt6878_camsv_range :: "mt6878_camsv_buffer \<Rightarrow> u32 \<Rightarrow> int" where
  "mt6878_camsv_range buffer required =
    (if mapped buffer \<noteq> 1 \<or> buffer_size buffer < required \<or> required = 0 \<or> dma buffer \<ge> push_bit 34 1 \<or>
        ucast (buffer_size buffer) > push_bit 34 1 - dma buffer then - EINVAL else 0)"

definition mt6878_camsv_overlap :: "mt6878_camsv_buffer \<Rightarrow> mt6878_camsv_buffer \<Rightarrow> bool" where
  "mt6878_camsv_overlap a b \<longleftrightarrow> dma a < dma b + ucast (buffer_size b) \<and> dma b < dma a + ucast (buffer_size a)"

definition job_tags :: "mt6878_camsv_job \<Rightarrow> u32" where
  "job_tags job = push_bit (unat (raw_tag job)) 1 OR push_bit (unat (pdaf_tag job)) 1"

text \<open>The loop over the four tag groups.\<close>

fun groups_loop :: "u32 \<Rightarrow> u32 list \<Rightarrow> u32 \<Rightarrow> int \<times> u32" where
  "groups_loop tags [] seen = (0, seen)"
| "groups_loop tags (g # gs) seen =
    (if g AND NOT tags \<noteq> 0 \<or> g AND seen \<noteq> 0 then (- EINVAL, seen) else groups_loop tags gs (seen OR g))"

definition backend_complete :: "'w mt6878_camsv_backend \<Rightarrow> bool" where
  "backend_complete io \<longleftrightarrow> sv_verify io \<noteq> None \<and> sv_read io \<noteq> None \<and> sv_write io \<noteq> None \<and> sv_barrier io \<noteq> None \<and>
     sv_delay_us io \<noteq> None \<and> sv_smi_clamp io \<noteq> None"

definition mt6878_camsv_validate :: "'w mt6878_camsv_backend ptr \<Rightarrow> mt6878_camsv_job ptr \<Rightarrow> int" where
  "mt6878_camsv_validate io jobp =
    (if io = Null \<or> jobp = Null then - EINVAL
     else let b = contents io; job = contents jobp in
     if \<not> backend_complete b \<or> region_sizes b ! 0 \<noteq> 0x1000 \<or> region_sizes b ! 1 \<noteq> 0x1000 \<or>
        region_sizes b ! 2 \<noteq> 0x1000 \<or> region_sizes b ! 3 \<noteq> 0x18000 \<or>
        sv_id job > 1 \<or> raw_tag job > 7 \<or> pdaf_tag job > 7 \<or> raw_tag job = pdaf_tag job \<or>
        \<not> ((job_width job = 4000 \<and> job_height job = 3000) \<or> (job_width job = 4096 \<and> job_height job = 2304))
     then - EINVAL
     else if layout_width (raw_layout job) \<noteq> job_width job \<or> layout_height (raw_layout job) \<noteq> job_height job \<or>
             (layout_format (raw_layout job) \<noteq> SV_DMA_FMT_BAYER10 \<and> layout_format (raw_layout job) \<noteq> SV_DMA_FMT_BAYER10_MIPI) \<or>
             mt6878_camsv_layout_validate (raw_layout job) (buffer_size (raw_buffer job)) \<noteq> 0 \<or>
             mt6878_camsv_layout_validate (pdaf_layout job) (buffer_size (pdaf_buffer job)) \<noteq> 0 \<or>
             mt6878_camsv_range (raw_buffer job) (sizeimage (raw_layout job)) \<noteq> 0 \<or>
             mt6878_camsv_range (pdaf_buffer job) (sizeimage (pdaf_layout job)) \<noteq> 0 \<or>
             mt6878_camsv_range (cq_buffer job) (buffer_size (cq_buffer job)) \<noteq> 0 \<or> buffer_size (cq_buffer job) > 0xffff \<or>
             mt6878_camsv_overlap (raw_buffer job) (pdaf_buffer job) \<or>
             mt6878_camsv_overlap (raw_buffer job) (cq_buffer job) \<or>
             mt6878_camsv_overlap (pdaf_buffer job) (cq_buffer job)
     then - EINVAL
     else case groups_loop (job_tags job) (take 4 (group_tags job)) 0 of (ret, seen) \<Rightarrow>
       if ret \<noteq> 0 then ret else if seen = job_tags job then 0 else - EINVAL)"

section \<open>Register access\<close>

definition call_verify :: "'w mt6878_camsv_backend \<Rightarrow> mt6878_camsv_owner \<Rightarrow> 'w sv_state action" where
  "call_verify io owner s = (case s of (tx, w, tr) \<Rightarrow>
     (case the (sv_verify io) owner (tx_job tx) w of (ret, w) \<Rightarrow> (ret, (tx, w, tr @ [Verify owner]))))"

definition call_barrier :: "'w mt6878_camsv_backend \<Rightarrow> 'w sv_state action" where
  "call_barrier io s = (case s of (tx, w, tr) \<Rightarrow>
     (case the (sv_barrier io) w of (ret, w) \<Rightarrow> (ret, (tx, w, tr @ [Barrier]))))"

definition call_delay :: "'w mt6878_camsv_backend \<Rightarrow> u32 \<Rightarrow> 'w sv_state action" where
  "call_delay io us s = (case s of (tx, w, tr) \<Rightarrow>
     (case the (sv_delay_us io) us w of (ret, w) \<Rightarrow> (ret, (tx, w, tr @ [Delay us]))))"

definition call_smi_clamp :: "'w mt6878_camsv_backend \<Rightarrow> u32 \<Rightarrow> u32 \<Rightarrow> 'w sv_state action" where
  "call_smi_clamp io common enable s = (case s of (tx, w, tr) \<Rightarrow>
     (case the (sv_smi_clamp io) common enable w of (ret, w) \<Rightarrow> (ret, (tx, w, tr @ [Smi_clamp common enable]))))"

definition call_read :: "'w mt6878_camsv_backend \<Rightarrow> mt6878_camsv_region \<Rightarrow> u32 \<Rightarrow> 'w sv_state \<Rightarrow> (int \<times> u32) \<times> 'w sv_state" where
  "call_read io region offset s = (case s of (tx, w, tr) \<Rightarrow>
     (case the (sv_read io) region offset w of ((ret, v), w) \<Rightarrow> ((ret, v), (tx, w, tr @ [Sv_read region offset v]))))"

definition call_write :: "'w mt6878_camsv_backend \<Rightarrow> mt6878_camsv_region \<Rightarrow> u32 \<Rightarrow> u32 \<Rightarrow> 'w sv_state action" where
  "call_write io region offset v s = (case s of (tx, w, tr) \<Rightarrow>
     (case the (sv_write io) region offset v w of (ret, w) \<Rightarrow> (ret, (tx, w, tr @ [Sv_write region offset v]))))"

text \<open>\<^verbatim>\<open>return mt6878_camsv_error(tx, ret)\<close> on a state.\<close>

definition fails :: "int \<Rightarrow> 'w sv_state action" where
  "fails ret s = (case s of (tx, d) \<Rightarrow> (case mt6878_camsv_error tx ret of (r, tx) \<Rightarrow> (r, (tx, d))))"

definition out_of_region :: "'w mt6878_camsv_backend \<Rightarrow> mt6878_camsv_region \<Rightarrow> u32 \<Rightarrow> bool" where
  "out_of_region io region offset \<longleftrightarrow> region_sizes io ! region_number region < 4 \<or> offset AND 3 \<noteq> 0 \<or>
     ucast offset > region_sizes io ! region_number region - 4"

definition mt6878_camsv_write :: "'w mt6878_camsv_backend \<Rightarrow> mt6878_camsv_region \<Rightarrow> u32 \<Rightarrow> u32 \<Rightarrow> 'w sv_state action" where
  "mt6878_camsv_write io region offset v s =
    (if out_of_region io region offset then fails (- EINVAL) s
     else case call_write io region offset v s of (ret, s) \<Rightarrow> if ret \<noteq> 0 then fails ret s else (0, s))"

definition mt6878_camsv_update ::
  "'w mt6878_camsv_backend \<Rightarrow> mt6878_camsv_region \<Rightarrow> u32 \<Rightarrow> u32 \<Rightarrow> u32 \<Rightarrow> 'w sv_state action" where
  "mt6878_camsv_update io region offset bits v s =
    (if out_of_region io region offset \<or> v AND NOT bits \<noteq> 0 then fails (- EINVAL) s
     else case call_read io region offset s of ((ret, old), s) \<Rightarrow>
     if ret \<noteq> 0 then fails ret s
     else mt6878_camsv_write io region offset ((old AND NOT bits) OR v) s)"

section \<open>Submission\<close>

text \<open>The four updates of one CAMMUX output, and the two outputs in order.\<close>

definition cammux_offset :: "mt6878_camsv_job \<Rightarrow> u32 \<Rightarrow> u32" where
  "cammux_offset job tag = 0x17000 + 0x40 * (sv_id job * 8 + tag) + SV_CAMMUX_OPT"

definition cammux_output :: "'w mt6878_camsv_backend \<Rightarrow> u32 \<Rightarrow> u32 \<Rightarrow> 'w sv_state action" where
  "cammux_output io offset dt = chain
    [mt6878_camsv_update io MT6878_SV_SENINF offset SV_VC_MASK 0,
     mt6878_camsv_update io MT6878_SV_SENINF offset SV_DT_MASK (push_bit SV_DT_SHIFT dt),
     mt6878_camsv_update io MT6878_SV_SENINF offset SV_VC_EN_MASK SV_VC_EN_MASK,
     mt6878_camsv_update io MT6878_SV_SENINF offset SV_DT_EN_MASK SV_DT_EN_MASK]"

definition cammux_route :: "'w mt6878_camsv_backend \<Rightarrow> mt6878_camsv_job \<Rightarrow> 'w sv_state action" where
  "cammux_route io job = chain
    [cammux_output io (cammux_offset job (raw_tag job)) 0x2b,
     cammux_output io (cammux_offset job (pdaf_tag job)) 0x30]"

definition apply_cq :: "'w mt6878_camsv_backend \<Rightarrow> mt6878_camsv_job \<Rightarrow> 'w sv_state action" where
  "apply_cq io job = chain
    [mt6878_camsv_write io MT6878_SV_CQ SV_CQ_SIZE (buffer_size (cq_buffer job)),
     mt6878_camsv_write io MT6878_SV_CQ SV_CQ_MSB (ucast (drop_bit 32 (dma (cq_buffer job)))),
     mt6878_camsv_write io MT6878_SV_CQ SV_CQ_LSB (ucast (dma (cq_buffer job))),
     mt6878_camsv_write io MT6878_SV_CQ SV_CQ_START 1,
     call_barrier io,
     mt6878_camsv_update io MT6878_SV_CQ SV_CQ_EN (push_bit 12 1) (push_bit 12 1)]"

definition verify_owners :: "'w mt6878_camsv_backend \<Rightarrow> 'w sv_state action" where
  "verify_owners io = chain (map (call_verify io)
    [MT6878_SV_RESOURCES, MT6878_SV_IOMMU, MT6878_SV_ROUTE, MT6878_SV_IRQ, MT6878_SV_COMPOSER])"

definition mt6878_camsv_submit :: "'w mt6878_camsv_backend ptr \<Rightarrow> mt6878_camsv_job ptr \<Rightarrow> 'w sv_state action" where
  "mt6878_camsv_submit io job s = (case s of (tx, d) \<Rightarrow>
     if sv_first_error tx \<noteq> 0 then (sv_first_error tx, s)
     else if attempted tx \<noteq> 0 \<or> off_attempted tx \<noteq> 0 then (- EALREADY, s)
     else let ret = mt6878_camsv_validate io job in
     if ret \<noteq> 0 then fails ret s
     else let b = contents io; s = (tx\<lparr> attempted := 1, tx_job := contents job \<rparr>, d) in
     case verify_owners b s of (ret, s) \<Rightarrow>
     if ret \<noteq> 0 then fails ret s
     else case s of (tx, d) \<Rightarrow> let s = (tx\<lparr> hw_attempted := 1 \<rparr>, d) in
     case cammux_route b (contents job) s of (ret, s) \<Rightarrow>
     if ret \<noteq> 0 then (ret, s)
     else case apply_cq b (contents job) s of (ret, s) \<Rightarrow>
     if ret \<noteq> 0 then fails ret s
     else case s of (tx, d) \<Rightarrow> (0, (tx\<lparr> submitted := 1 \<rparr>, d)))"

section \<open>Completion\<close>

text \<open>The tags of the groups whose done bit is set; the loop runs over the four groups.\<close>

definition done_tags :: "u32 \<Rightarrow> u32 list \<Rightarrow> u32" where
  "done_tags done_status groups =
    fold (\<lambda>(group, g) tags. if done_status AND push_bit (16 + group) 1 \<noteq> 0 then tags OR g else tags)
      (enumerate 0 (take 4 groups)) 0"

definition mt6878_camsv_done :: "mt6878_camsv_transaction \<Rightarrow> u32 \<Rightarrow> u32 \<Rightarrow> int \<times> mt6878_camsv_transaction" where
  "mt6878_camsv_done tx done_status inner_sequence =
    (if submitted tx = 0 \<or> off_attempted tx \<noteq> 0 \<or> sv_first_error tx \<noteq> 0 then (- EINVAL, tx)
     else if inner_sequence \<noteq> job_sequence (tx_job tx) then (- ESTALE, tx)
     else let tags = done_tags done_status (group_tags (tx_job tx)) in
     if tags = 0 then (0, tx)
     else if complete_tags tx AND tags = tags then (- EALREADY, tx)
     else let tx = tx\<lparr> complete_tags := complete_tags tx OR tags \<rparr> in
       (if complete_tags tx = job_tags (tx_job tx) then 1 else 0, tx))"

section \<open>Stop\<close>

text \<open>The polling loop; the first argument counts the rounds left.\<close>

fun poll_from :: "nat \<Rightarrow> 'w mt6878_camsv_backend \<Rightarrow> mt6878_camsv_region \<Rightarrow> u32 \<Rightarrow> 'w sv_state action" where
  "poll_from 0 io region offset s = fails (- ETIMEDOUT) s"
| "poll_from (Suc n) io region offset s =
    (case call_read io region offset s of ((ret, v), s) \<Rightarrow>
     if ret \<noteq> 0 then fails ret s
     else if v AND 2 \<noteq> 0 then (0, s)
     else case call_delay io 1 s of (ret, s) \<Rightarrow>
     if ret \<noteq> 0 then fails ret s
     else poll_from n io region offset s)"

definition mt6878_camsv_poll_idle :: "'w mt6878_camsv_backend \<Rightarrow> mt6878_camsv_region \<Rightarrow> u32 \<Rightarrow> 'w sv_state action" where
  "mt6878_camsv_poll_idle io region offset = poll_from 100000 io region offset"

definition stop_clamp :: "'w mt6878_camsv_backend \<Rightarrow> 'w sv_state action" where
  "stop_clamp io = chain [call_verify io MT6878_SV_STOPPED, call_smi_clamp io 31 1]"

definition stop_reset :: "'w mt6878_camsv_backend \<Rightarrow> 'w sv_state action" where
  "stop_reset io = chain
    [mt6878_camsv_write io MT6878_SV_DMA SV_DMA_RESET 0,
     mt6878_camsv_write io MT6878_SV_DMA SV_DMA_RESET 1,
     call_barrier io,
     mt6878_camsv_poll_idle io MT6878_SV_DMA SV_DMA_RESET,
     mt6878_camsv_write io MT6878_SV_CENTRAL SV_DCM_DIS 0,
     mt6878_camsv_write io MT6878_SV_CENTRAL SV_SW_CTL 0,
     mt6878_camsv_write io MT6878_SV_CENTRAL SV_SW_CTL 1,
     mt6878_camsv_write io MT6878_SV_DMA SV_DMA_RESET 0,
     mt6878_camsv_write io MT6878_SV_CENTRAL SV_SW_CTL 0,
     call_barrier io,
     mt6878_camsv_write io MT6878_SV_CQ SV_CQ_RESET 0,
     mt6878_camsv_write io MT6878_SV_CQ SV_CQ_RESET 1,
     call_barrier io,
     mt6878_camsv_poll_idle io MT6878_SV_CQ SV_CQ_RESET,
     mt6878_camsv_write io MT6878_SV_CQ SV_CQ_RESET 0,
     call_barrier io,
     mt6878_camsv_update io MT6878_SV_CQ SV_CQ_EN (push_bit 16 1) (push_bit 16 1),
     mt6878_camsv_update io MT6878_SV_CQ SV_CQ_SUB_EN (push_bit 16 1) (push_bit 16 1),
     mt6878_camsv_update io MT6878_SV_CQ SV_CQ_SUB_EN (push_bit 16 1) 0,
     mt6878_camsv_update io MT6878_SV_CQ SV_CQ_EN (push_bit 16 1) 0,
     call_barrier io,
     call_smi_clamp io 31 0]"

definition mt6878_camsv_stop :: "'w mt6878_camsv_backend ptr \<Rightarrow> 'w sv_state action" where
  "mt6878_camsv_stop io s = (case s of (tx, d) \<Rightarrow>
     if attempted tx = 0 \<or> mt6878_camsv_validate io (At 0 (tx_job tx)) \<noteq> 0 then (- EINVAL, s)
     else if off_attempted tx \<noteq> 0 then (if sv_first_error tx \<noteq> 0 then sv_first_error tx else - EALREADY, s)
     else let b = contents io; s = (tx\<lparr> off_attempted := 1 \<rparr>, d) in
     case stop_clamp b s of (ret, s) \<Rightarrow>
     if ret \<noteq> 0 then fails ret s
     else case stop_reset b s of (ret, s) \<Rightarrow>
     if ret \<noteq> 0 then fails ret s
     else case s of (tx, d) \<Rightarrow>
       let tx = tx\<lparr> quiesced := 1, submitted := 0 \<rparr> in (sv_first_error tx, (tx, d)))"

section \<open>Geometry and buffers\<close>

definition bits_per_pixel :: "mt6878_camsv_dma_layout \<Rightarrow> nat" where
  "bits_per_pixel l = (if layout_format l = SV_DMA_FMT_BAYER8 then 8 else 10)"

definition row_bytes_needed :: "mt6878_camsv_dma_layout \<Rightarrow> nat" where
  "row_bytes_needed l = round_up (2 * 2 ^ unat (pixel_mode_shift l)) ((unat (layout_width l) * bits_per_pixel l + 7) div 8)"

lemma bus_width:
  fixes s :: u32
  assumes "\<not> s > 4"
  shows "unat (push_bit (unat s) 16 div 8 :: u32) = 2 * 2 ^ unat s"
proof -
  have s: "unat s \<le> 4" using assms by (simp add: word_less_nat_alt)
  then have "unat s \<in> {0, 1, 2, 3, 4}" by auto
  then show ?thesis by (auto simp: unat_div push_bit_eq_mult)
qed

lemma row_width:
  fixes w :: u32
  assumes "\<not> w > 65535" and "b = 8 \<or> b = 10" and "unat bus = 2 * 2 ^ k" and "k \<le> 4"
  shows "unat (((w * b + 7) div 8 + bus - 1) div bus * bus) = round_up (2 * 2 ^ k) ((unat w * unat b + 7) div 8)"
proof -
  have w: "unat w \<le> 65535" using assms(1) by (simp add: word_less_nat_alt)
  have b: "unat b \<le> 10" "unat b = 8 \<or> unat b = 10" using assms(2) by auto
  have p: "(2 :: nat) * 2 ^ k \<le> 32" using assms(4) power_increasing [of k 4 "2 :: nat"] by simp
  have wb: "unat w * unat b \<le> 655350" using mult_le_mono [OF w b(1)] by simp
  have m: "unat (w * b) = unat w * unat b" using wb by (simp add: unat_mult_lem [THEN iffD1])
  have a: "unat (w * b + 7) = unat w * unat b + 7" using m wb by (simp add: unat_add_lem [THEN iffD1])
  let ?r = "(unat w * unat b + 7) div 8"
  have r: "unat ((w * b + 7) div 8) = ?r" using a by (simp add: unat_div)
  have rb: "?r \<le> 81919" using wb by simp
  have s: "unat ((w * b + 7) div 8 + bus) = ?r + 2 * 2 ^ k"
    using r rb assms(3) p by (simp add: unat_add_lem [THEN iffD1])
  have "1 \<le> (w * b + 7) div 8 + bus" using s by (simp add: word_le_nat_alt Suc_le_eq)
  then have d: "unat ((w * b + 7) div 8 + bus - 1) = ?r + 2 * 2 ^ k - 1" using s by (simp add: unat_sub)
  have q: "(?r + 2 * 2 ^ k - 1) div (2 * 2 ^ k) * (2 * 2 ^ k) \<le> 90000"
    using div_times_less_eq_dividend [of "?r + 2 * 2 ^ k - 1" "2 * 2 ^ k"] rb p by linarith
  have "unat (((w * b + 7) div 8 + bus - 1) div bus) = (?r + 2 * 2 ^ k - 1) div (2 * 2 ^ k)"
    using d assms(3) by (simp add: unat_div)
  then show ?thesis
    using q assms(3) by (simp add: unat_mult_lem [THEN iffD1] round_up_def)
qed

lemma layout_result:
  "mt6878_camsv_layout_validate l capacity = 0 \<longleftrightarrow>
    0 < unat (layout_width l) \<and> unat (layout_width l) \<le> 65535 \<and> 0 < unat (layout_height l) \<and> unat (layout_height l) \<le> 65535 \<and>
    unat (pixel_mode_shift l) \<le> 4 \<and> layout_format l \<in> {SV_DMA_FMT_BAYER8, SV_DMA_FMT_BAYER10, SV_DMA_FMT_BAYER10_MIPI} \<and>
    row_bytes_needed l \<le> unat (bytesperline l) \<and> unat (bytesperline l) \<le> 65535 \<and>
    2 * 2 ^ unat (pixel_mode_shift l) dvd unat (bytesperline l) \<and>
    unat (sizeimage l) = unat (bytesperline l) * unat (layout_height l) \<and> unat (sizeimage l) \<le> unat capacity"
proof -
  let ?w = "layout_width l" and ?h = "layout_height l" and ?s = "pixel_mode_shift l" and ?b = "bytesperline l"
  let ?bits = "if layout_format l = SV_DMA_FMT_BAYER8 then 8 else 10 :: u32"
  let ?bus = "push_bit (unat ?s) 16 div 8 :: u32"
  let ?row = "((?w * ?bits + 7) div 8 + ?bus - 1) div ?bus * ?bus"
  have size_ok: "\<not> (?w = 0 \<or> ?h = 0 \<or> ?w > 65535 \<or> ?h > 65535 \<or> ?s > 4) \<longleftrightarrow>
      0 < unat ?w \<and> unat ?w \<le> 65535 \<and> 0 < unat ?h \<and> unat ?h \<le> 65535 \<and> unat ?s \<le> 4"
    by (simp add: word_less_nat_alt unat_gt_0 not_less) blast
  show ?thesis
  proof (cases "?w = 0 \<or> ?h = 0 \<or> ?w > 65535 \<or> ?h > 65535 \<or> ?s > 4")
    case True
    then show ?thesis using size_ok by (auto simp: mt6878_camsv_layout_validate_def)
  next
    case False
    have bus: "unat ?bus = 2 * 2 ^ unat ?s" "unat ?s \<le> 4" using False size_ok bus_width by blast+
    have row: "unat ?row = row_bytes_needed l"
      using row_width [of ?w ?bits ?bus "unat ?s"] bus False by (auto simp: row_bytes_needed_def bits_per_pixel_def)
    have mul: "unat (?b * ?h) = unat ?b * unat ?h" if "unat ?b \<le> 65535"
    proof -
      have "unat ?b * unat ?h \<le> 65535 * 65535" using that False size_ok by (intro mult_le_mono) auto
      then show ?thesis by (simp add: unat_mult_lem [THEN iffD1])
    qed
    have dv: "?b mod ?bus = 0 \<longleftrightarrow> 2 * 2 ^ unat ?s dvd unat ?b"
      using bus by (simp add: word_unat_eq_iff [of "?b mod ?bus"] unat_mod dvd_eq_mod_eq_0)
    have "mt6878_camsv_layout_validate l capacity = 0 \<longleftrightarrow>
        layout_format l \<in> {SV_DMA_FMT_BAYER8, SV_DMA_FMT_BAYER10, SV_DMA_FMT_BAYER10_MIPI} \<and>
        \<not> (?b < ?row \<or> ?b > 65535 \<or> ?b mod ?bus \<noteq> 0 \<or> sizeimage l \<noteq> ?b * ?h \<or> sizeimage l > capacity)"
      unfolding mt6878_camsv_layout_validate_def if_not_P [OF False] Let_def by auto
    also have "\<dots> \<longleftrightarrow> layout_format l \<in> {SV_DMA_FMT_BAYER8, SV_DMA_FMT_BAYER10, SV_DMA_FMT_BAYER10_MIPI} \<and>
        row_bytes_needed l \<le> unat ?b \<and> unat ?b \<le> 65535 \<and> 2 * 2 ^ unat ?s dvd unat ?b \<and>
        unat (sizeimage l) = unat ?b * unat ?h \<and> unat (sizeimage l) \<le> unat capacity"
      using mul unfolding dv by (auto simp: word_less_nat_alt row not_less word_unat_eq_iff [of "sizeimage l"])
    finally show ?thesis using False size_ok by blast
  qed
qed

text \<open>The addresses of a DMA buffer.\<close>

definition dma_range :: "mt6878_camsv_buffer \<Rightarrow> nat set" where
  "dma_range b = {unat (dma b) ..< unat (dma b) + unat (buffer_size b)}"

lemma range_result:
  "mt6878_camsv_range b required = 0 \<longleftrightarrow> mapped b = 1 \<and> 0 < unat required \<and> unat required \<le> unat (buffer_size b) \<and>
     unat (dma b) < 2 ^ 34 \<and> unat (dma b) + unat (buffer_size b) \<le> 2 ^ 34"
proof (cases "dma b \<ge> push_bit 34 1")
  case True
  then show ?thesis by (auto simp: mt6878_camsv_range_def word_le_nat_alt)
next
  case False
  then have le: "dma b \<le> push_bit 34 1" by simp
  have lt: "unat (dma b) < 2 ^ 34" using False by (simp add: word_le_nat_alt)
  have "unat (push_bit 34 1 - dma b) = 2 ^ 34 - unat (dma b)" using unat_sub [OF le] by simp
  then have "ucast (buffer_size b) > push_bit 34 1 - dma b \<longleftrightarrow> \<not> unat (dma b) + unat (buffer_size b) \<le> 2 ^ 34"
    using lt unfolding word_less_nat_alt by auto
  then show ?thesis
    unfolding mt6878_camsv_range_def using False lt
    by (auto simp: word_less_nat_alt [of "buffer_size b"] not_less unat_gt_0 simp del: push_bit_of_1)
qed

lemma overlap_result:
  assumes "mt6878_camsv_range a m = 0" and "mt6878_camsv_range b n = 0"
  shows "mt6878_camsv_overlap a b \<longleftrightarrow> dma_range a \<inter> dma_range b \<noteq> {}"
proof -
  note r = assms [unfolded range_result]
  have e: "unat (dma a + ucast (buffer_size a)) = unat (dma a) + unat (buffer_size a)"
      "unat (dma b + ucast (buffer_size b)) = unat (dma b) + unat (buffer_size b)"
    using r unat_add_small [of "dma a" "ucast (buffer_size a)"] unat_add_small [of "dma b" "ucast (buffer_size b)"] by auto
  have "dma_range a \<inter> dma_range b = {max (unat (dma a)) (unat (dma b)) ..<
      min (unat (dma a) + unat (buffer_size a)) (unat (dma b) + unat (buffer_size b))}"
    by (simp add: dma_range_def)
  moreover have "0 < unat (buffer_size a)" "0 < unat (buffer_size b)" using r by auto
  ultimately show ?thesis
    using e by (auto simp: mt6878_camsv_overlap_def word_less_nat_alt max_def min_def)
qed

text \<open>Tag groups as sets of tags.\<close>

definition tag_set :: "u32 \<Rightarrow> nat set" where
  "tag_set w = {n. bit w n}"

lemma tag_set_subset: "a AND NOT b = 0 \<longleftrightarrow> tag_set a \<subseteq> tag_set b"
proof -
  have "a AND NOT b = 0 \<longleftrightarrow> (\<forall>n < 32. bit a n \<longrightarrow> bit b n)" by (auto simp: bit_eq_iff [where ?'a = u32] bit_simps)
  then show ?thesis using bit_imp_le_length [of a] by (auto simp: tag_set_def)
qed

lemma tag_set_disjoint: "a AND b = 0 \<longleftrightarrow> tag_set a \<inter> tag_set b = {}"
proof -
  have "a AND b = 0 \<longleftrightarrow> (\<forall>n < 32. \<not> (bit a n \<and> bit b n))" by (auto simp: bit_eq_iff [where ?'a = u32] bit_simps)
  then show ?thesis using bit_imp_le_length [of a] by (auto simp: tag_set_def)
qed

lemma tag_set_or: "tag_set (a OR b) = tag_set a \<union> tag_set b"
  by (auto simp: tag_set_def bit_or_iff)

lemma tag_set_0 [simp]: "tag_set 0 = {}"
  by (simp add: tag_set_def)

lemma tag_set_inject: "tag_set a = tag_set b \<longleftrightarrow> a = b"
  unfolding tag_set_def by (metis bit_eqI mem_Collect_eq)

lemma groups_result:
  "groups_loop tags gs seen = (0, fin) \<longleftrightarrow>
    (\<forall>g \<in> set gs. tag_set g \<subseteq> tag_set tags) \<and> sorted_wrt (\<lambda>g h. tag_set g \<inter> tag_set h = {}) gs \<and>
    (\<forall>g \<in> set gs. tag_set g \<inter> tag_set seen = {}) \<and> tag_set fin = tag_set seen \<union> \<Union> (tag_set ` set gs)"
proof (induction gs arbitrary: seen)
  case (Cons g gs)
  show ?case
  proof (cases "g AND NOT tags \<noteq> 0 \<or> g AND seen \<noteq> 0")
    case True
    then have "\<not> (tag_set g \<subseteq> tag_set tags \<and> tag_set g \<inter> tag_set seen = {})"
      unfolding tag_set_subset [symmetric] tag_set_disjoint [symmetric] by blast
    then show ?thesis using True by auto
  next
    case False
    then have g: "tag_set g \<subseteq> tag_set tags" "tag_set g \<inter> tag_set seen = {}"
      unfolding tag_set_subset [symmetric] tag_set_disjoint [symmetric] by blast+
    have "groups_loop tags (g # gs) seen = groups_loop tags gs (seen OR g)" using False by simp
    then show ?thesis
      unfolding list.set sorted_wrt.simps using Cons.IH [of "seen OR g"] g unfolding tag_set_or by (simp add: Int_Un_distrib Un_ac) blast
  qed
qed (auto simp: tag_set_inject)

lemma groups_status: "fst (groups_loop tags gs seen) \<in> {0, - EINVAL}"
  by (induction gs arbitrary: seen) auto

lemma tag_set_job: "raw_tag job \<le> 7 \<Longrightarrow> pdaf_tag job \<le> 7 \<Longrightarrow> tag_set (job_tags job) = {unat (raw_tag job), unat (pdaf_tag job)}"
proof -
  assume "raw_tag job \<le> 7" "pdaf_tag job \<le> 7"
  then have "unat (raw_tag job) < 32" "unat (pdaf_tag job) < 32" by (simp_all add: word_le_nat_alt)
  then show ?thesis by (auto simp: tag_set_def job_tags_def bit_simps)
qed

text \<open>The admissible jobs.\<close>

definition job_ok :: "mt6878_camsv_job \<Rightarrow> bool" where
  "job_ok job \<longleftrightarrow> raw_tag job \<noteq> pdaf_tag job \<and> unat (raw_tag job) \<le> 7 \<and> unat (pdaf_tag job) \<le> 7 \<and> unat (sv_id job) \<le> 1 \<and>
     (unat (job_width job), unat (job_height job)) \<in> {(4000, 3000), (4096, 2304)} \<and>
     row_bytes_needed (raw_layout job) \<le> unat (bytesperline (raw_layout job)) \<and>
     unat (sizeimage (raw_layout job)) = unat (bytesperline (raw_layout job)) * unat (job_height job) \<and>
     unat (sizeimage (raw_layout job)) \<le> unat (buffer_size (raw_buffer job)) \<and>
     unat (sizeimage (pdaf_layout job)) \<le> unat (buffer_size (pdaf_buffer job)) \<and>
     dma_range (raw_buffer job) \<union> dma_range (pdaf_buffer job) \<union> dma_range (cq_buffer job) \<subseteq> {..< 2 ^ 34} \<and>
     dma_range (raw_buffer job) \<inter> dma_range (pdaf_buffer job) = {} \<and>
     dma_range (raw_buffer job) \<inter> dma_range (cq_buffer job) = {} \<and>
     dma_range (pdaf_buffer job) \<inter> dma_range (cq_buffer job) = {} \<and>
     unat (buffer_size (cq_buffer job)) \<le> 0xffff \<and>
     sorted_wrt (\<lambda>g h. tag_set g \<inter> tag_set h = {}) (take 4 (group_tags job)) \<and>
     \<Union> (tag_set ` set (take 4 (group_tags job))) = {unat (raw_tag job), unat (pdaf_tag job)}"

lemma validate_contents: "mt6878_camsv_validate io (At p job) = mt6878_camsv_validate io (At q job)"
  by (simp add: mt6878_camsv_validate_def)

lemma validate_sound:
  assumes "mt6878_camsv_validate io (At p job) = 0"
  shows "io \<noteq> Null \<and> backend_complete (contents io) \<and> job_ok job"
proof -
  have io: "io \<noteq> Null" using assms by (auto simp: mt6878_camsv_validate_def)
  note v = assms [unfolded mt6878_camsv_validate_def Let_def ptr.sel]
  have s1: "backend_complete (contents io)" "sv_id job \<le> 1" "raw_tag job \<le> 7" "pdaf_tag job \<le> 7" "raw_tag job \<noteq> pdaf_tag job"
      "(job_width job = 4000 \<and> job_height job = 3000) \<or> (job_width job = 4096 \<and> job_height job = 2304)"
    using v io by (simp_all add: not_less split: if_splits)
  have s2: "layout_height (raw_layout job) = job_height job"
      "mt6878_camsv_layout_validate (raw_layout job) (buffer_size (raw_buffer job)) = 0"
      "mt6878_camsv_layout_validate (pdaf_layout job) (buffer_size (pdaf_buffer job)) = 0"
    using v io by (simp_all split: if_splits)
  have s3: "mt6878_camsv_range (raw_buffer job) (sizeimage (raw_layout job)) = 0"
      "mt6878_camsv_range (pdaf_buffer job) (sizeimage (pdaf_layout job)) = 0"
      "mt6878_camsv_range (cq_buffer job) (buffer_size (cq_buffer job)) = 0" "buffer_size (cq_buffer job) \<le> 0xffff"
      "\<not> mt6878_camsv_overlap (raw_buffer job) (pdaf_buffer job)" "\<not> mt6878_camsv_overlap (raw_buffer job) (cq_buffer job)"
      "\<not> mt6878_camsv_overlap (pdaf_buffer job) (cq_buffer job)"
    using v io by (simp_all add: not_less split: if_splits)
  have s4: "groups_loop (job_tags job) (take 4 (group_tags job)) 0 = (0, job_tags job)"
    using v io by (auto split: if_splits prod.splits)
  have geo: "(unat (job_width job), unat (job_height job)) \<in> {(4000, 3000), (4096, 2304)}" using s1(6) by auto
  have inside: "dma_range b \<subseteq> {..< 2 ^ 34}" if "mt6878_camsv_range b n = 0" for b n
    using that by (auto simp: range_result dma_range_def)
  show ?thesis
    unfolding job_ok_def
    using io s1 s2 s3(4) geo s4 [unfolded groups_result] tag_set_job [OF s1(3,4)] inside [OF s3(1)] inside [OF s3(2)] inside [OF s3(3)]
      s3(5) [unfolded overlap_result [OF s3(1,2)]] s3(6) [unfolded overlap_result [OF s3(1,3)]]
      s3(7) [unfolded overlap_result [OF s3(2,3)]] layout_result [of "raw_layout job" "buffer_size (raw_buffer job)"]
      layout_result [of "pdaf_layout job" "buffer_size (pdaf_buffer job)"]
    by (simp add: word_le_nat_alt)
qed

section \<open>Event words of the steps\<close>

abbreviation sv_trace :: "'w sv_state \<Rightarrow> sv_event list" where
  "sv_trace s \<equiv> snd (snd s)"

text \<open>The steps change nothing of the transaction but its first error.\<close>

definition steady :: "mt6878_camsv_transaction \<Rightarrow> 'w sv_state \<Rightarrow> bool" where
  "steady tx s \<longleftrightarrow> (\<exists>e. fst s = tx\<lparr> sv_first_error := e \<rparr>)"

definition update_words :: "mt6878_camsv_region \<Rightarrow> u32 \<Rightarrow> u32 \<Rightarrow> u32 \<Rightarrow> sv_event list set" where
  "update_words region offset bits v = {[Sv_read region offset x, Sv_write region offset ((x AND NOT bits) OR v)] |x. True}"

text \<open>Polling: reads with the idle bit clear, each followed by the delay, then one with the bit set.\<close>

definition poll_words :: "nat \<Rightarrow> mt6878_camsv_region \<Rightarrow> u32 \<Rightarrow> sv_event list set" where
  "poll_words n region offset =
    {concat (map (\<lambda>x. [Sv_read region offset x, Delay 1]) xs) @ [Sv_read region offset y] |xs y.
       length xs \<le> n \<and> (\<forall>x \<in> set xs. x AND 2 = 0) \<and> y AND 2 \<noteq> 0}"

lemma fails_result:
  assumes "e \<noteq> 0"
  shows "fst (fails e s) \<noteq> 0" and "snd (snd (fails e s)) = snd s" and "steady tx s \<Longrightarrow> steady tx (snd (fails e s))"
    and "sv_first_error (fst (snd (fails e s))) = fst (fails e s)"
  using assms by (auto simp: fails_def mt6878_camsv_error_def steady_def Let_def split: prod.splits)

lemma steady_same: "fst s = fst t \<Longrightarrow> steady tx s = steady tx t"
  by (simp add: steady_def)

lemma call_results:
  "call_verify io owner s = (ret, t) \<Longrightarrow> fst t = fst s \<and> sv_trace t = sv_trace s @ [Verify owner]"
  "call_barrier io s = (ret, t) \<Longrightarrow> fst t = fst s \<and> sv_trace t = sv_trace s @ [Barrier]"
  "call_delay io us s = (ret, t) \<Longrightarrow> fst t = fst s \<and> sv_trace t = sv_trace s @ [Delay us]"
  "call_smi_clamp io common enable s = (ret, t) \<Longrightarrow> fst t = fst s \<and> sv_trace t = sv_trace s @ [Smi_clamp common enable]"
  "call_write io region offset v s = (ret, t) \<Longrightarrow> fst t = fst s \<and> sv_trace t = sv_trace s @ [Sv_write region offset v]"
  by (auto simp: call_verify_def call_barrier_def call_delay_def call_smi_clamp_def call_write_def split: prod.splits)

lemma call_read_result:
  "call_read io region offset s = ((ret, v), t) \<Longrightarrow> fst t = fst s \<and> sv_trace t = sv_trace s @ [Sv_read region offset v]"
  by (auto simp: call_read_def split: prod.splits)

lemma follows_calls:
  "follows sv_trace (steady tx) {[Verify owner]} (call_verify io owner)"
  "follows sv_trace (steady tx) {[Barrier]} (call_barrier io)"
  "follows sv_trace (steady tx) {[Smi_clamp common enable]} (call_smi_clamp io common enable)"
  by (rule follows_one, drule call_results, simp add: steady_def)+

lemma follows_write: "follows sv_trace (steady tx) {[Sv_write region offset v]} (mt6878_camsv_write io region offset v)"
proof (rule follows_one)
  fix s ret t
  assume ok: "steady tx s" and run: "mt6878_camsv_write io region offset v s = (ret, t)"
  obtain r m where c: "call_write io region offset v s = (r, m)" by (metis prod.exhaust)
  note res = call_results(5) [OF c]
  have m: "steady tx m" using ok res by (simp add: steady_def)
  show "steady tx t \<and> (sv_trace t = sv_trace s @ [Sv_write region offset v] \<or> ret \<noteq> 0 \<and> sv_trace t = sv_trace s)"
  proof (cases "out_of_region io region offset")
    case True
    then show ?thesis
      using run fails_result [where e = "- EINVAL" and s = s] ok by (auto simp: mt6878_camsv_write_def)
  next
    case False
    show ?thesis
    proof (cases "r = 0")
      case True
      then show ?thesis using run False c res m by (auto simp: mt6878_camsv_write_def)
    next
      case nz: False
      then have "fails r m = (ret, t)" using run False c by (simp add: mt6878_camsv_write_def)
      then show ?thesis using fails_result [OF nz, where s = m] res m by auto
    qed
  qed
qed

lemma update_words_nonempty: "update_words region offset bits v \<noteq> {}"
  by (auto simp: update_words_def)

lemma update_partly:
  "partly (update_words region offset bits v) []" "partly (update_words region offset bits v) [Sv_read region offset x]"
  using partly_Nil [OF update_words_nonempty]
  by (auto simp: partly_def update_words_def intro: exI [of _ x])

lemma follows_update:
  "follows sv_trace (steady tx) (update_words region offset bits v) (mt6878_camsv_update io region offset bits v)"
proof (rule followsI)
  fix s :: "'a sv_state" and ret t
  assume ok: "steady tx s" and run: "mt6878_camsv_update io region offset bits v s = (ret, t)"
  let ?A = "update_words region offset bits v"
  let ?goal = "steady tx t \<and> (\<exists>u. sv_trace t = sv_trace s @ u \<and> partly ?A u \<and> (ret = 0 \<longrightarrow> u \<in> ?A))"
  obtain r x m where c: "call_read io region offset s = ((r, x), m)" by (metis prod.exhaust)
  note res = call_read_result [OF c]
  have m: "steady tx m" using ok res by (simp add: steady_def)
  consider "out_of_region io region offset \<or> v AND NOT bits \<noteq> 0"
    | "\<not> (out_of_region io region offset \<or> v AND NOT bits \<noteq> 0)" "r \<noteq> 0"
    | "\<not> (out_of_region io region offset \<or> v AND NOT bits \<noteq> 0)" "r = 0" by blast
  then show ?goal
  proof cases
    case 1
    then have "fails (- EINVAL) s = (ret, t)" using run by (simp add: mt6878_camsv_update_def)
    then show ?thesis using fails_result [where e = "- EINVAL" and s = s] ok update_partly by auto
  next
    case 2
    then have "fails r m = (ret, t)" using run c by (simp add: mt6878_camsv_update_def)
    then show ?thesis using fails_result [OF 2(2), where s = m] res m update_partly by auto
  next
    case 3
    then have w: "mt6878_camsv_write io region offset ((x AND NOT bits) OR v) m = (ret, t)"
      using run c by (simp add: mt6878_camsv_update_def)
    from followsD [OF follows_write m w] obtain u where u: "steady tx t" "sv_trace t = sv_trace m @ u"
        "partly {[Sv_write region offset ((x AND NOT bits) OR v)]} u" "ret = 0 \<longrightarrow> u = [Sv_write region offset ((x AND NOT bits) OR v)]"
      by auto
    have word: "Sv_read region offset x # [Sv_write region offset ((x AND NOT bits) OR v)] \<in> ?A" by (auto simp: update_words_def)
    have "partly ?A (Sv_read region offset x # u)"
      using u(3) by (intro partlyI [OF word]) (auto simp: partly_def)
    then show ?thesis using u res word by (intro conjI exI [of _ "Sv_read region offset x # u"]) auto
  qed
qed (rule update_words_nonempty)

lemma poll_word:
  "length xs \<le> n \<Longrightarrow> \<forall>x \<in> set xs. x AND 2 = 0 \<Longrightarrow> y AND 2 \<noteq> 0 \<Longrightarrow>
   concat (map (\<lambda>x. [Sv_read region offset x, Delay 1]) xs) @ [Sv_read region offset y] \<in> poll_words n region offset"
  by (auto simp: poll_words_def)

lemma poll_words_nonempty: "poll_words n region offset \<noteq> {}"
  using poll_word [of "[]" n 2 region offset] by auto

lemma poll_words_Cons:
  assumes "w \<in> poll_words n region offset" and "x AND 2 = 0"
  shows "Sv_read region offset x # Delay 1 # w \<in> poll_words (Suc n) region offset"
proof -
  obtain xs y where w: "w = concat (map (\<lambda>x. [Sv_read region offset x, Delay 1]) xs) @ [Sv_read region offset y]"
      "length xs \<le> n" "\<forall>x \<in> set xs. x AND 2 = 0" "y AND 2 \<noteq> 0"
    using assms(1) by (auto simp: poll_words_def)
  then show ?thesis using poll_word [of "x # xs" "Suc n" y region offset] assms(2) by simp
qed

lemma poll_partly_read: "partly (poll_words (Suc n) region offset) [Sv_read region offset x]"
proof (cases "x AND 2 = 0")
  case True
  obtain w where "w \<in> poll_words n region offset" using poll_words_nonempty by blast
  from partlyI [OF poll_words_Cons [OF this True]] show ?thesis by simp
next
  case False
  then show ?thesis using partly_self [OF poll_word [of "[]" "Suc n" x region offset]] by simp
qed

lemma poll_partly_Cons:
  assumes "partly (poll_words n region offset) u" and "x AND 2 = 0"
  shows "partly (poll_words (Suc n) region offset) (Sv_read region offset x # Delay 1 # u)"
proof -
  obtain w where w: "w \<in> poll_words n region offset" "prefix u w" using assms(1) by (auto simp: partly_def)
  then show ?thesis by (intro partlyI [OF poll_words_Cons [OF w(1) assms(2)]]) simp
qed

lemma follows_poll_from: "follows sv_trace (steady tx) (poll_words n region offset) (poll_from n io region offset)"
proof (induction n)
  case 0
  show ?case
  proof (rule followsI)
    fix s ret t
    assume "steady tx s" "poll_from 0 io region offset s = (ret, t)"
    then show "steady tx t \<and> (\<exists>u. sv_trace t = sv_trace s @ u \<and> partly (poll_words 0 region offset) u \<and> (ret = 0 \<longrightarrow> u \<in> poll_words 0 region offset))"
      using fails_result [where e = "- ETIMEDOUT" and s = s] partly_Nil [OF poll_words_nonempty] by auto
  qed (rule poll_words_nonempty)
next
  case (Suc n)
  let ?A = "poll_words (Suc n) region offset"
  show ?case
  proof (rule followsI)
    fix s ret t
    assume ok: "steady tx s" and run: "poll_from (Suc n) io region offset s = (ret, t)"
    obtain r x m where c: "call_read io region offset s = ((r, x), m)" by (metis prod.exhaust)
    obtain r2 m2 where d: "call_delay io 1 m = (r2, m2)" by (metis prod.exhaust)
    note res = call_read_result [OF c] call_results(3) [OF d]
    have m: "steady tx m" "steady tx m2" using ok res by (simp_all add: steady_def)
    consider "r \<noteq> 0" | "r = 0" "x AND 2 \<noteq> 0" | "r = 0" "x AND 2 = 0" "r2 \<noteq> 0" | "r = 0" "x AND 2 = 0" "r2 = 0" by blast
    then show "steady tx t \<and> (\<exists>u. sv_trace t = sv_trace s @ u \<and> partly ?A u \<and> (ret = 0 \<longrightarrow> u \<in> ?A))"
    proof cases
      case 1
      then have "fails r m = (ret, t)" using run c by simp
      then show ?thesis using fails_result [OF 1, where s = m] res m poll_partly_read by auto
    next
      case 2
      then have "ret = 0" "t = m" using run c by simp_all
      then show ?thesis
        using res m poll_partly_read poll_word [of "[]" "Suc n" x region offset] 2 by auto
    next
      case 3
      then have "fails r2 m2 = (ret, t)" using run c d by simp
      then show ?thesis
        using fails_result [OF 3(3), where s = m2] res m
          poll_partly_Cons [OF partly_Nil [OF poll_words_nonempty] 3(2), of n region offset]
        by (intro conjI exI [of _ "[Sv_read region offset x, Delay 1]"]) auto
    next
      case 4
      then have "poll_from n io region offset m2 = (ret, t)" using run c d by simp
      from followsD [OF Suc m(2) this] obtain u where "steady tx t" "sv_trace t = sv_trace m2 @ u"
          "partly (poll_words n region offset) u" "ret = 0 \<longrightarrow> u \<in> poll_words n region offset" by auto
      then show ?thesis
        using res poll_partly_Cons [OF _ 4(2)] poll_words_Cons [OF _ 4(2)]
        by (intro conjI exI [of _ "Sv_read region offset x # Delay 1 # u"]) auto
    qed
  qed (rule poll_words_nonempty)
qed

lemma follows_poll:
  "follows sv_trace (steady tx) (poll_words 100000 region offset) (mt6878_camsv_poll_idle io region offset)"
  unfolding mt6878_camsv_poll_idle_def by (rule follows_poll_from)

section \<open>The scripts of submission and stop\<close>

definition verify_script :: "sv_event list set list" where
  "verify_script = map (\<lambda>owner. {[Verify owner]})
     [MT6878_SV_RESOURCES, MT6878_SV_IOMMU, MT6878_SV_ROUTE, MT6878_SV_IRQ, MT6878_SV_COMPOSER]"

definition output_script :: "u32 \<Rightarrow> u32 \<Rightarrow> sv_event list set list" where
  "output_script offset dt =
    [update_words MT6878_SV_SENINF offset SV_VC_MASK 0,
     update_words MT6878_SV_SENINF offset SV_DT_MASK (push_bit SV_DT_SHIFT dt),
     update_words MT6878_SV_SENINF offset SV_VC_EN_MASK SV_VC_EN_MASK,
     update_words MT6878_SV_SENINF offset SV_DT_EN_MASK SV_DT_EN_MASK]"

definition cq_script :: "mt6878_camsv_job \<Rightarrow> sv_event list set list" where
  "cq_script job =
    [{[Sv_write MT6878_SV_CQ SV_CQ_SIZE (buffer_size (cq_buffer job))]},
     {[Sv_write MT6878_SV_CQ SV_CQ_MSB (ucast (drop_bit 32 (dma (cq_buffer job))))]},
     {[Sv_write MT6878_SV_CQ SV_CQ_LSB (ucast (dma (cq_buffer job)))]},
     {[Sv_write MT6878_SV_CQ SV_CQ_START 1]},
     {[Barrier]},
     update_words MT6878_SV_CQ SV_CQ_EN (push_bit 12 1) (push_bit 12 1)]"

definition submit_words :: "mt6878_camsv_job \<Rightarrow> sv_event list set" where
  "submit_words job = conc (concs verify_script)
     (conc (concs [concs (output_script (cammux_offset job (raw_tag job)) 0x2b),
                   concs (output_script (cammux_offset job (pdaf_tag job)) 0x30)])
       (concs (cq_script job)))"

definition clamp_script :: "sv_event list set list" where
  "clamp_script = [{[Verify MT6878_SV_STOPPED]}, {[Smi_clamp 31 1]}]"

definition reset_script :: "sv_event list set list" where
  "reset_script =
    [{[Sv_write MT6878_SV_DMA SV_DMA_RESET 0]}, {[Sv_write MT6878_SV_DMA SV_DMA_RESET 1]}, {[Barrier]},
     poll_words 100000 MT6878_SV_DMA SV_DMA_RESET,
     {[Sv_write MT6878_SV_CENTRAL SV_DCM_DIS 0]}, {[Sv_write MT6878_SV_CENTRAL SV_SW_CTL 0]},
     {[Sv_write MT6878_SV_CENTRAL SV_SW_CTL 1]}, {[Sv_write MT6878_SV_DMA SV_DMA_RESET 0]},
     {[Sv_write MT6878_SV_CENTRAL SV_SW_CTL 0]}, {[Barrier]},
     {[Sv_write MT6878_SV_CQ SV_CQ_RESET 0]}, {[Sv_write MT6878_SV_CQ SV_CQ_RESET 1]}, {[Barrier]},
     poll_words 100000 MT6878_SV_CQ SV_CQ_RESET,
     {[Sv_write MT6878_SV_CQ SV_CQ_RESET 0]}, {[Barrier]},
     update_words MT6878_SV_CQ SV_CQ_EN (push_bit 16 1) (push_bit 16 1),
     update_words MT6878_SV_CQ SV_CQ_SUB_EN (push_bit 16 1) (push_bit 16 1),
     update_words MT6878_SV_CQ SV_CQ_SUB_EN (push_bit 16 1) 0,
     update_words MT6878_SV_CQ SV_CQ_EN (push_bit 16 1) 0,
     {[Barrier]}, {[Smi_clamp 31 0]}]"

definition stop_words :: "sv_event list set" where
  "stop_words = conc (concs clamp_script) (concs reset_script)"

lemmas follows_steps = follows_calls follows_write follows_update follows_poll

lemma follows_verify: "follows sv_trace (steady tx) (concs verify_script) (verify_owners io)"
  unfolding verify_owners_def verify_script_def by (rule follows_chain) (simp add: follows_steps)

lemma follows_output: "follows sv_trace (steady tx) (concs (output_script offset dt)) (cammux_output io offset dt)"
  unfolding cammux_output_def output_script_def by (rule follows_chain) (simp add: follows_steps)

lemma follows_route:
  "follows sv_trace (steady tx) (concs [concs (output_script (cammux_offset job (raw_tag job)) 0x2b),
     concs (output_script (cammux_offset job (pdaf_tag job)) 0x30)]) (cammux_route io job)"
  unfolding cammux_route_def by (rule follows_chain) (simp add: follows_output)

lemma follows_cq: "follows sv_trace (steady tx) (concs (cq_script job)) (apply_cq io job)"
  unfolding apply_cq_def cq_script_def
  by (rule follows_chain) (simp only: list_all2_Cons list_all2_Nil follows_steps simp_thms)

lemma follows_clamp: "follows sv_trace (steady tx) (concs clamp_script) (stop_clamp io)"
  unfolding stop_clamp_def clamp_script_def by (rule follows_chain) (simp add: follows_steps)

lemma follows_reset: "follows sv_trace (steady tx) (concs reset_script) (stop_reset io)"
  unfolding stop_reset_def reset_script_def
  by (rule follows_chain) (simp only: list_all2_Cons list_all2_Nil follows_steps simp_thms)

section \<open>Submission and stop as transitions\<close>

lemma script_nonempty:
  "concs verify_script \<noteq> {}" "concs (cq_script job) \<noteq> {}" "concs reset_script \<noteq> {}" "concs clamp_script \<noteq> {}"
  "concs [concs (output_script (cammux_offset job (raw_tag job)) 0x2b),
     concs (output_script (cammux_offset job (pdaf_tag job)) 0x30)] \<noteq> {}"
  using follows_verify follows_cq follows_reset follows_clamp follows_route by (blast dest: follows_nonempty)+

text \<open>A submission that was refused, or one whose accesses went as far as \<open>u\<close>.\<close>

definition attempt :: "mt6878_camsv_job \<Rightarrow> mt6878_camsv_transaction \<Rightarrow> int \<Rightarrow> mt6878_camsv_transaction \<Rightarrow> sv_event list \<Rightarrow> bool" where
  "attempt job tx ret tx' u \<longleftrightarrow> partly (submit_words job) u \<and> (ret = 0 \<longrightarrow> u \<in> submit_words job) \<and>
     (\<exists>e h. tx' = tx\<lparr> attempted := 1, tx_job := job, hw_attempted := h,
        submitted := (if ret = 0 then 1 else submitted tx), sv_first_error := e \<rparr>)"

lemma attempt_early:
  assumes "partly (concs verify_script) u" and "ret \<noteq> 0"
    and "tx' = tx\<lparr> attempted := 1, tx_job := job, sv_first_error := e \<rparr>"
  shows "attempt job tx ret tx' u"
proof -
  have "partly (submit_words job) u"
    unfolding submit_words_def using assms(1) script_nonempty by (intro partly_conc_left conc_nonempty)
  moreover have "tx' = tx\<lparr> attempted := 1, tx_job := job, hw_attempted := hw_attempted tx,
      submitted := (if ret = 0 then 1 else submitted tx), sv_first_error := e \<rparr>"
    using assms(2,3) by (cases tx) simp
  ultimately show ?thesis using assms(2) unfolding attempt_def by blast
qed

lemma submit_result:
  assumes run: "mt6878_camsv_submit io jobp (tx, w, tr) = (ret, (tx', w', tr'))"
  shows "tr' = tr \<and> ret \<noteq> 0 \<and> (\<exists>e. tx' = tx\<lparr> sv_first_error := e \<rparr>) \<or>
    attempted tx = 0 \<and> off_attempted tx = 0 \<and> mt6878_camsv_validate io jobp = 0 \<and>
      (\<exists>u. tr' = tr @ u \<and> attempt (contents jobp) tx ret tx' u)"
proof (cases "sv_first_error tx \<noteq> 0 \<or> (attempted tx \<noteq> 0 \<or> off_attempted tx \<noteq> 0) \<or> mt6878_camsv_validate io jobp \<noteq> 0")
  case True
  then consider "sv_first_error tx \<noteq> 0" | "sv_first_error tx = 0" "attempted tx \<noteq> 0 \<or> off_attempted tx \<noteq> 0"
    | "sv_first_error tx = 0" "\<not> (attempted tx \<noteq> 0 \<or> off_attempted tx \<noteq> 0)" "mt6878_camsv_validate io jobp \<noteq> 0" by blast
  then show ?thesis
  proof cases
    case 3
    then have "fails (mt6878_camsv_validate io jobp) (tx, w, tr) = (ret, (tx', w', tr'))"
      using run by (simp add: mt6878_camsv_submit_def Let_def)
    then show ?thesis
      using 3 by (auto simp: fails_def mt6878_camsv_error_def Let_def)
  qed (use run in \<open>auto simp: mt6878_camsv_submit_def intro: exI [of _ "sv_first_error tx"]\<close>)
next
  case False
  let ?b = "contents io" and ?job = "contents jobp"
  let ?tx1 = "tx\<lparr> attempted := 1, tx_job := ?job \<rparr>"
  let ?tx2 = "?tx1\<lparr> hw_attempted := 1 \<rparr>"
  note go = False [simplified]
  obtain r1 t1 d1 where v: "verify_owners ?b (?tx1, w, tr) = (r1, (t1, d1))" by (metis prod.exhaust)
  have "steady ?tx1 (?tx1, w, tr)" by (auto simp: steady_def intro: exI [of _ "sv_first_error tx"])
  from followsD [OF follows_verify this v] obtain u1 where u1: "steady ?tx1 (t1, d1)" "snd d1 = tr @ u1"
      "partly (concs verify_script) u1" "r1 = 0 \<longrightarrow> u1 \<in> concs verify_script" by auto
  obtain e1 where t1: "t1 = ?tx1\<lparr> sv_first_error := e1 \<rparr>" using u1(1) by (auto simp: steady_def)
  have body: "(ret, (tx', w', tr')) = (if r1 \<noteq> 0 then fails r1 (t1, d1)
      else case cammux_route ?b ?job (t1\<lparr> hw_attempted := 1 \<rparr>, d1) of (r, s) \<Rightarrow>
        if r \<noteq> 0 then (r, s) else case apply_cq ?b ?job s of (r, s) \<Rightarrow>
        if r \<noteq> 0 then fails r s else case s of (tx, d) \<Rightarrow> (0, (tx\<lparr> submitted := 1 \<rparr>, d)))"
    using run go v by (cases "r1 = 0") (simp_all add: mt6878_camsv_submit_def Let_def)
  show ?thesis
  proof (cases "r1 = 0")
    case False
    then have f: "fails r1 (t1, d1) = (ret, (tx', w', tr'))" using body by simp
    then have "tr' = tr @ u1" "ret \<noteq> 0" "\<exists>e. tx' = ?tx1\<lparr> sv_first_error := e \<rparr>"
      using fails_result(1,2) [OF False, of "(t1, d1)"] fails_result(3) [OF False u1(1)] u1(2) by (auto simp: steady_def)
    then show ?thesis using go attempt_early [OF u1(3)] by auto
  next
    case r1: True
    obtain r2 t2 d2 where c: "cammux_route ?b ?job (t1\<lparr> hw_attempted := 1 \<rparr>, d1) = (r2, (t2, d2))" by (metis prod.exhaust)
    have "steady ?tx2 (t1\<lparr> hw_attempted := 1 \<rparr>, d1)" by (cases tx) (auto simp: steady_def t1)
    from followsD [OF follows_route this c] obtain u2 where u2: "steady ?tx2 (t2, d2)" "snd d2 = snd d1 @ u2"
        "partly (concs [concs (output_script (cammux_offset ?job (raw_tag ?job)) 0x2b),
           concs (output_script (cammux_offset ?job (pdaf_tag ?job)) 0x30)]) u2"
        "r2 = 0 \<longrightarrow> u2 \<in> concs [concs (output_script (cammux_offset ?job (raw_tag ?job)) 0x2b),
           concs (output_script (cammux_offset ?job (pdaf_tag ?job)) 0x30)]" by auto
    obtain r3 t3 d3 where q: "apply_cq ?b ?job (t2, d2) = (r3, (t3, d3))" by (metis prod.exhaust)
    from followsD [OF follows_cq u2(1) q] obtain u3 where u3: "steady ?tx2 (t3, d3)" "snd d3 = snd d2 @ u3"
        "partly (concs (cq_script ?job)) u3" "r3 = 0 \<longrightarrow> u3 \<in> concs (cq_script ?job)" by auto
    have w1: "u1 \<in> concs verify_script" using u1(4) r1 by simp
    have shape: "\<exists>e h. t = tx\<lparr> attempted := 1, tx_job := ?job, hw_attempted := h, submitted := submitted tx, sv_first_error := e \<rparr>"
      if "steady ?tx2 (t, d)" for t d
      using that by (cases tx) (auto simp: steady_def)
    show ?thesis
    proof (cases "r2 = 0")
      case False
      then have "ret = r2" "tx' = t2" "tr' = tr @ u1 @ u2" using body r1 c u1(2) u2(2) by auto
      moreover have "partly (submit_words ?job) (u1 @ u2)"
        unfolding submit_words_def using w1 u2(3) script_nonempty by (intro partly_conc_right partly_conc_left)
      ultimately show ?thesis using go False shape [OF u2(1)] by (auto simp: attempt_def)
    next
      case r2: True
      have w2: "u2 \<in> concs [concs (output_script (cammux_offset ?job (raw_tag ?job)) 0x2b),
           concs (output_script (cammux_offset ?job (pdaf_tag ?job)) 0x30)]" using u2(4) r2 by simp
      have part: "partly (submit_words ?job) (u1 @ u2 @ u3)"
        unfolding submit_words_def using w1 w2 u3(3) by (intro partly_conc_right)
      show ?thesis
      proof (cases "r3 = 0")
        case True
        then have "ret = 0" "tx' = t3\<lparr> submitted := 1 \<rparr>" "tr' = tr @ u1 @ u2 @ u3" using body r1 r2 c q u1(2) u2(2) u3(2) by auto
        moreover have "u1 @ u2 @ u3 \<in> submit_words ?job"
          unfolding submit_words_def using w1 w2 u3(4) True by (intro concI) simp_all
        moreover have "\<exists>e h. t3\<lparr> submitted := 1 \<rparr> = tx\<lparr> attempted := 1, tx_job := ?job, hw_attempted := h, submitted := 1, sv_first_error := e \<rparr>"
          using u3(1) by (cases tx) (auto simp: steady_def)
        ultimately show ?thesis using go part by (auto simp: attempt_def)
      next
        case False
        then have f: "fails r3 (t3, d3) = (ret, (tx', w', tr'))" using body r1 r2 c q by simp
        then have "tr' = tr @ u1 @ u2 @ u3" "ret \<noteq> 0" "steady ?tx2 (tx', w', tr')"
          using fails_result(1,2) [OF False, of "(t3, d3)"] fails_result(3) [OF False u3(1)] u1(2) u2(2) u3(2) by auto
        then show ?thesis using go part shape [of tx' "(w', tr')"] by (auto simp: attempt_def)
      qed
    qed
  qed
qed


section \<open>Stop as a transition\<close>

lemma stop_result:
  assumes run: "mt6878_camsv_stop io (tx, w, tr) = (ret, (tx', w', tr'))"
  shows "tr' = tr \<and> tx' = tx \<and> ret \<noteq> 0 \<or>
    attempted tx \<noteq> 0 \<and> off_attempted tx = 0 \<and> mt6878_camsv_validate io (At 0 (tx_job tx)) = 0 \<and>
      (\<exists>u e. tr' = tr @ u \<and> partly stop_words u \<and>
        (tx' = tx\<lparr> off_attempted := 1, sv_first_error := e \<rparr> \<and> ret \<noteq> 0 \<or>
         u \<in> stop_words \<and> ret = e \<and>
           tx' = tx\<lparr> off_attempted := 1, sv_first_error := e, quiesced := 1, submitted := 0 \<rparr>))"
proof (cases "attempted tx = 0 \<or> mt6878_camsv_validate io (At 0 (tx_job tx)) \<noteq> 0 \<or> off_attempted tx \<noteq> 0")
  case True
  then show ?thesis using run by (auto simp: mt6878_camsv_stop_def split: if_splits)
next
  case False
  let ?b = "contents io" and ?tx1 = "tx\<lparr> off_attempted := 1 \<rparr>"
  note go = False [simplified]
  obtain r1 t1 d1 where v: "stop_clamp ?b (?tx1, w, tr) = (r1, (t1, d1))" by (metis prod.exhaust)
  have "steady ?tx1 (?tx1, w, tr)" by (cases tx) (auto simp: steady_def)
  from followsD [OF follows_clamp this v] obtain u1 where u1: "steady ?tx1 (t1, d1)" "snd d1 = tr @ u1"
      "partly (concs clamp_script) u1" "r1 = 0 \<longrightarrow> u1 \<in> concs clamp_script" by auto
  obtain r2 t2 d2 where q: "stop_reset ?b (t1, d1) = (r2, (t2, d2))" by (metis prod.exhaust)
  from followsD [OF follows_reset u1(1) q] obtain u2 where u2: "steady ?tx1 (t2, d2)" "snd d2 = snd d1 @ u2"
      "partly (concs reset_script) u2" "r2 = 0 \<longrightarrow> u2 \<in> concs reset_script" by auto
  have body: "(ret, (tx', w', tr')) = (if r1 \<noteq> 0 then fails r1 (t1, d1) else if r2 \<noteq> 0 then fails r2 (t2, d2)
      else (sv_first_error t2, (t2\<lparr> quiesced := 1, submitted := 0 \<rparr>, d2)))"
    using run go v q by (cases "r1 = 0"; cases "r2 = 0") (simp_all add: mt6878_camsv_stop_def Let_def)
  show ?thesis
  proof (cases "r1 = 0")
    case False
    then have "fails r1 (t1, d1) = (ret, (tx', w', tr'))" using body by simp
    then have "tr' = tr @ u1" "ret \<noteq> 0" "steady ?tx1 (tx', w', tr')"
      using fails_result(1,2) [OF False, of "(t1, d1)"] fails_result(3) [OF False u1(1)] u1(2) by auto
    moreover have "partly stop_words u1"
      unfolding stop_words_def using u1(3) script_nonempty by (intro partly_conc_left)
    ultimately show ?thesis using go by (auto simp: steady_def)
  next
    case r1: True
    then have w1: "u1 \<in> concs clamp_script" using u1(4) by simp
    have part: "partly stop_words (u1 @ u2)"
      unfolding stop_words_def using w1 u2(3) by (rule partly_conc_right)
    show ?thesis
    proof (cases "r2 = 0")
      case False
      then have "fails r2 (t2, d2) = (ret, (tx', w', tr'))" using body r1 by simp
      then have "tr' = tr @ u1 @ u2" "ret \<noteq> 0" "steady ?tx1 (tx', w', tr')"
        using fails_result(1,2) [OF False, of "(t2, d2)"] fails_result(3) [OF False u2(1)] u1(2) u2(2) by auto
      then show ?thesis using go part by (auto simp: steady_def)
    next
      case True
      then have "u1 @ u2 \<in> stop_words" unfolding stop_words_def using w1 u2(4) by (auto intro: concI)
      moreover obtain e where "t2 = ?tx1\<lparr> sv_first_error := e \<rparr>" using u2(1) by (auto simp: steady_def)
      ultimately show ?thesis using body r1 True go part u1(2) u2(2) by auto
    qed
  qed
qed


section \<open>Sequences of calls\<close>

datatype sv_call = Submit mt6878_camsv_job | Done u32 u32 | Stop

fun sv_step :: "'w mt6878_camsv_backend ptr \<Rightarrow> sv_call \<Rightarrow> 'w sv_state \<Rightarrow> 'w sv_state \<times> int" where
  "sv_step io (Submit job) s = prod.swap (mt6878_camsv_submit io (At 0 job) s)"
| "sv_step io (Done done_status sequence) (tx, d) =
    (case mt6878_camsv_done tx done_status sequence of (ret, tx) \<Rightarrow> ((tx, d), ret))"
| "sv_step io Stop s = prod.swap (mt6878_camsv_stop io s)"

text \<open>
  The life of a transaction: nothing before the submission, its accesses in their order, then
  those of the stop.
\<close>

definition sv_ok :: "'w mt6878_camsv_backend ptr \<Rightarrow> 'w sv_state \<Rightarrow> bool" where
  "sv_ok io s \<longleftrightarrow> (case s of (tx, w, tr) \<Rightarrow>
     if attempted tx = 0 then tr = [] \<and> submitted tx = 0 \<and> quiesced tx = 0 \<and> off_attempted tx = 0 \<and> complete_tags tx = 0
     else mt6878_camsv_validate io (At 0 (tx_job tx)) = 0 \<and>
       (\<exists>u v. tr = u @ v \<and> partly (submit_words (tx_job tx)) u \<and>
         (if off_attempted tx = 0 then v = [] \<and> quiesced tx = 0 else partly stop_words v) \<and>
         (submitted tx \<noteq> 0 \<or> complete_tags tx \<noteq> 0 \<longrightarrow> u \<in> submit_words (tx_job tx)) \<and>
         (quiesced tx \<noteq> 0 \<longrightarrow> v \<in> stop_words \<and> submitted tx = 0)) \<and>
       tag_set (complete_tags tx) \<subseteq> {unat (raw_tag (tx_job tx)), unat (pdaf_tag (tx_job tx))})"

lemma submit_keeps: "sv_ok io s \<Longrightarrow> sv_ok io (snd (mt6878_camsv_submit io (At 0 job) s))"
proof -
  assume ok: "sv_ok io s"
  obtain tx w tr where s: "s = (tx, w, tr)" by (metis prod.exhaust)
  obtain ret tx' w' tr' where run: "mt6878_camsv_submit io (At 0 job) (tx, w, tr) = (ret, (tx', w', tr'))" by (metis prod.exhaust)
  from submit_result [OF run] consider e where "tr' = tr" "tx' = tx\<lparr> sv_first_error := e \<rparr>"
    | u where "attempted tx = 0" "mt6878_camsv_validate io (At 0 job) = 0" "tr' = tr @ u" "attempt job tx ret tx' u" by auto
  then show ?thesis
  proof cases
    case 1
    then show ?thesis using ok run s by (simp add: sv_ok_def split del: if_split cong: if_cong)
  next
    case 2
    then show ?thesis using ok run s by (auto simp: sv_ok_def attempt_def)
  qed
qed

lemma stop_keeps:
  assumes ok: "sv_ok io s"
  shows "sv_ok io (snd (mt6878_camsv_stop io s))"
proof -
  obtain tx w tr where s: "s = (tx, w, tr)" by (metis prod.exhaust)
  obtain ret tx' w' tr' where run: "mt6878_camsv_stop io (tx, w, tr) = (ret, (tx', w', tr'))" by (metis prod.exhaust)
  have "sv_ok io (tx', w', tr')"
    using stop_result [OF run]
  proof (elim disjE conjE exE)
    assume "tr' = tr" "tx' = tx"
    then show ?thesis using ok s by (simp add: sv_ok_def split del: if_split cong: if_cong)
  next
    fix u e
    assume go: "attempted tx \<noteq> 0" "off_attempted tx = 0" "tr' = tr @ u" "partly stop_words u" "tx' = tx\<lparr> off_attempted := 1, sv_first_error := e \<rparr>"
    then show ?thesis using ok s by (simp add: sv_ok_def) blast
  next
    fix u e
    assume go: "attempted tx \<noteq> 0" "off_attempted tx = 0" "tr' = tr @ u" "partly stop_words u" "u \<in> stop_words"
        "tx' = tx\<lparr> off_attempted := 1, sv_first_error := e, quiesced := 1, submitted := 0 \<rparr>"
    then show ?thesis using ok s by (simp add: sv_ok_def) blast
  qed
  then show ?thesis using run s by simp
qed

lemma done_tags_fold:
  "tag_set (fold (\<lambda>(group, g) tags. if done_status AND push_bit (16 + group) 1 \<noteq> 0 then tags OR g else tags) (enumerate n gs) acc)
    \<subseteq> tag_set acc \<union> \<Union> (tag_set ` set gs)"
proof (induction gs arbitrary: n acc)
  case (Cons g gs)
  show ?case using Cons [of "Suc n" "acc OR g"] Cons [of "Suc n" acc] by (auto simp: tag_set_or)
qed simp

lemma done_tags_within: "tag_set (done_tags done_status groups) \<subseteq> \<Union> (tag_set ` set (take 4 groups))"
  using done_tags_fold [of done_status 0 "take 4 groups" 0] by (simp add: done_tags_def)

lemma done_result:
  "mt6878_camsv_done tx done_status sequence = (ret, tx') \<Longrightarrow>
    tx' = tx \<and> ret \<in> {0, - EINVAL, - ESTALE, - EALREADY} \<or>
    submitted tx \<noteq> 0 \<and> off_attempted tx = 0 \<and> sv_first_error tx = 0 \<and> sequence = job_sequence (tx_job tx) \<and>
      (let tags = done_tags done_status (group_tags (tx_job tx)) in
       \<not> tag_set tags \<subseteq> tag_set (complete_tags tx) \<and> tx' = tx\<lparr> complete_tags := complete_tags tx OR tags \<rparr> \<and>
       ret = (if complete_tags tx' = job_tags (tx_job tx) then 1 else 0))"
proof -
  assume run: "mt6878_camsv_done tx done_status sequence = (ret, tx')"
  let ?tags = "done_tags done_status (group_tags (tx_job tx))"
  have sub: "complete_tags tx AND ?tags = ?tags \<longleftrightarrow> tag_set ?tags \<subseteq> tag_set (complete_tags tx)"
    unfolding tag_set_inject [symmetric] by (auto simp: tag_set_def bit_and_iff)
  show ?thesis
    using run unfolding mt6878_camsv_done_def Let_def sub by (auto split: if_splits)
qed

lemma done_keeps: "sv_ok io (tx, d) \<Longrightarrow> sv_ok io (snd (mt6878_camsv_done tx done_status sequence), d)"
proof -
  assume ok: "sv_ok io (tx, d)"
  obtain ret tx' where run: "mt6878_camsv_done tx done_status sequence = (ret, tx')" by (metis prod.exhaust)
  show ?thesis
  proof (cases "tx' = tx")
    case True
    then show ?thesis using ok run by simp
  next
    case False
    let ?tags = "done_tags done_status (group_tags (tx_job tx))"
    have go: "submitted tx \<noteq> 0" "off_attempted tx = 0" "tx' = tx\<lparr> complete_tags := complete_tags tx OR ?tags \<rparr>"
      using done_result [OF run] False by (auto simp: Let_def)
    then have att: "attempted tx \<noteq> 0" using ok by (auto simp: sv_ok_def split: prod.splits)
    then have "mt6878_camsv_validate io (At 0 (tx_job tx)) = 0" using ok by (auto simp: sv_ok_def split: prod.splits)
    then have "tag_set ?tags \<subseteq> {unat (raw_tag (tx_job tx)), unat (pdaf_tag (tx_job tx))}"
      using validate_sound done_tags_within unfolding job_ok_def by metis
    then show ?thesis using ok run go att by (auto simp: sv_ok_def tag_set_or split: prod.splits)
  qed
qed

lemma sv_step_keeps:
  assumes "sv_ok io s"
  shows "sv_ok io (fst (sv_step io c s))"
proof (cases c)
  case (Done st sq)
  obtain tx d where "s = (tx, d)" by (metis prod.exhaust)
  then show ?thesis using assms Done done_keeps [of io tx d st sq] by (simp add: split_beta)
qed (simp_all add: assms submit_keeps stop_keeps del: split_paired_All)

interpretation sv_kept: invariant_owner "sv_step io" "sv_ok io" for io :: "'w mt6878_camsv_backend ptr"
  by unfold_locales (rule sv_step_keeps)


section \<open>Length of a stop\<close>

text \<open>\<open>within n A\<close>: no word of \<open>A\<close> is longer than \<open>n\<close>.\<close>

definition within :: "nat \<Rightarrow> sv_event list set \<Rightarrow> bool" where
  "within n A \<longleftrightarrow> (\<forall>w \<in> A. length w \<le> n)"

lemma within_conc: "within m A \<Longrightarrow> within n B \<Longrightarrow> within (m + n) (conc A B)"
  by (fastforce simp: within_def conc_def)

lemma within_concs: "list_all2 within ns As \<Longrightarrow> within (sum_list ns) (concs As)"
  by (induction rule: list_all2_induct) (simp_all add: within_conc, simp add: within_def)

lemma within_partly: "within n A \<Longrightarrow> partly A u \<Longrightarrow> length u \<le> n"
  by (fastforce simp: within_def partly_def dest: prefix_length_le)

lemma within_poll: "within (2 * n + 1) (poll_words n region offset)"
  by (auto simp: within_def poll_words_def length_concat comp_def sum_list_triv)

lemma within_steps: "within 1 {[e]}" "within 2 (update_words region offset bits v)"
  by (auto simp: within_def update_words_def)

lemma within_stop: "within 400028 stop_words"
proof -
  have "list_all2 within [1, 1, 1, 200001, 1, 1, 1, 1, 1, 1, 1, 1, 1, 200001, 1, 1, 2, 2, 2, 2, 1, 1] reset_script"
    using within_poll [of 100000] within_steps
    by (simp only: reset_script_def list_all2_Cons list_all2_Nil simp_thms) simp
  moreover have "list_all2 within [1, 1] clamp_script"
    using within_steps by (simp only: clamp_script_def list_all2_Cons list_all2_Nil simp_thms)
  ultimately have "within 400026 (concs reset_script)" "within 2 (concs clamp_script)"
    by (auto dest!: within_concs simp: numeral_2_eq_2)
  then have "within (2 + 400026) stop_words" unfolding stop_words_def by (intro within_conc)
  then show ?thesis by simp
qed

section \<open>Properties\<close>

text \<open>
  \<open>mt6878_camsv_layout_validate\<close> accepts a DMA layout exactly when its geometry, evaluated
  without wrap-around, fits: width, height and line stride at most 65535, one of the three
  formats, a stride that holds the packed row rounded up to the bus width and is a multiple of
  it, an image of stride times height bytes, and an image no larger than the buffer.
\<close>

lemma camsv_layout_exact:
  "mt6878_camsv_layout_validate l capacity = 0 \<longleftrightarrow>
    0 < unat (layout_width l) \<and> unat (layout_width l) \<le> 65535 \<and> 0 < unat (layout_height l) \<and> unat (layout_height l) \<le> 65535 \<and>
    unat (pixel_mode_shift l) \<le> 4 \<and> layout_format l \<in> {SV_DMA_FMT_BAYER8, SV_DMA_FMT_BAYER10, SV_DMA_FMT_BAYER10_MIPI} \<and>
    row_bytes_needed l \<le> unat (bytesperline l) \<and> unat (bytesperline l) \<le> 65535 \<and>
    2 * 2 ^ unat (pixel_mode_shift l) dvd unat (bytesperline l) \<and>
    unat (sizeimage l) = unat (bytesperline l) * unat (layout_height l) \<and> unat (sizeimage l) \<le> unat capacity"
  by (rule layout_result)

text \<open>
  C34. A job \<open>mt6878_camsv_validate\<close> accepts is safe to hand to the DMA engine: the images fit
  their buffers, the three buffers lie below 2 ^ 34 and are pairwise disjoint as sets of
  addresses (with no wrap-around in the end addresses), and the four tag groups partition the
  set of the two tags of the job.
\<close>

theorem camsv_validate_sound:
  assumes "mt6878_camsv_validate io (At p job) = 0"
  shows "backend_complete (contents io) \<and> job_ok job"
  using validate_sound [OF assms] by simp

definition sample_backend :: "unit mt6878_camsv_backend" where
  "sample_backend = \<lparr> sv_verify = Some (\<lambda>_ _ w. (0, w)), sv_read = Some (\<lambda>_ _ w. ((0, 2), w)), sv_write = Some (\<lambda>_ _ _ w. (0, w)),
     sv_barrier = Some (\<lambda>w. (0, w)), sv_delay_us = Some (\<lambda>_ w. (0, w)), sv_smi_clamp = Some (\<lambda>_ _ w. (0, w)),
     region_sizes = [0x1000, 0x1000, 0x1000, 0x18000] \<rparr>"

definition sample_job :: mt6878_camsv_job where
  "sample_job = \<lparr> sv_id = 0, job_width = 4000, job_height = 3000, job_sequence = 1, raw_tag = 0, pdaf_tag = 1,
     group_tags = [1, 2, 0, 0],
     raw_buffer = \<lparr> dma = 0x10000000, buffer_size = 15000000, mapped = 1 \<rparr>,
     pdaf_buffer = \<lparr> dma = 0x20000000, buffer_size = 40000, mapped = 1 \<rparr>,
     cq_buffer = \<lparr> dma = 0x30000000, buffer_size = 0x1000, mapped = 1 \<rparr>,
     raw_layout = \<lparr> layout_format = 80, layout_width = 4000, layout_height = 3000, bytesperline = 5000, sizeimage = 15000000, pixel_mode_shift = 0 \<rparr>,
     pdaf_layout = \<lparr> layout_format = 0, layout_width = 400, layout_height = 100, bytesperline = 400, sizeimage = 40000, pixel_mode_shift = 0 \<rparr> \<rparr>"

theorem camsv_validate_sound_witness:
  "mt6878_camsv_validate (At 0 sample_backend) (At 0 sample_job) = 0 \<and> job_ok sample_job"
proof -
  have "mt6878_camsv_validate (At 0 sample_backend) (At 0 sample_job) = 0"
    by (simp add: mt6878_camsv_validate_def sample_backend_def sample_job_def backend_complete_def job_tags_def Let_def
      mt6878_camsv_layout_validate_def mt6878_camsv_range_def mt6878_camsv_overlap_def
      SV_DMA_FMT_BAYER8_def SV_DMA_FMT_BAYER10_def SV_DMA_FMT_BAYER10_MIPI_def)
  then show ?thesis using camsv_validate_sound by blast
qed

text \<open>
  C33. Whatever sequence of submissions, completion interrupts and stops is made on a fresh
  transaction, and whatever the backend answers, the hardware sees at most one submission, in
  the vendor order, for a validated job, followed by at most one stop: the trace is a prefix of
  a submission word, followed by a prefix of a stop word once a stop was attempted. A
  transaction that counts as submitted or has completed tags has made the whole submission, one
  that counts as quiesced has made the whole stop, from the clamp to its release, and is not
  submitted any more; completed tags are tags of the job.
\<close>

theorem camsv_run_ordered:
  "let (tx, w', tr) = fst (run_ops (sv_step io) calls (\<lparr> tx_job = job0, attempted = 0, submitted = 0, complete_tags = 0,
          off_attempted = 0, quiesced = 0, hw_attempted = 0, sv_first_error = 0 \<rparr>, w, []))
   in if attempted tx = 0 then tr = [] \<and> submitted tx = 0 \<and> quiesced tx = 0
      else job_ok (tx_job tx) \<and>
        (\<exists>u v. tr = u @ v \<and> partly (submit_words (tx_job tx)) u \<and>
          (if off_attempted tx = 0 then v = [] \<and> quiesced tx = 0 else partly stop_words v) \<and>
          (submitted tx = 0 \<and> complete_tags tx = 0 \<or> u \<in> submit_words (tx_job tx)) \<and>
          (quiesced tx = 0 \<or> v \<in> stop_words \<and> submitted tx = 0)) \<and>
        tag_set (complete_tags tx) \<subseteq> {unat (raw_tag (tx_job tx)), unat (pdaf_tag (tx_job tx))}"
proof -
  let ?s = "(\<lparr> tx_job = job0, attempted = 0, submitted = 0, complete_tags = 0, off_attempted = 0, quiesced = 0,
    hw_attempted = 0, sv_first_error = 0 \<rparr>, w, [])"
  have "sv_ok io ?s" by (simp add: sv_ok_def)
  from sv_kept.inv_run [OF this, of calls] show ?thesis
    by (auto simp: sv_ok_def dest!: validate_sound split: prod.splits if_splits)
qed

text \<open>
  C35. A stop always ends: its two polling loops give up after 100000 rounds, so from any state,
  with any backend, it makes at most 400028 accesses.
\<close>

theorem camsv_stop_bounded:
  "length (sv_trace (snd (mt6878_camsv_stop io s))) \<le> length (sv_trace s) + 400028"
proof -
  obtain tx w tr where s: "s = (tx, w, tr)" by (metis prod.exhaust)
  obtain ret tx' w' tr' where run: "mt6878_camsv_stop io (tx, w, tr) = (ret, (tx', w', tr'))" by (metis prod.exhaust)
  from stop_result [OF run] have "tr' = tr \<or> (\<exists>u. tr' = tr @ u \<and> partly stop_words u)" by blast
  then show ?thesis using run s within_partly [OF within_stop] by auto
qed

end
