(* ===== verification/Camsv_Recipe.thy ===== *)
theory Camsv_Recipe
  imports Ccd_Cq Camsv_Capture
begin

text \<open>
  The first-frame recipe of the camera receiver,
  \<^verbatim>\<open>patches/camera-ccd-cq/mt6878-camera-camsv-recipe.h\<close>: the inputs of a frame are checked
  against the one supported configuration, the 59 register writes of the frame are collected and
  appended to a fresh command queue, and the queue is closed. The configuration message is
  \<^verbatim>\<open>struct mtkcam_ipi_config_param\<close> of \<^verbatim>\<open>patches/camera-composer/mt6878-camera-ipi-abi.h\<close>.
\<close>

unbundle bit_operations_syntax

section \<open>The configuration message\<close>

definition MTKCAM_SUBDEV_CAMSV_START :: u32 where "MTKCAM_SUBDEV_CAMSV_START = 3"
definition MTKCAM_SUBDEV_CAMSV_END :: u32 where "MTKCAM_SUBDEV_CAMSV_END = 19"
definition MTKCAM_SUBDEV_MRAW_START :: u32 where "MTKCAM_SUBDEV_MRAW_START = 19"
definition MTKCAM_SUBDEV_MRAW_END :: u32 where "MTKCAM_SUBDEV_MRAW_END = 23"
definition MRAW_MAX_PIPE_USED :: nat where "MRAW_MAX_PIPE_USED = 4"
definition CAMSV_MAX_PIPE_USED :: nat where "CAMSV_MAX_PIPE_USED = 2"
definition CAMSV_MAX_TAGS :: nat where "CAMSV_MAX_TAGS = 8"

record mtkcam_ipi_point =
  point_x :: u16
  point_y :: u16

record mtkcam_ipi_size =
  size_w :: u16
  size_h :: u16

record mtkcam_ipi_buffer =
  ipi_iova :: u64
  ccd_fd :: u32
  ipi_size :: u32

record mtkcam_ipi_crop =
  crop_p :: mtkcam_ipi_point
  crop_s :: mtkcam_ipi_size

record mtkcam_ipi_input_param =
  input_fmt :: u32
  raw_pixel_id :: u8
  data_pattern :: u8
  pixel_mode :: u8
  pixel_mode_before_raw :: u8
  subsample :: u8
  in_crop :: mtkcam_ipi_crop

record mtkcam_ipi_sv_input_param =
  sv_pipe_id :: u32
  tag_id :: u8
  tag_order :: u8
  is_first_frame :: u8
  is_two_smi_out :: u8
  is_last_order_meta_off :: u8
  sv_input_input :: mtkcam_ipi_input_param

record mtkcam_ipi_mraw_input_param =
  mraw_pipe_id :: u32
  mraw_input_input :: mtkcam_ipi_input_param

record mtkcam_ipi_hw_mapping =
  map_pipe_id :: u8
  dev_mask :: u16

text \<open>The three orders are bit fields of four bits.\<close>

record mtkcam_ipi_config_param =
  config_flags :: u8
  config_input :: mtkcam_ipi_input_param
  sv_input :: "mtkcam_ipi_sv_input_param list list"
  mraw_input :: "mtkcam_ipi_mraw_input_param list"
  n_maps :: u8
  hw_maps :: "mtkcam_ipi_hw_mapping list"
  sw_feature :: u8
  exp_order :: "4 word"
  frame_order :: "4 word"
  vsync_order :: "4 word"
  w_cac_table :: mtkcam_ipi_buffer

record mt6878_camsv_recipe_resources =
  central :: u32
  dma_base :: u32
  central_size :: u32
  dma_size :: u32
  res_sv_id :: u32

text \<open>Address and value of a register write.\<close>

type_synonym mt6878_camsv_recipe_write = "u32 \<times> u32"

definition MT6878_CAMSV_RECIPE_WRITES :: nat where "MT6878_CAMSV_RECIPE_WRITES = 59"

section \<open>Admission of the inputs\<close>

text \<open>A loop that returns at its first failing round.\<close>

fun each :: "('a \<Rightarrow> int) \<Rightarrow> 'a list \<Rightarrow> int" where
  "each f [] = 0"
| "each f (x # xs) = (if f x \<noteq> 0 then f x else each f xs)"

definition tag_layout :: "mt6878_camsv_job \<Rightarrow> nat \<Rightarrow> mt6878_camsv_dma_layout" where
  "tag_layout job tag = (if of_nat tag = raw_tag job then raw_layout job else pdaf_layout job)"

definition sv_input_check :: "mt6878_camsv_job \<Rightarrow> mtkcam_ipi_config_param \<Rightarrow> nat \<times> nat \<Rightarrow> int" where
  "sv_input_check job config st = (case st of (slot, tag) \<Rightarrow>
     let input = sv_input config ! slot ! tag in
     if \<not> (slot = 0 \<and> job_tags job AND push_bit tag 1 \<noteq> 0)
     then (if sv_pipe_id input \<ge> MTKCAM_SUBDEV_CAMSV_START \<and> sv_pipe_id input < MTKCAM_SUBDEV_CAMSV_END then - EOPNOTSUPP else 0)
     else let layout = tag_layout job tag in
     if sv_pipe_id input \<noteq> sv_id job + MTKCAM_SUBDEV_CAMSV_START \<or>
        ucast (tag_id input) \<noteq> (of_nat tag :: u32) \<or> tag_order input \<noteq> 3 \<or> is_first_frame input \<noteq> 1 \<or>
        is_two_smi_out input \<noteq> 0 \<or> is_last_order_meta_off input \<noteq> 0 \<or> subsample (sv_input_input input) \<noteq> 0 \<or>
        data_pattern (sv_input_input input) \<noteq> 0 \<or> raw_pixel_id (sv_input_input input) \<noteq> 0 \<or>
        input_fmt (sv_input_input input) \<noteq> layout_format layout \<or>
        ucast (pixel_mode (sv_input_input input)) \<noteq> pixel_mode_shift layout \<or>
        point_x (crop_p (in_crop (sv_input_input input))) \<noteq> 0 \<or> point_y (crop_p (in_crop (sv_input_input input))) \<noteq> 0 \<or>
        ucast (size_w (crop_s (in_crop (sv_input_input input)))) \<noteq> layout_width layout \<or>
        ucast (size_h (crop_s (in_crop (sv_input_input input)))) \<noteq> layout_height layout
     then - EOPNOTSUPP else 0)"

definition mraw_check :: "mtkcam_ipi_config_param \<Rightarrow> nat \<Rightarrow> int" where
  "mraw_check config slot =
    (if mraw_pipe_id (mraw_input config ! slot) \<ge> MTKCAM_SUBDEV_MRAW_START \<and>
        mraw_pipe_id (mraw_input config ! slot) < MTKCAM_SUBDEV_MRAW_END then - EOPNOTSUPP else 0)"

definition map_check :: "mt6878_camsv_job \<Rightarrow> mtkcam_ipi_config_param \<Rightarrow> nat \<Rightarrow> int" where
  "map_check job config slot =
    (if ucast (map_pipe_id (hw_maps config ! slot)) \<noteq> sv_id job + MTKCAM_SUBDEV_CAMSV_START then - EOPNOTSUPP else 0)"

definition mt6878_camsv_recipe_inputs ::
  "mt6878_camsv_job ptr \<Rightarrow> mtkcam_ipi_config_param ptr \<Rightarrow> mt6878_camsv_recipe_resources ptr \<Rightarrow> int" where
  "mt6878_camsv_recipe_inputs jobp configp resp =
    (if jobp = Null \<or> configp = Null \<or> resp = Null then - EINVAL
     else let job = contents jobp; config = contents configp; res = contents resp in
     if sv_id job > 1 \<or> raw_tag job > 3 \<or> pdaf_tag job > 3 \<or> raw_tag job = pdaf_tag job then - EINVAL
     else if res_sv_id res \<noteq> sv_id job \<or> central_size res \<noteq> 0x1000 \<or> dma_size res \<noteq> 0x1000 \<or>
             central res < MT6878_CQ_REG_BASE \<or> central res AND 0xfff \<noteq> 0 \<or>
             central res > MT6878_CQ_REG_BASE + MT6878_CQ_REG_SIZE - 0x11000 \<or>
             dma_base res \<noteq> central res + 0x10000 then - ERANGE
     else if config_flags config \<noteq> 0 \<or> subsample (config_input config) \<noteq> 0 \<or> sw_feature config \<noteq> 0 \<or>
             exp_order config \<noteq> 0 \<or> frame_order config \<noteq> 0 \<or> vsync_order config \<noteq> 0 \<or>
             ipi_size (w_cac_table config) \<noteq> 0 \<or> pixel_mode_shift (raw_layout job) \<noteq> 0 \<or>
             pixel_mode_shift (pdaf_layout job) \<noteq> 0 then - EOPNOTSUPP
     else if n_maps config > 6 then - EINVAL
     else let ret = each (map_check job config) [0 ..< unat (n_maps config)] in
     if ret \<noteq> 0 then ret
     else if \<not> ((job_width job = 4000 \<and> job_height job = 3000) \<or> (job_width job = 4096 \<and> job_height job = 2304)) \<or>
             layout_width (raw_layout job) \<noteq> job_width job \<or> layout_height (raw_layout job) \<noteq> job_height job \<or>
             (layout_format (raw_layout job) \<noteq> SV_DMA_FMT_BAYER10 \<and> layout_format (raw_layout job) \<noteq> SV_DMA_FMT_BAYER10_MIPI) \<or>
             mt6878_camsv_layout_validate (raw_layout job) (buffer_size (raw_buffer job)) \<noteq> 0 \<or>
             mt6878_camsv_layout_validate (pdaf_layout job) (buffer_size (pdaf_buffer job)) \<noteq> 0 \<or>
             mt6878_camsv_range (raw_buffer job) (sizeimage (raw_layout job)) \<noteq> 0 \<or>
             mt6878_camsv_range (pdaf_buffer job) (sizeimage (pdaf_layout job)) \<noteq> 0 \<or>
             mt6878_camsv_overlap (raw_buffer job) (pdaf_buffer job) then - ERANGE
     else if group_tags job ! 0 \<noteq> job_tags job \<or> group_tags job ! 1 \<noteq> 0 \<or> group_tags job ! 2 \<noteq> 0 \<or> group_tags job ! 3 \<noteq> 0
     then - EOPNOTSUPP
     else let ret = each (sv_input_check job config) (List.product [0 ..< CAMSV_MAX_PIPE_USED] [0 ..< CAMSV_MAX_TAGS]) in
     if ret \<noteq> 0 then ret
     else each (mraw_check config) [0 ..< MRAW_MAX_PIPE_USED])"

section \<open>The register writes\<close>

definition mt6878_camsv_recipe_add ::
  "u32 \<Rightarrow> u32 \<Rightarrow> u32 \<Rightarrow> mt6878_camsv_recipe_write list \<Rightarrow> mt6878_camsv_recipe_write list" where
  "mt6878_camsv_recipe_add base offset v writes = writes @ [(base + offset, v)]"

definition add_all :: "(u32 \<times> u32 \<times> u32) list \<Rightarrow> mt6878_camsv_recipe_write list \<Rightarrow> mt6878_camsv_recipe_write list" where
  "add_all ws writes = fold (\<lambda>(base, offset, v). mt6878_camsv_recipe_add base offset v) ws writes"

text \<open>A round of the tag loop for an active tag.\<close>

definition add_tag :: "mt6878_camsv_job \<Rightarrow> mt6878_camsv_recipe_resources \<Rightarrow> nat \<Rightarrow> mt6878_camsv_recipe_write list \<Rightarrow> mt6878_camsv_recipe_write list" where
  "add_tag job res tag =
    (let layout = tag_layout job tag;
         buffer = (if of_nat tag = raw_tag job then raw_buffer job else pdaf_buffer job);
         format = (if layout_format layout = SV_DMA_FMT_BAYER10_MIPI then 8 else layout_format layout);
         shift = of_nat tag * 0x40; c = central res; d = dma_base res
     in add_all
       [(c, 0x548 + shift, push_bit 16 (layout_width layout)),
        (c, 0x54c + shift, push_bit 16 (layout_height layout)),
        (c, 0x554 + shift, format),
        (c, 0x55c + shift, 1),
        (c, 0x540 + shift, 0x8000),
        (d, 0x210 + shift, push_bit 16 (bytesperline layout) OR 0x10),
        (d, 0xa10 + shift, 0x10),
        (c, 0x554 + shift, format),
        (d, 0x210 + shift, push_bit 16 (bytesperline layout) OR 0x10),
        (d, 0x200 + shift, ucast (dma buffer)),
        (d, 0x204 + shift, ucast (drop_bit 32 (dma buffer))),
        (d, 0x218 + shift, 0),
        (d, 0x21c + shift, 0),
        (d, 0x220 + shift, 0),
        (d, 0x224 + shift, 0),
        (c, 0x540 + shift, 0x8080)])"

text \<open>The accumulated masks of the tag loop: images, errors and starts of frame.\<close>

definition tag_active :: "mt6878_camsv_job \<Rightarrow> nat \<Rightarrow> bool" where
  "tag_active job tag \<longleftrightarrow> job_tags job AND push_bit tag 1 \<noteq> 0"

definition tag_loop :: "mt6878_camsv_job \<Rightarrow> mt6878_camsv_recipe_resources \<Rightarrow>
  mt6878_camsv_recipe_write list \<times> u32 \<times> u32 \<times> u32 \<Rightarrow> mt6878_camsv_recipe_write list \<times> u32 \<times> u32 \<times> u32" where
  "tag_loop job res = fold (\<lambda>tag (writes, img, errors, sof).
     if \<not> tag_active job tag then (writes, img, errors, sof)
     else (add_tag job res tag writes, if tag < 4 then img OR push_bit tag 1 else img,
           errors OR push_bit (tag * 3) 0x700, sof OR push_bit (tag * 4) 4)) [0 ..< 8]"

definition recipe_writes :: "mt6878_camsv_job \<Rightarrow> mt6878_camsv_recipe_resources \<Rightarrow> mt6878_camsv_recipe_write list" where
  "recipe_writes job res =
    (case tag_loop job res ([], 0, 1, 0) of (writes, img, errors, sof) \<Rightarrow>
     let c = central res; d = dma_base res; tags = job_tags job; first = tags AND (NOT tags + 1);
       writes = add_all
        [(c, 0x140, 1), (c, 0x18c, 3), (c, 0x170, 0x20), (c, 0x144, 0), (c, 0x40, tags), (c, 0x44, img),
         (d, 0xf30, img OR push_bit 8 img), (c, 0x344, 0xf0000), (c, 0x34c, errors), (c, 0x35c, sof), (c, 0x36c, 0x11111111),
         (c, 0x1d4, 0), (c, 0x1d8, 0), (c, 0x1b8, tags), (c, 0x1bc, 0), (c, 0x1c0, 0), (c, 0x1c4, 0),
         (c, 0x1c8, first), (c, 0x1cc, first)] writes
     in add_all (map (\<lambda>tag. (c, 0x57c + of_nat tag * 0x40, job_sequence job)) [0 ..< 8]) writes)"

section \<open>The recipe\<close>

text \<open>\<open>local\<close> is the address of the local array of writes, eight bytes each, the value second.\<close>

definition publish :: "u64 \<Rightarrow> mt6878_camsv_recipe_write list \<Rightarrow> mt6878_ccd_cq action" where
  "publish local writes =
    chain (map (\<lambda>(i, address, v). mt6878_ccd_cq_values address (At (local + of_nat i * 8 + 4) [v]) 1) (enumerate 0 writes))"

definition mt6878_camsv_recipe ::
  "u64 \<Rightarrow> mt6878_camsv_job ptr \<Rightarrow> mtkcam_ipi_config_param ptr \<Rightarrow> mt6878_camsv_recipe_resources ptr \<Rightarrow> u32 \<Rightarrow>
   u32 ptr \<Rightarrow> u32 ptr \<Rightarrow> mt6878_ccd_cq \<Rightarrow> int \<times> u32 ptr \<times> u32 ptr \<times> mt6878_ccd_cq" where
  "mt6878_camsv_recipe local jobp configp resp session db vs cq =
    (if cq_mem cq = Null \<or> db = Null \<or> vs = Null then (- EINVAL, db, vs, cq)
     else if cq_first_error cq \<noteq> 0 then (cq_first_error cq, db, vs, cq)
     else if cq_head cq \<noteq> 0 \<or> cq_tail cq \<noteq> capacity cq \<or> finished cq \<noteq> 0 then (- EALREADY, db, vs, cq)
     else let fail = (\<lambda>e. case mt6878_cq_fail e cq of (ret, cq) \<Rightarrow> (ret, db, vs, cq));
              ret = mt6878_camsv_recipe_inputs jobp configp resp in
     if ret \<noteq> 0 then fail ret
     else let job = contents jobp; res = contents resp in
     if session > 3 \<or> drop_bit 24 (job_sequence job) \<noteq> session then fail (- ESTALE)
     else let work = \<lparr> dma = iova cq, buffer_size = capacity cq, mapped = 1 \<rparr> in
     if mt6878_camsv_overlap work (raw_buffer job) \<or> mt6878_camsv_overlap work (pdaf_buffer job) then fail (- ERANGE)
     else let writes = recipe_writes job res in
     if length writes \<noteq> MT6878_CAMSV_RECIPE_WRITES \<or> capacity cq < of_nat (length writes) * 16 + 12 then fail (- ENOSPC)
     else if list_ex (\<lambda>(address, v). address < reg_base cq \<or> address - reg_base cq \<ge> reg_size cq) writes then fail (- ERANGE)
     else case publish local writes cq of (ret, cq) \<Rightarrow>
     if ret \<noteq> 0 then (ret, db, vs, cq)
     else mt6878_ccd_cq_finish db vs cq)"

section \<open>Shape of the writes\<close>

lemma add_all_append: "add_all ws writes = writes @ map (\<lambda>(base, offset, v). (base + offset, v)) ws"
  by (induction ws arbitrary: writes) (auto simp: add_all_def mt6878_camsv_recipe_add_def)

lemma add_tag_append: "add_tag job res tag writes = writes @ add_tag job res tag []"
  by (simp add: add_tag_def Let_def add_all_append)

lemma length_add_tag: "length (add_tag job res tag []) = 16"
  by (simp add: add_tag_def Let_def add_all_append)

lemma tag_loop_from:
  "fst (fold (\<lambda>tag (writes, img, errors, sof).
     if \<not> tag_active job tag then (writes, img, errors, sof)
     else (add_tag job res tag writes, if tag < 4 then img OR push_bit tag (1 :: u32) else img,
           errors OR push_bit (tag * 3) (0x700 :: u32), sof OR push_bit (tag * 4) (4 :: u32))) tags (writes, img, errors, sof)) =
   writes @ concat (map (\<lambda>tag. add_tag job res tag []) (filter (tag_active job) tags))"
proof (induction tags arbitrary: writes img errors sof)
  case (Cons t ts)
  show ?case using Cons add_tag_append [of job res t writes] by simp
qed simp

lemma recipe_writes_split:
  "\<exists>ws. recipe_writes job res = concat (map (\<lambda>tag. add_tag job res tag []) (filter (tag_active job) [0 ..< 8])) @ ws \<and>
    length ws = 27 \<and> map fst ws = map ((+) (central res)) [0x140, 0x18c, 0x170, 0x144, 0x40, 0x44] @
      [dma_base res + 0xf30] @ map ((+) (central res)) ([0x344, 0x34c, 0x35c, 0x36c, 0x1d4, 0x1d8, 0x1b8, 0x1bc, 0x1c0, 0x1c4, 0x1c8, 0x1cc] @
        map (\<lambda>tag. 0x57c + of_nat tag * 0x40) [0 ..< 8])"
proof -
  obtain writes img errors sof where t: "tag_loop job res ([], 0, 1, 0) = (writes, img, errors, sof)" by (metis prod.exhaust)
  have "writes = concat (map (\<lambda>tag. add_tag job res tag []) (filter (tag_active job) [0 ..< 8]))"
    using tag_loop_from [of job res "[0 ..< 8]" "[]" 0 1 0] t by (simp add: tag_loop_def)
  then show ?thesis
    by (simp add: recipe_writes_def t Let_def add_all_append comp_def)
qed

lemma tag_active_iff:
  assumes "raw_tag job \<le> 3" and "pdaf_tag job \<le> 3"
  shows "tag_active job tag \<longleftrightarrow> tag = unat (raw_tag job) \<or> tag = unat (pdaf_tag job)"
proof -
  have le: "raw_tag job \<le> 7" "pdaf_tag job \<le> 7" using assms by (simp_all add: word_le_nat_alt)
  have "tag_active job tag \<longleftrightarrow> tag \<in> tag_set (job_tags job)"
    by (simp add: tag_active_def tag_set_def bit_iff_and_push_bit_not_eq_0)
  then show ?thesis using tag_set_job [OF le] by simp
qed

lemma active_tags:
  assumes "raw_tag job \<le> 3" and "pdaf_tag job \<le> 3" and "raw_tag job \<noteq> pdaf_tag job"
  shows "length (filter (tag_active job) [0 ..< 8]) = 2"
proof -
  have a: "unat (raw_tag job) \<le> 3" "unat (pdaf_tag job) \<le> 3" using assms by (simp_all add: word_le_nat_alt)
  have ne: "unat (raw_tag job) \<noteq> unat (pdaf_tag job)" using assms(3) by (simp add: word_unat_eq_iff)
  have "filter (tag_active job) [0 ..< 8] = filter (\<lambda>tag. tag = unat (raw_tag job) \<or> tag = unat (pdaf_tag job)) [0 ..< 8]"
    by (intro filter_cong) (simp_all add: tag_active_iff [OF assms(1,2)])
  also have "length \<dots> = card {tag. tag < 8 \<and> (tag = unat (raw_tag job) \<or> tag = unat (pdaf_tag job))}"
    using distinct_card [of "filter (\<lambda>tag. tag = unat (raw_tag job) \<or> tag = unat (pdaf_tag job)) [0 ..< 8]"] by (simp add: conj_commute)
  also have "{tag. tag < 8 \<and> (tag = unat (raw_tag job) \<or> tag = unat (pdaf_tag job))} = {unat (raw_tag job), unat (pdaf_tag job)}"
    using a by auto
  finally show ?thesis using ne by simp
qed

lemma length_recipe_writes:
  assumes "raw_tag job \<le> 3" and "pdaf_tag job \<le> 3" and "raw_tag job \<noteq> pdaf_tag job"
  shows "length (recipe_writes job res) = 59"
proof -
  obtain ws where "recipe_writes job res = concat (map (\<lambda>tag. add_tag job res tag []) (filter (tag_active job) [0 ..< 8])) @ ws" "length ws = 27"
    using recipe_writes_split by blast
  then show ?thesis using active_tags [OF assms] by (simp add: length_concat comp_def length_add_tag sum_list_triv)
qed

text \<open>Every write goes to an aligned register of one of the two resource pages.\<close>

definition in_pages :: "mt6878_camsv_recipe_resources \<Rightarrow> u32 \<Rightarrow> bool" where
  "in_pages res a \<longleftrightarrow> (\<exists>base k. base \<in> {central res, dma_base res} \<and> a = base + of_nat (4 * k) \<and> k < 0x400)"

lemma in_pages_at:
  "k < 0x400 \<Longrightarrow> in_pages res (central res + of_nat (4 * k))" "k < 0x400 \<Longrightarrow> in_pages res (dma_base res + of_nat (4 * k))"
  unfolding in_pages_def by blast+

lemma in_pages_tag:
  assumes "tag < 8" and "k < 0x380"
  shows "in_pages res (central res + (of_nat (4 * k) + of_nat tag * 0x40))" and "in_pages res (dma_base res + (of_nat (4 * k) + of_nat tag * 0x40))"
proof -
  have e: "of_nat (4 * k) + of_nat tag * 0x40 = (of_nat (4 * (k + 16 * tag)) :: u32)" by simp
  show "in_pages res (central res + (of_nat (4 * k) + of_nat tag * 0x40))" "in_pages res (dma_base res + (of_nat (4 * k) + of_nat tag * 0x40))"
    unfolding e using assms by (intro in_pages_at; simp)+
qed

lemma add_tag_in_pages:
  assumes "tag < 8"
  shows "list_all (\<lambda>(a, v). in_pages res a) (add_tag job res tag [])"
proof -
  note c = in_pages_tag [OF assms, of "0x540 div 4" res] in_pages_tag [OF assms, of "0x548 div 4" res] in_pages_tag [OF assms, of "0x54c div 4" res]
    in_pages_tag [OF assms, of "0x554 div 4" res] in_pages_tag [OF assms, of "0x55c div 4" res] in_pages_tag [OF assms, of "0x210 div 4" res]
    in_pages_tag [OF assms, of "0xa10 div 4" res] in_pages_tag [OF assms, of "0x200 div 4" res] in_pages_tag [OF assms, of "0x204 div 4" res]
    in_pages_tag [OF assms, of "0x218 div 4" res] in_pages_tag [OF assms, of "0x21c div 4" res] in_pages_tag [OF assms, of "0x220 div 4" res]
    in_pages_tag [OF assms, of "0x224 div 4" res]
  show ?thesis using c by (simp add: add_tag_def Let_def add_all_append)
qed

lemma recipe_in_pages: "list_all (\<lambda>(a, v). in_pages res a) (recipe_writes job res)"
proof -
  obtain ws where ws: "recipe_writes job res = concat (map (\<lambda>tag. add_tag job res tag []) (filter (tag_active job) [0 ..< 8])) @ ws"
      "map fst ws = map ((+) (central res)) [0x140, 0x18c, 0x170, 0x144, 0x40, 0x44] @ [dma_base res + 0xf30] @
        map ((+) (central res)) ([0x344, 0x34c, 0x35c, 0x36c, 0x1d4, 0x1d8, 0x1b8, 0x1bc, 0x1c0, 0x1c4, 0x1c8, 0x1cc] @
          map (\<lambda>tag. 0x57c + of_nat tag * 0x40) [0 ..< 8])"
    using recipe_writes_split by blast
  have fixed: "list_all (in_pages res) (map ((+) (central res)) (map (\<lambda>k. of_nat (4 * k)) ks))" if "list_all (\<lambda>k. k < 0x400) ks" for ks
    using that in_pages_at(1) by (induction ks) (simp_all del: of_nat_mult)
  have "list_all (in_pages res) (map fst ws)"
  proof -
    have "list_all (in_pages res) (map ((+) (central res)) [0x140, 0x18c, 0x170, 0x144, 0x40, 0x44])"
      using fixed [of "[0x50, 0x63, 0x5c, 0x51, 0x10, 0x11]"] by simp
    moreover have "list_all (in_pages res) (map ((+) (central res)) [0x344, 0x34c, 0x35c, 0x36c, 0x1d4, 0x1d8, 0x1b8, 0x1bc, 0x1c0, 0x1c4, 0x1c8, 0x1cc])"
      using fixed [of "[0xd1, 0xd3, 0xd7, 0xdb, 0x75, 0x76, 0x6e, 0x6f, 0x70, 0x71, 0x72, 0x73]"] by simp
    moreover have "in_pages res (dma_base res + 0xf30)" using in_pages_at(2) [of "0x3cc" res] by simp
    moreover have "list_all (in_pages res) (map ((+) (central res)) (map (\<lambda>tag. 0x57c + of_nat tag * 0x40) [0 ..< 8]))"
      using in_pages_tag(1) [of _ "0x15f" res] by (simp add: list_all_iff)
    ultimately show ?thesis unfolding ws(2) by simp
  qed
  then have "list_all (\<lambda>(a, v). in_pages res a) ws" by (simp add: list_all_iff split_beta)
  moreover have "list_all (\<lambda>(a, v). in_pages res a) (concat (map (\<lambda>tag. add_tag job res tag []) (filter (tag_active job) [0 ..< 8])))"
    using add_tag_in_pages [of _ res job] by (auto simp: list_all_iff)
  ultimately show ?thesis unfolding ws(1) by simp
qed

section \<open>The result of the recipe\<close>

text \<open>When a frame is turned into a queue.\<close>

definition recipe_ready :: "u64 \<Rightarrow> mt6878_camsv_job ptr \<Rightarrow> mtkcam_ipi_config_param ptr \<Rightarrow> mt6878_camsv_recipe_resources ptr \<Rightarrow> u32 \<Rightarrow> mt6878_ccd_cq \<Rightarrow> bool" where
  "recipe_ready local jobp configp resp session cq \<longleftrightarrow>
    mt6878_camsv_recipe_inputs jobp configp resp = 0 \<and>
    session \<le> 3 \<and> drop_bit 24 (job_sequence (contents jobp)) = session \<and>
    \<not> mt6878_camsv_overlap \<lparr> dma = iova cq, buffer_size = capacity cq, mapped = 1 \<rparr> (raw_buffer (contents jobp)) \<and>
    \<not> mt6878_camsv_overlap \<lparr> dma = iova cq, buffer_size = capacity cq, mapped = 1 \<rparr> (pdaf_buffer (contents jobp)) \<and>
    956 \<le> unat (capacity cq) \<and>
    list_all (\<lambda>(a, v). unat (reg_base cq) \<le> unat a \<and> unat a < unat (reg_base cq) + unat (reg_size cq)) (recipe_writes (contents jobp) (contents resp)) \<and>
    list_all (\<lambda>i. \<not> values_alias (local + of_nat i * 8 + 4) (address (cq_mem cq)) (capacity cq) 4) [0 ..< 59]"

lemma publish_words:
  "publish local writes = append_words (map (\<lambda>(i, a, v). (a, local + of_nat i * 8 + 4, v)) (enumerate 0 writes))"
  by (simp add: publish_def append_words_def comp_def case_prod_unfold)

lemma register_range:
  fixes a base sz :: u32
  assumes "unat base + unat sz \<le> 0x1a200000"
  shows "\<not> (a < base \<or> a - base \<ge> sz) \<longleftrightarrow> unat base \<le> unat a \<and> unat a < unat base + unat sz"
proof (cases "base \<le> a")
  case True
  then show ?thesis using unat_sub [OF True] by (auto simp: word_less_nat_alt word_le_nat_alt)
qed (auto simp: word_less_nat_alt word_le_nat_alt)

lemma inputs_facts:
  assumes "mt6878_camsv_recipe_inputs jobp configp resp = 0"
  shows "raw_tag (contents jobp) \<le> 3" and "pdaf_tag (contents jobp) \<le> 3" and "raw_tag (contents jobp) \<noteq> pdaf_tag (contents jobp)"
    and "unat (central (contents resp)) \<le> 0x1a1ef000" and "dma_base (contents resp) = central (contents resp) + 0x10000"
    and "central (contents resp) AND 0xfff = 0"
proof -
  note d = assms [unfolded mt6878_camsv_recipe_inputs_def Let_def]
  show "raw_tag (contents jobp) \<le> 3" "pdaf_tag (contents jobp) \<le> 3" "raw_tag (contents jobp) \<noteq> pdaf_tag (contents jobp)"
    using d by (simp_all add: not_less split: if_splits)
  show "dma_base (contents resp) = central (contents resp) + 0x10000" "central (contents resp) AND 0xfff = 0"
    using d by (simp_all split: if_splits)
  have "\<not> central (contents resp) > MT6878_CQ_REG_BASE + MT6878_CQ_REG_SIZE - 0x11000"
    using d by (simp split: if_splits)
  then show "unat (central (contents resp)) \<le> 0x1a1ef000"
    by (simp add: MT6878_CQ_REG_BASE_def MT6878_CQ_REG_SIZE_def word_less_nat_alt not_less)
qed

lemma in_pages_aligned:
  assumes "mt6878_camsv_recipe_inputs jobp configp resp = 0" and "in_pages (contents resp) a"
  shows "a AND 3 = 0"
proof -
  note f = inputs_facts [OF assms(1)]
  let ?c = "central (contents resp)"
  obtain base k where b: "base \<in> {?c, dma_base (contents resp)}" "a = base + of_nat (4 * k)" "k < 0x400"
    using assms(2) by (auto simp: in_pages_def)
  have "?c AND 0xfff = take_bit 12 ?c" by (simp add: take_bit_eq_mask mask_eq_exp_minus_1)
  then have "unat (take_bit 12 ?c) = 0" using f(6) by (simp only: unsigned_0)
  then have "4096 dvd unat ?c" by (simp add: take_bit_eq_mod unat_mod dvd_eq_mod_eq_0)
  then have c4: "4 dvd unat ?c" by (rule dvd_trans [rotated]) simp
  have "unat (?c + 0x10000) = unat ?c + 0x10000" using f(4) by (simp add: unat_add_lem [THEN iffD1])
  then have base: "4 dvd unat base" "unat base \<le> 0x1a1ff000" using b(1) c4 f(4,5) by auto
  have k: "unat (of_nat (4 * k) :: u32) = 4 * k" by (rule unat_of_nat_u32) (use b(3) in simp)
  have "unat (base + of_nat (4 * k)) = unat base + 4 * k"
    using k base(2) b(3) by (subst unat_add_lem [THEN iffD1]) simp_all
  then show ?thesis unfolding and_3_mod b(2) using base(1) by (simp only: dvd_eq_mod_eq_0 [symmetric]) simp
qed

lemma numbered_words:
  "(a, src, v) \<in> set (map (\<lambda>(i, a, v). (a, f i, v)) (enumerate 0 xs)) \<longleftrightarrow> (\<exists>i < length xs. (a, v) = xs ! i \<and> src = f i)"
proof -
  have "map (\<lambda>(i, a, v). (a, f i, v)) (enumerate 0 xs) ! i = (fst (xs ! i), f i, snd (xs ! i))" if "i < length xs" for i
    using that by (simp add: nth_enumerate_eq split_beta)
  then show ?thesis unfolding in_set_conv_nth by (auto simp: prod_eq_iff)
qed

lemma recipe_result:
  assumes ok: "cq_ok cq []" and fresh: "cq_head cq = 0" "cq_tail cq = capacity cq" "finished cq = 0" "cq_first_error cq = 0"
    and aligned: "reg_base cq AND 3 = 0" "reg_size cq AND 3 = 0" and out: "db \<noteq> Null" "vs \<noteq> Null"
    and run: "mt6878_camsv_recipe local jobp configp resp session db vs cq = (ret, db', vs', cq')"
  shows "if recipe_ready local jobp configp resp session cq
    then ret = 0 \<and> contents db' = 720 \<and> contents vs' = capacity cq - 236 \<and>
      cq_engine 60 (contents (cq_mem cq')) (iova cq) 0 = Some (recipe_writes (contents jobp) (contents resp))
    else ret \<noteq> 0 \<and> db' = db \<and> vs' = vs"
proof -
  let ?job = "contents jobp" and ?res = "contents resp"
  let ?work = "\<lparr> dma = iova cq, buffer_size = capacity cq, mapped = 1 \<rparr>"
  let ?writes = "recipe_writes ?job ?res"
  let ?session = "session > 3 \<or> drop_bit 24 (job_sequence ?job) \<noteq> session"
  let ?overlap = "mt6878_camsv_overlap ?work (raw_buffer ?job) \<or> mt6878_camsv_overlap ?work (pdaf_buffer ?job)"
  let ?small = "length ?writes \<noteq> MT6878_CAMSV_RECIPE_WRITES \<or> capacity cq < of_nat (length ?writes) * 16 + 12"
  let ?outside = "list_ex (\<lambda>(a, v). a < reg_base cq \<or> a - reg_base cq \<ge> reg_size cq) ?writes"
  let ?ws = "map (\<lambda>(i, a, v). (a, local + of_nat i * 8 + 4, v)) (enumerate 0 ?writes)"
  note o = ok [unfolded cq_ok_def]
  have failing: "ret \<noteq> 0 \<and> db' = db \<and> vs' = vs"
    if "(case mt6878_cq_fail e cq of (r, c) \<Rightarrow> (r, db, vs, c)) = (ret, db', vs', cq')" "e \<noteq> 0" for e
    using that fail_result [of e cq] by auto
  note body = run [unfolded mt6878_camsv_recipe_def Let_def]
  have start: "\<not> (cq_mem cq = Null \<or> db = Null \<or> vs = Null)" "\<not> cq_first_error cq \<noteq> 0"
      "\<not> (cq_head cq \<noteq> 0 \<or> cq_tail cq \<noteq> capacity cq \<or> finished cq \<noteq> 0)" using o fresh out by auto
  note body = body [unfolded if_not_P [OF start(1)] if_not_P [OF start(2)] if_not_P [OF start(3)]]
  show ?thesis
  proof (cases "mt6878_camsv_recipe_inputs jobp configp resp = 0")
    case False
    then show ?thesis using body failing [of "mt6878_camsv_recipe_inputs jobp configp resp"] by (simp add: recipe_ready_def)
  next
    case inputs: True
    note facts = inputs_facts [OF inputs]
    have len: "length ?writes = 59" using length_recipe_writes [OF facts(1-3)] .
    have small: "?small \<longleftrightarrow> \<not> 956 \<le> unat (capacity cq)" by (auto simp: len MT6878_CAMSV_RECIPE_WRITES_def word_less_nat_alt)
    have outside: "\<not> ?outside \<longleftrightarrow>
        list_all (\<lambda>(a, v). unat (reg_base cq) \<le> unat a \<and> unat a < unat (reg_base cq) + unat (reg_size cq)) ?writes"
      using register_range [of "reg_base cq" "reg_size cq"] o by (auto simp: list_ex_iff list_all_iff split_beta)
    have ses: "?session \<longleftrightarrow> \<not> (session \<le> 3 \<and> drop_bit 24 (job_sequence ?job) = session)" by (auto simp: not_less)
    have all: "recipe_ready local jobp configp resp session cq \<longleftrightarrow> \<not> ?session \<and> \<not> ?overlap \<and> \<not> ?small \<and> \<not> ?outside \<and>
        list_all (\<lambda>i. \<not> values_alias (local + of_nat i * 8 + 4) (address (cq_mem cq)) (capacity cq) 4) [0 ..< 59]"
      unfolding recipe_ready_def small outside ses using inputs by blast
    have nz: "\<not> mt6878_camsv_recipe_inputs jobp configp resp \<noteq> 0" using inputs by simp
    note body = body [unfolded if_not_P [OF nz]]
    show ?thesis
    proof (cases "?session \<or> ?overlap \<or> ?small \<or> ?outside")
      case True
      then consider "?session" | "\<not> ?session" "?overlap" | "\<not> ?session" "\<not> ?overlap" "?small"
        | "\<not> ?session" "\<not> ?overlap" "\<not> ?small" "?outside" by blast
      then have "ret \<noteq> 0 \<and> db' = db \<and> vs' = vs"
      proof cases
        case 1
        show ?thesis using failing [OF body [unfolded if_P [OF 1]]] by simp
      next
        case 2
        show ?thesis using failing [OF body [unfolded if_not_P [OF 2(1)] if_P [OF 2(2)]]] by simp
      next
        case 3
        show ?thesis using failing [OF body [unfolded if_not_P [OF 3(1)] if_not_P [OF 3(2)] if_P [OF 3(3)]]] by simp
      next
        case 4
        show ?thesis using failing [OF body [unfolded if_not_P [OF 4(1)] if_not_P [OF 4(2)] if_not_P [OF 4(3)] if_P [OF 4(4)]]] by simp
      qed
      moreover have "\<not> recipe_ready local jobp configp resp session cq"
        using True unfolding all by blast
      ultimately show ?thesis by simp
    next
      case False
      then have n: "\<not> ?session" "\<not> ?overlap" "\<not> ?small" "\<not> ?outside" by blast+
      have go: "(case append_words ?ws cq of (ret, cq) \<Rightarrow> if ret \<noteq> 0 then (ret, db, vs, cq) else mt6878_ccd_cq_finish db vs cq) = (ret, db', vs', cq')"
        using body [unfolded if_not_P [OF n(1)] if_not_P [OF n(2)] if_not_P [OF n(3)] if_not_P [OF n(4)] publish_words] .
      have ready: "recipe_ready local jobp configp resp session cq \<longleftrightarrow>
          list_all (\<lambda>i. \<not> values_alias (local + of_nat i * 8 + 4) (address (cq_mem cq)) (capacity cq) 4) [0 ..< 59]"
        unfolding all using n by blast
      have words: "(a, src, v) \<in> set ?ws \<longleftrightarrow> (\<exists>i < 59. (a, v) = ?writes ! i \<and> src = local + of_nat i * 8 + 4)" for a src v
        unfolding numbered_words len by simp
      show ?thesis
      proof (cases "recipe_ready local jobp configp resp session cq")
        case False
        then obtain i where i: "i < 59" "values_alias (local + of_nat i * 8 + 4) (address (cq_mem cq)) (capacity cq) 4"
          unfolding ready by (auto simp: list_all_iff)
        obtain r c where rc: "append_words ?ws cq = (r, c)" by (metis prod.exhaust)
        have "(fst (?writes ! i), local + of_nat i * 8 + 4, snd (?writes ! i)) \<in> set ?ws" unfolding words using i(1) by auto
        then have "r \<noteq> 0" using append_words_apart [OF ok, of ?ws c] rc i(2) by blast
        then show ?thesis using go rc False by simp
      next
        case True
        have "\<exists>c es. append_words ?ws cq = (0, c) \<and> cq_ok c ([] @ es) \<and> length es = length ?ws \<and> cq_first_error c = 0 \<and>
          finished c = 0 \<and> unat (cq_tail c) = unat (cq_tail cq) - 4 * length ?ws \<and> capacity c = capacity cq \<and> iova c = iova cq \<and>
          cq_program c ([] @ es) = cq_program cq [] @ map (\<lambda>(reg, src, v). (reg, v)) ?ws"
        proof (rule append_words_succeed [OF ok fresh(4,3)])
          fix a src v
          assume "(a, src, v) \<in> set ?ws"
          then obtain i where i: "i < 59" "(a, v) = ?writes ! i" "src = local + of_nat i * 8 + 4" unfolding words by blast
          then have mem: "(a, v) \<in> set ?writes" using len by (metis nth_mem)
          then have a4: "a AND 3 = 0" using recipe_in_pages [of ?res ?job] in_pages_aligned [OF inputs] by (auto simp: list_all_iff)
          have rng: "unat (reg_base cq) \<le> unat a" "unat a < unat (reg_base cq) + unat (reg_size cq)"
            using mem n(4) [unfolded outside] by (auto simp: list_all_iff)
          have "unat a + 4 \<le> unat (reg_base cq) + unat (reg_size cq)"
            using rng(2) a4 aligned unfolding and_3_mod by presburger
          then show "a AND 3 = 0 \<and> unat (reg_base cq) \<le> unat a \<and> unat a + 4 \<le> unat (reg_base cq) + unat (reg_size cq) \<and>
              \<not> values_alias src (address (cq_mem cq)) (capacity cq) 4"
            using a4 rng i True unfolding ready by (simp add: list_all_iff)
        qed (use n(3) [unfolded small] len fresh(2) in simp_all)
        then obtain c es where c: "append_words ?ws cq = (0, c)" "cq_ok c es" "length es = 59" "cq_first_error c = 0" "finished c = 0"
            "unat (cq_tail c) = unat (capacity cq) - 236" "iova c = iova cq" "cq_program c es = map (\<lambda>(reg, src, v). (reg, v)) ?ws"
          using len fresh(2) by (auto simp: cq_program_def)
        have prog: "map (\<lambda>(reg, src, v). (reg, v)) ?ws = ?writes"
          by (rule nth_equalityI) (simp_all add: nth_enumerate_eq split_beta)
        have fin: "mt6878_ccd_cq_finish db vs c = (ret, db', vs', cq')" using go c(1) by simp
        have tail: "cq_tail c = capacity cq - 236"
        proof -
          have "(236 :: u32) \<le> capacity cq" using n(3) [unfolded small] by (simp add: word_le_nat_alt)
          then show ?thesis using c(6) by (simp add: word_unat_eq_iff unat_sub)
        qed
        have cond: "db \<noteq> Null \<and> vs \<noteq> Null \<and> cq_first_error c = 0 \<and> finished c = 0 \<and> es \<noteq> []" using c(3-5) out by auto
        show ?thesis
          using finish_result [OF c(2) fin, unfolded if_P [OF cond] c(3,7) c(8) [unfolded prog] tail] True by simp
      qed
    qed
  qed
qed

section \<open>Properties\<close>


definition sample_input :: "u8 \<Rightarrow> mt6878_camsv_dma_layout \<Rightarrow> mtkcam_ipi_sv_input_param" where
  "sample_input tag l = \<lparr> sv_pipe_id = 3, tag_id = tag, tag_order = 3, is_first_frame = 1, is_two_smi_out = 0, is_last_order_meta_off = 0,
     sv_input_input = \<lparr> input_fmt = layout_format l, raw_pixel_id = 0, data_pattern = 0, pixel_mode = 0, pixel_mode_before_raw = 0, subsample = 0,
       in_crop = \<lparr> crop_p = \<lparr> point_x = 0, point_y = 0 \<rparr>, crop_s = \<lparr> size_w = ucast (layout_width l), size_h = ucast (layout_height l) \<rparr> \<rparr> \<rparr> \<rparr>"

definition idle_input :: mtkcam_ipi_sv_input_param where
  "idle_input = (sample_input 0 (raw_layout sample_job))\<lparr> sv_pipe_id := 0 \<rparr>"

definition sample_frame :: mt6878_camsv_job where
  "sample_frame = sample_job\<lparr> group_tags := [3, 0, 0, 0] \<rparr>"

definition sample_config :: mtkcam_ipi_config_param where
  "sample_config = \<lparr> config_flags = 0, config_input = sv_input_input idle_input,
     sv_input = [[sample_input 0 (raw_layout sample_job), sample_input 1 (pdaf_layout sample_job)] @ replicate 6 idle_input, replicate 8 idle_input],
     mraw_input = replicate 4 \<lparr> mraw_pipe_id = 0, mraw_input_input = sv_input_input idle_input \<rparr>, n_maps = 0, hw_maps = [],
     sw_feature = 0, exp_order = 0, frame_order = 0, vsync_order = 0, w_cac_table = \<lparr> ipi_iova = 0, ccd_fd = 0, ipi_size = 0 \<rparr> \<rparr>"

definition sample_resources :: mt6878_camsv_recipe_resources where
  "sample_resources = \<lparr> central = 0x1a100000, dma_base = 0x1a110000, central_size = 0x1000, dma_size = 0x1000, res_sv_id = 0 \<rparr>"

lemma sample_inputs: "mt6878_camsv_recipe_inputs (At 0 sample_frame) (At 0 sample_config) (At 0 sample_resources) = 0"
  by code_simp

lemma sample_registers: "list_all (\<lambda>(a, v). 0x1a000000 \<le> a \<and> a < 0x1a200000) (recipe_writes sample_frame sample_resources)"
  by code_simp

lemma sample_apart: "list_all (\<lambda>i. \<not> values_alias (0x100 + of_nat i * 8 + 4) 0x1000 1024 4) [0 ..< 59]"
  by code_simp


end
