(* ===== verification/Camera_Composer.thy ===== *)
theory Camera_Composer
  imports Camsv_Capture
begin

text \<open>
  The dialogue with the camera composer: the acknowledgement of a frame
  (\<^verbatim>\<open>patches/camera-composer/mt6878-camera-composer.h\<close>), which hands the command queue over as a
  slice of the work buffer, and the one-shot session gate of
  \<^verbatim>\<open>mt6878-camera-ccd-session.h\<close>, which admits at most one frame, one flush and, after a
  successful flush, one destroy. A message is the list of the bytes received.
\<close>

unbundle bit_operations_syntax

section \<open>Replies\<close>

definition CAM_CMD_FRAME :: u32 where "CAM_CMD_FRAME = 2"
definition CAM_CMD_DESTROY_SESSION :: u32 where "CAM_CMD_DESTROY_SESSION = 3"
definition CAM_CMD_ACK :: u32 where "CAM_CMD_ACK = 4"
definition CAM_CMD_FLUSH :: u32 where "CAM_CMD_FLUSH = 5"

lemmas cam_cmds = CAM_CMD_FRAME_def CAM_CMD_DESTROY_SESSION_def CAM_CMD_ACK_def CAM_CMD_FLUSH_def

record mt6878_camera_reply =
  reply_session :: u32
  reply_cookie :: u32
  accepted :: u32
  reply_first_error :: int

definition mt6878_camera_cookie_valid :: "u32 \<Rightarrow> u32 \<Rightarrow> bool" where
  "mt6878_camera_cookie_valid session cookie \<longleftrightarrow> session \<le> 3 \<and> drop_bit 24 cookie = session"

definition mt6878_camera_le32 :: "bytes \<Rightarrow> u32" where
  "mt6878_camera_le32 p = ucast (p ! 0) OR push_bit 8 (ucast (p ! 1)) OR push_bit 16 (ucast (p ! 2)) OR push_bit 24 (ucast (p ! 3))"

definition mt6878_camera_reply_header :: "bytes ptr \<Rightarrow> u32 \<Rightarrow> u32 \<Rightarrow> u32 \<Rightarrow> u32 \<Rightarrow> int" where
  "mt6878_camera_reply_header message len session cookie command =
    (if message = Null then - ENOTCONN
     else if len < 75 then - EMSGSIZE
     else let p = contents message in
     if ucast (p ! 0) \<noteq> session \<or> mt6878_camera_le32 (drop 1 p) \<noteq> cookie then - ESTALE
     else if ucast (p ! 5) \<noteq> CAM_CMD_ACK then - EPROTO
     else if ucast (p ! 6) \<noteq> command then - ESTALE
     else let ret = sint (mt6878_camera_le32 (drop 7 p)) in if ret > 0 then - EPROTO else ret)"

text \<open>The result slots other than the first camera receiver must be empty.\<close>

definition foreign_result :: "bytes \<Rightarrow> bool" where
  "foreign_result p \<longleftrightarrow> list_ex (\<lambda>i. i \<noteq> 6 \<and> (mt6878_camera_le32 (drop (11 + i * 8) p) \<noteq> 0 \<or> mt6878_camera_le32 (drop (15 + i * 8) p) \<noteq> 0)) [0 ..< 8]"

definition mt6878_camera_ack ::
  "mt6878_camera_reply ptr \<Rightarrow> bytes ptr \<Rightarrow> u32 \<Rightarrow> mt6878_camsv_buffer ptr \<Rightarrow> mt6878_camsv_buffer ptr \<Rightarrow>
   int \<times> mt6878_camera_reply ptr \<times> mt6878_camsv_buffer ptr" where
  "mt6878_camera_ack statep message len workbuf cq =
    (if statep = Null \<or> message = Null \<or> workbuf = Null \<or> cq = Null then (- EINVAL, statep, cq)
     else let state = contents statep; p = contents message; work = contents workbuf;
              fail = (\<lambda>ret. (ret, store statep (state\<lparr> reply_first_error := ret \<rparr>), cq)) in
     if reply_first_error state \<noteq> 0 then (reply_first_error state, statep, cq)
     else if accepted state \<noteq> 0 then (- EALREADY, statep, cq)
     else if len < 75 \<or> reply_session state > 255 then fail (- EMSGSIZE)
     else if ucast (p ! 0) \<noteq> reply_session state \<or> mt6878_camera_le32 (drop 1 p) \<noteq> reply_cookie state then (- ESTALE, statep, cq)
     else if ucast (p ! 5) \<noteq> CAM_CMD_ACK \<or> ucast (p ! 6) \<noteq> CAM_CMD_FRAME then fail (- EPROTO)
     else let ret = sint (mt6878_camera_le32 (drop 7 p)) in
     if ret \<noteq> 0 then fail (if ret > 0 then - EPROTO else ret)
     else if foreign_result p then fail (- EOPNOTSUPP)
     else let offset = mt6878_camera_le32 (drop 59 p); sz = mt6878_camera_le32 (drop 63 p) in
     if mt6878_camsv_range work (buffer_size work) \<noteq> 0 \<or> sz = 0 \<or> sz > 0xffff \<or> offset > buffer_size work \<or>
        sz > buffer_size work - offset then fail (- ERANGE)
     else (0, store statep (state\<lparr> accepted := 1 \<rparr>), store cq \<lparr> dma = dma work + ucast offset, buffer_size = sz, mapped = 1 \<rparr>))"

section \<open>The session gate\<close>

record mt6878_camera_ccd_session =
  gate_session :: u32
  pending :: u32
  closed :: u32
  command :: u32
  cookie :: u32
  frame_started :: u32
  flush_started :: u32
  flushed :: u32
  destroy_started :: u32
  destroyed :: u32
  gate_result :: int
  reply :: bytes

text \<open>A command that passes its own test is marked and becomes the outstanding one.\<close>

definition gate_open :: "u32 \<Rightarrow> u32 \<Rightarrow> mt6878_camera_ccd_session \<Rightarrow> int \<times> mt6878_camera_ccd_session" where
  "gate_open cmd k s = (0, s\<lparr> command := cmd, cookie := k, gate_result := 0, pending := 1 \<rparr>)"

definition mt6878_camera_ccd_begin :: "mt6878_camera_ccd_session ptr \<Rightarrow> u32 \<Rightarrow> u32 \<Rightarrow> int \<times> mt6878_camera_ccd_session ptr" where
  "mt6878_camera_ccd_begin sp cmd k =
    (if sp = Null then (- EINVAL, sp)
     else let s = contents sp; through = (\<lambda>s. case gate_open cmd k s of (ret, s) \<Rightarrow> (ret, store sp s)) in
     if gate_session s > 3 then (- EINVAL, sp)
     else if closed s \<noteq> 0 then (- ENOTCONN, sp)
     else if pending s \<noteq> 0 then (- EBUSY, sp)
     else if cmd = CAM_CMD_FRAME then
       (if \<not> mt6878_camera_cookie_valid (gate_session s) k then (- EINVAL, sp)
        else if frame_started s \<noteq> 0 \<or> flush_started s \<noteq> 0 then (- EALREADY, sp)
        else through (s\<lparr> frame_started := 1 \<rparr>))
     else if cmd = CAM_CMD_FLUSH then
       (if k \<noteq> 0 \<or> flush_started s \<noteq> 0 then (- EALREADY, sp) else through (s\<lparr> flush_started := 1 \<rparr>))
     else if cmd = CAM_CMD_DESTROY_SESSION then
       (if k \<noteq> 0 \<or> flushed s = 0 \<or> destroy_started s \<noteq> 0 then (- EINVAL, sp) else through (s\<lparr> destroy_started := 1 \<rparr>))
     else (- EOPNOTSUPP, sp))"

definition mt6878_camera_ccd_receive :: "mt6878_camera_ccd_session ptr \<Rightarrow> bytes ptr \<Rightarrow> u32 \<Rightarrow> int \<times> mt6878_camera_ccd_session ptr" where
  "mt6878_camera_ccd_receive sp message len =
    (if sp = Null then (- EINVAL, sp)
     else let s = contents sp in
     if message = Null then (- ENOTCONN, store sp (s\<lparr> closed := 1, gate_result := - ENOTCONN, pending := 0 \<rparr>))
     else if closed s \<noteq> 0 then (- ENOTCONN, sp)
     else if pending s = 0 then (- ESTALE, sp)
     else if len < 5 then (- EMSGSIZE, sp)
     else let p = contents message in
     if ucast (p ! 0) \<noteq> gate_session s \<or> mt6878_camera_le32 (drop 1 p) \<noteq> cookie s then (- ESTALE, sp)
     else let ret = mt6878_camera_reply_header message len (gate_session s) (cookie s) (command s) in
     if ret = - ESTALE then (ret, sp)
     else let s = (if len \<ge> 75 then s\<lparr> reply := take 75 p \<rparr> else s);
              s = s\<lparr> pending := 0, gate_result := ret \<rparr>;
              s = (if ret = 0 \<and> command s = CAM_CMD_FLUSH then s\<lparr> flushed := 1 \<rparr> else s);
              s = (if ret = 0 \<and> command s = CAM_CMD_DESTROY_SESSION then s\<lparr> destroyed := 1, closed := 1 \<rparr> else s)
          in (if ret \<noteq> 0 then ret else 1, store sp s))"

definition mt6878_camera_ccd_finish :: "mt6878_camera_ccd_session \<Rightarrow> int \<Rightarrow> int \<times> mt6878_camera_ccd_session" where
  "mt6878_camera_ccd_finish s send_or_wait_error =
    (let s = (if send_or_wait_error \<noteq> 0 then s\<lparr> gate_result := send_or_wait_error \<rparr> else s);
         s = s\<lparr> pending := 0 \<rparr>
     in (gate_result s, s))"

section \<open>The acknowledged queue\<close>

lemma camera_le32: "mt6878_camera_le32 = le32"
  by (simp add: fun_eq_iff mt6878_camera_le32_def le32_def)

lemma ack_cases:
  assumes run: "mt6878_camera_ack (At a state) (At b p) len (At c work) (At d cq) = (ret, sp, cqp)"
  shows "if ret = 0
    then accepted state = 0 \<and> reply_first_error state = 0 \<and> sp = At a (state\<lparr> accepted := 1 \<rparr>) \<and>
      cqp = At d \<lparr> dma = dma work + ucast (le32 (drop 59 p)), buffer_size = le32 (drop 63 p), mapped = 1 \<rparr> \<and>
      mt6878_camsv_range work (buffer_size work) = 0 \<and> le32 (drop 63 p) \<noteq> 0 \<and> le32 (drop 63 p) \<le> 0xffff \<and>
      le32 (drop 59 p) \<le> buffer_size work \<and> le32 (drop 63 p) \<le> buffer_size work - le32 (drop 59 p) \<and>
      \<not> len < 75 \<and> ucast (p ! 0) = reply_session state \<and> le32 (drop 1 p) = reply_cookie state \<and>
      ucast (p ! 5) = CAM_CMD_ACK \<and> ucast (p ! 6) = CAM_CMD_FRAME \<and> le32 (drop 7 p) = 0 \<and> \<not> foreign_result p
    else cqp = At d cq \<and> (sp = At a state \<or> sp = At a (state\<lparr> reply_first_error := ret \<rparr>))"
  using run unfolding mt6878_camera_ack_def camera_le32 Let_def
  by (simp add: not_less signed_eq_0_iff split: if_splits) (auto simp: signed_eq_0_iff)

lemma ack_status:
  "fst (mt6878_camera_ack (At a state) (At b p) len (At c work) (At d cq)) = 0 \<longleftrightarrow>
    accepted state = 0 \<and> reply_first_error state = 0 \<and> \<not> len < 75 \<and> \<not> reply_session state > 255 \<and>
    ucast (p ! 0) = reply_session state \<and> le32 (drop 1 p) = reply_cookie state \<and> ucast (p ! 5) = CAM_CMD_ACK \<and>
    ucast (p ! 6) = CAM_CMD_FRAME \<and> le32 (drop 7 p) = 0 \<and> \<not> foreign_result p \<and>
    mt6878_camsv_range work (buffer_size work) = 0 \<and> le32 (drop 63 p) \<noteq> 0 \<and> \<not> le32 (drop 63 p) > 0xffff \<and>
    \<not> le32 (drop 59 p) > buffer_size work \<and> \<not> le32 (drop 63 p) > buffer_size work - le32 (drop 59 p)"
  unfolding mt6878_camera_ack_def camera_le32 Let_def by (simp add: signed_eq_0_iff) blast

lemma slice_test:
  fixes offset sz cap :: u32
  shows "\<not> offset > cap \<and> \<not> sz > cap - offset \<longleftrightarrow> unat offset + unat sz \<le> unat cap"
proof (cases "offset \<le> cap")
  case True
  then show ?thesis using unat_sub [OF True] by (auto simp: word_less_nat_alt word_le_nat_alt not_less)
qed (auto simp: word_less_nat_alt word_le_nat_alt not_less)

lemma slice_range:
  assumes "mt6878_camsv_range work (buffer_size work) = 0" and "offset \<le> buffer_size work" and "sz \<le> buffer_size work - offset"
  shows "dma_range \<lparr> dma = dma work + ucast offset, buffer_size = sz, mapped = m \<rparr> \<subseteq> dma_range work"
proof -
  have r: "unat (dma work) + unat (buffer_size work) \<le> 2 ^ 34" using assms(1) by (simp add: range_result)
  have o: "unat offset \<le> unat (buffer_size work)" using assms(2) by (simp add: word_le_nat_alt)
  have "unat sz \<le> unat (buffer_size work) - unat offset" using assms(3) unat_sub [OF assms(2)] by (simp add: word_le_nat_alt)
  moreover have "unat (dma work + ucast offset) = unat (dma work) + unat offset"
    using r o unat_add_small [of "dma work" "ucast offset"] by simp
  ultimately show ?thesis using o by (auto simp: dma_range_def)
qed

section \<open>Traces of the gate\<close>

text \<open>A command that was let through, and one whose successful reply arrived.\<close>

datatype gate_event = Begun u32 u32 | Acked u32 u32

datatype gate_call = Begin u32 u32 | Receive bytes | Endpoint_gone | Finish int

fun gate_step :: "gate_call \<Rightarrow> mt6878_camera_ccd_session \<times> gate_event list \<Rightarrow> (mt6878_camera_ccd_session \<times> gate_event list) \<times> int" where
  "gate_step (Begin cmd k) (s, tr) = (case mt6878_camera_ccd_begin (At 0 s) cmd k of (ret, sp) \<Rightarrow>
     ((contents sp, if ret = 0 then tr @ [Begun cmd k] else tr), ret))"
| "gate_step (Receive p) (s, tr) = (case mt6878_camera_ccd_receive (At 0 s) (At 0 p) (of_nat (length p)) of (ret, sp) \<Rightarrow>
     ((contents sp, if ret = 1 then tr @ [Acked (command s) (cookie s)] else tr), ret))"
| "gate_step Endpoint_gone (s, tr) = (case mt6878_camera_ccd_receive (At 0 s) Null 0 of (ret, sp) \<Rightarrow> ((contents sp, tr), ret))"
| "gate_step (Finish e) (s, tr) = (case mt6878_camera_ccd_finish s e of (ret, s) \<Rightarrow> ((s, tr), ret))"

text \<open>The life of one command: not begun, begun, or begun and acknowledged.\<close>

definition life :: "u32 \<Rightarrow> u32 \<Rightarrow> nat \<Rightarrow> gate_event list" where
  "life cmd k n = take n [Begun cmd k, Acked cmd k]"

definition gate_trace :: "u32 \<Rightarrow> nat \<Rightarrow> nat \<Rightarrow> nat \<Rightarrow> gate_event list" where
  "gate_trace k f l d = life CAM_CMD_FRAME k f @ life CAM_CMD_FLUSH 0 l @ life CAM_CMD_DESTROY_SESSION 0 d"

definition gate_at :: "mt6878_camera_ccd_session \<Rightarrow> u32 \<Rightarrow> nat \<Rightarrow> nat \<Rightarrow> nat \<Rightarrow> bool" where
  "gate_at s k f l d \<longleftrightarrow> f \<in> {0, 1, 2} \<and> l \<in> {0, 1, 2} \<and> d \<in> {0, 1, 2} \<and> (d = 0 \<or> l = 2) \<and>
     (f = 0 \<or> mt6878_camera_cookie_valid (gate_session s) k) \<and>
     (frame_started s = 0 \<longleftrightarrow> f = 0) \<and> (flush_started s = 0 \<longleftrightarrow> l = 0) \<and> (destroy_started s = 0 \<longleftrightarrow> d = 0) \<and>
     (flushed s = 0 \<longleftrightarrow> l \<noteq> 2) \<and> (destroyed s = 0 \<longleftrightarrow> d \<noteq> 2) \<and> (d = 2 \<longrightarrow> closed s \<noteq> 0) \<and>
     (pending s = 0 \<or> command s = CAM_CMD_FRAME \<and> cookie s = k \<and> f = 1 \<and> l = 0 \<or>
       command s = CAM_CMD_FLUSH \<and> cookie s = 0 \<and> l = 1 \<and> d = 0 \<or> command s = CAM_CMD_DESTROY_SESSION \<and> cookie s = 0 \<and> d = 1)"

definition gate_ok :: "mt6878_camera_ccd_session \<times> gate_event list \<Rightarrow> bool" where
  "gate_ok st \<longleftrightarrow> (\<exists>k f l d. snd st = gate_trace k f l d \<and> gate_at (fst st) k f l d)"

lemma gate_okI: "tr = gate_trace k f l d \<Longrightarrow> gate_at s k f l d \<Longrightarrow> gate_ok (s, tr)"
  unfolding gate_ok_def fst_conv snd_conv by blast

lemma life_simps [simp]:
  "life cmd k 0 = []" "life cmd k (Suc 0) = [Begun cmd k]" "life cmd k 2 = [Begun cmd k, Acked cmd k]"
  by (simp_all add: life_def)

lemma cmds_distinct [simp]:
  "CAM_CMD_FRAME \<noteq> CAM_CMD_FLUSH" "CAM_CMD_FLUSH \<noteq> CAM_CMD_FRAME" "CAM_CMD_FRAME \<noteq> CAM_CMD_DESTROY_SESSION"
  "CAM_CMD_DESTROY_SESSION \<noteq> CAM_CMD_FRAME" "CAM_CMD_FLUSH \<noteq> CAM_CMD_DESTROY_SESSION" "CAM_CMD_DESTROY_SESSION \<noteq> CAM_CMD_FLUSH"
  by (simp_all add: cam_cmds)

lemma begin_cases:
  "mt6878_camera_ccd_begin (At 0 s) cmd k = (ret, sp) \<Longrightarrow>
    ret \<noteq> 0 \<and> sp = At 0 s \<or>
    ret = 0 \<and> pending s = 0 \<and> closed s = 0 \<and>
      (cmd = CAM_CMD_FRAME \<and> mt6878_camera_cookie_valid (gate_session s) k \<and> frame_started s = 0 \<and> flush_started s = 0 \<and>
         sp = At 0 (s\<lparr> frame_started := 1, command := cmd, cookie := k, gate_result := 0, pending := 1 \<rparr>) \<or>
       cmd = CAM_CMD_FLUSH \<and> k = 0 \<and> flush_started s = 0 \<and>
         sp = At 0 (s\<lparr> flush_started := 1, command := cmd, cookie := k, gate_result := 0, pending := 1 \<rparr>) \<or>
       cmd = CAM_CMD_DESTROY_SESSION \<and> k = 0 \<and> flushed s \<noteq> 0 \<and> destroy_started s = 0 \<and>
         sp = At 0 (s\<lparr> destroy_started := 1, command := cmd, cookie := k, gate_result := 0, pending := 1 \<rparr>))"
  by (auto simp: mt6878_camera_ccd_begin_def gate_open_def Let_def split: if_splits)


lemma begin_keeps:
  assumes "gate_ok (s, tr)" and "mt6878_camera_ccd_begin (At 0 s) cmd k = (ret, sp)"
  shows "gate_ok (contents sp, if ret = 0 then tr @ [Begun cmd k] else tr)"
proof -
  obtain k0 f l d where g: "tr = gate_trace k0 f l d" "gate_at s k0 f l d" using assms(1) by (auto simp: gate_ok_def)
  from begin_cases [OF assms(2)] consider "ret \<noteq> 0" "sp = At 0 s"
    | "ret = 0" "cmd = CAM_CMD_FRAME" "pending s = 0" "mt6878_camera_cookie_valid (gate_session s) k" "frame_started s = 0" "flush_started s = 0"
        "sp = At 0 (s\<lparr> frame_started := 1, command := cmd, cookie := k, gate_result := 0, pending := 1 \<rparr>)"
    | "ret = 0" "cmd = CAM_CMD_FLUSH" "pending s = 0" "k = 0" "flush_started s = 0"
        "sp = At 0 (s\<lparr> flush_started := 1, command := cmd, cookie := k, gate_result := 0, pending := 1 \<rparr>)"
    | "ret = 0" "cmd = CAM_CMD_DESTROY_SESSION" "pending s = 0" "closed s = 0" "k = 0" "flushed s \<noteq> 0" "destroy_started s = 0"
        "sp = At 0 (s\<lparr> destroy_started := 1, command := cmd, cookie := k, gate_result := 0, pending := 1 \<rparr>)" by blast
  then show ?thesis
  proof cases
    case 1
    then show ?thesis using assms(1) by simp
  next
    case 2
    then have "tr @ [Begun cmd k] = gate_trace k 1 0 0" "gate_at (contents sp) k 1 0 0" using g by (auto simp: gate_at_def gate_trace_def)
    then show ?thesis using 2(1) unfolding gate_ok_def by auto
  next
    case 3
    then have "tr @ [Begun cmd k] = gate_trace k0 f 1 0" "gate_at (contents sp) k0 f 1 0" using g by (auto simp: gate_at_def gate_trace_def)
    then show ?thesis using 3(1) unfolding gate_ok_def by auto
  next
    case 4
    then have "tr @ [Begun cmd k] = gate_trace k0 f 2 1" "gate_at (contents sp) k0 f 2 1" using g by (auto simp: gate_at_def gate_trace_def)
    then show ?thesis using 4(1) unfolding gate_ok_def by auto
  qed
qed

lemma receive_cases:
  assumes "mt6878_camera_ccd_receive (At 0 s) message len = (ret, sp)"
  shows "ret < 0 \<and> (contents sp = s \<or> (\<exists>r. contents sp = s\<lparr> closed := 1, gate_result := r, pending := 0 \<rparr>) \<or>
      (\<exists>b r. contents sp = s\<lparr> reply := b, pending := 0, gate_result := r \<rparr>)) \<or>
    ret = 1 \<and> pending s \<noteq> 0 \<and> closed s = 0 \<and> message \<noteq> Null \<and>
      mt6878_camera_reply_header message len (gate_session s) (cookie s) (command s) = 0 \<and>
      contents sp = s\<lparr> reply := take 75 (contents message), pending := 0, gate_result := 0,
        flushed := (if command s = CAM_CMD_FLUSH then 1 else flushed s),
        destroyed := (if command s = CAM_CMD_DESTROY_SESSION then 1 else destroyed s),
        closed := (if command s = CAM_CMD_DESTROY_SESSION then 1 else closed s) \<rparr>"
proof -
  let ?h = "mt6878_camera_reply_header message len (gate_session s) (cookie s) (command s)"
  have neg: "?h \<le> 0" by (simp add: mt6878_camera_reply_header_def Let_def)
  have long: "\<not> len < 75" if "?h = 0" using that by (auto simp: mt6878_camera_reply_header_def split: if_splits)
  show ?thesis
  proof (cases "?h = 0")
    case True
    then show ?thesis
      using assms long neg by (cases s) (auto simp: mt6878_camera_ccd_receive_def Let_def not_less split: if_splits)
  next
    case False
    then have "?h < 0" using neg by simp
    then show ?thesis
      using assms by (cases s) (auto simp: mt6878_camera_ccd_receive_def Let_def split: if_splits)
  qed
qed

lemma gate_at_idle:
  "gate_at s k f l d \<Longrightarrow> gate_at (s\<lparr> closed := 1, gate_result := r, pending := 0 \<rparr>) k f l d"
  "gate_at s k f l d \<Longrightarrow> gate_at (s\<lparr> reply := b, pending := 0, gate_result := r \<rparr>) k f l d"
  "gate_at s k f l d \<Longrightarrow> gate_at (s\<lparr> gate_result := r, pending := 0 \<rparr>) k f l d"
  "gate_at s k f l d \<Longrightarrow> gate_at (s\<lparr> pending := 0 \<rparr>) k f l d"
  by (simp_all add: gate_at_def)

lemma receive_keeps:
  assumes "gate_ok (s, tr)" and "mt6878_camera_ccd_receive (At 0 s) message len = (ret, sp)"
  shows "gate_ok (contents sp, if ret = 1 then tr @ [Acked (command s) (cookie s)] else tr)"
proof -
  obtain k f l d where g: "tr = gate_trace k f l d" "gate_at s k f l d" using assms(1) by (auto simp: gate_ok_def)
  from receive_cases [OF assms(2)] show ?thesis
  proof (elim disjE)
    assume "ret < 0 \<and> (contents sp = s \<or> (\<exists>r. contents sp = s\<lparr> closed := 1, gate_result := r, pending := 0 \<rparr>) \<or>
      (\<exists>b r. contents sp = s\<lparr> reply := b, pending := 0, gate_result := r \<rparr>))"
    then have "ret \<noteq> 1" "gate_at (contents sp) k f l d" using g gate_at_idle [OF g(2)] by auto
    then show ?thesis using g(1) unfolding gate_ok_def by auto
  next
    assume a: "ret = 1 \<and> pending s \<noteq> 0 \<and> closed s = 0 \<and> message \<noteq> Null \<and>
      mt6878_camera_reply_header message len (gate_session s) (cookie s) (command s) = 0 \<and>
      contents sp = s\<lparr> reply := take 75 (contents message), pending := 0, gate_result := 0,
        flushed := (if command s = CAM_CMD_FLUSH then 1 else flushed s),
        destroyed := (if command s = CAM_CMD_DESTROY_SESSION then 1 else destroyed s),
        closed := (if command s = CAM_CMD_DESTROY_SESSION then 1 else closed s) \<rparr>"
    then consider "command s = CAM_CMD_FRAME" "cookie s = k" "f = 1" "l = 0" | "command s = CAM_CMD_FLUSH" "cookie s = 0" "l = 1" "d = 0"
      | "command s = CAM_CMD_DESTROY_SESSION" "cookie s = 0" "d = 1" using g(2) by (auto simp: gate_at_def)
    then show ?thesis
    proof cases
      case 1
      then have "tr @ [Acked (command s) (cookie s)] = gate_trace k 2 0 0" "gate_at (contents sp) k 2 0 0"
        using a g by (auto simp: gate_at_def gate_trace_def)
      then show ?thesis unfolding if_P [OF conjunct1 [OF a]] by (rule gate_okI)
    next
      case 2
      then have "tr @ [Acked (command s) (cookie s)] = gate_trace k f 2 0" "gate_at (contents sp) k f 2 0"
        using a g by (auto simp: gate_at_def gate_trace_def)
      then show ?thesis unfolding if_P [OF conjunct1 [OF a]] by (rule gate_okI)
    next
      case 3
      then have "tr @ [Acked (command s) (cookie s)] = gate_trace k f 2 2" "gate_at (contents sp) k f 2 2"
        using a g by (auto simp: gate_at_def gate_trace_def)
      then show ?thesis unfolding if_P [OF conjunct1 [OF a]] by (rule gate_okI)
    qed
  qed
qed

lemma finish_keeps: "gate_ok (s, tr) \<Longrightarrow> gate_ok (snd (mt6878_camera_ccd_finish s e), tr)"
  using gate_at_idle(3,4) unfolding gate_ok_def mt6878_camera_ccd_finish_def Let_def by auto blast+

lemma gate_step_keeps:
  assumes "gate_ok st"
  shows "gate_ok (fst (gate_step c st))"
proof -
  obtain s tr where st: "st = (s, tr)" by (metis prod.exhaust)
  show ?thesis
  proof (cases c)
    case (Begin cmd k)
    then show ?thesis using assms st begin_keeps by (auto split: prod.splits)
  next
    case (Receive p)
    then show ?thesis using assms st receive_keeps by (auto split: prod.splits)
  next
    case Endpoint_gone
    then show ?thesis using assms st receive_keeps [of s tr Null 0]
      by (auto simp: mt6878_camera_ccd_receive_def Let_def split: prod.splits)
  next
    case (Finish e)
    then show ?thesis using assms st finish_keeps [of s tr e] by (auto split: prod.splits)
  qed
qed

interpretation gate_kept: invariant_owner gate_step gate_ok
  by unfold_locales (rule gate_step_keeps)

section \<open>Properties\<close>

text \<open>
  C39. Whatever is called on a fresh session gate and whatever messages arrive, the commands let
  through and acknowledged form one dialogue: at most one frame with a cookie of the session,
  then at most one flush, then at most one destroy, each acknowledged at most once, and a destroy
  only after the flush was acknowledged. The session counts as destroyed exactly when the destroy
  was acknowledged.
\<close>

theorem ccd_gate_order:
  "let (s, tr) = fst (run_ops gate_step calls (\<lparr> gate_session = sid, pending = 0, closed = 0, command = 0, cookie = 0, frame_started = 0,
        flush_started = 0, flushed = 0, destroy_started = 0, destroyed = 0, gate_result = 0, reply = replicate 75 0 \<rparr>, []))
   in \<exists>k f l d. tr = life CAM_CMD_FRAME k f @ life CAM_CMD_FLUSH 0 l @ life CAM_CMD_DESTROY_SESSION 0 d \<and>
     f \<in> {0, 1, 2} \<and> l \<in> {0, 1, 2} \<and> d \<in> {0, 1, 2} \<and> (d = 0 \<or> l = 2) \<and>
     (f = 0 \<or> mt6878_camera_cookie_valid (gate_session s) k) \<and> (destroyed s = 0 \<longleftrightarrow> d \<noteq> 2) \<and> (flushed s = 0 \<longleftrightarrow> l \<noteq> 2)"
proof -
  let ?s = "(\<lparr> gate_session = sid, pending = 0, closed = 0, command = 0, cookie = 0, frame_started = 0, flush_started = 0, flushed = 0,
    destroy_started = 0, destroyed = 0, gate_result = 0, reply = replicate 75 0 \<rparr>, [])"
  have "gate_at (fst ?s) 0 0 0 0" "snd ?s = gate_trace 0 0 0 0" by (simp_all add: gate_at_def gate_trace_def)
  then have "gate_ok ?s" unfolding gate_ok_def by blast
  from gate_kept.inv_run [OF this, of calls] obtain k f l d where
      "snd (fst (run_ops gate_step calls ?s)) = gate_trace k f l d" "gate_at (fst (fst (run_ops gate_step calls ?s))) k f l d"
    by (auto simp: gate_ok_def)
  then show ?thesis unfolding gate_at_def gate_trace_def by (simp only: Let_def split_beta) blast
qed

text \<open>
  C40. The acknowledgement of a frame. It is accepted exactly when the reply is the successful
  acknowledgement of this frame of this session, no other engine reports a result, and the queue
  it names is a non-empty slice of at most 65535 bytes of the mapped work buffer; then the queue
  is that slice, its DMA addresses are addresses of the work buffer, and the state is accepted. Any other
  reply leaves the queue as it was; at most it records its error.
\<close>

theorem camera_ack_slice:
  "case mt6878_camera_ack (At a state) (At b p) len (At c work) (At d cq) of (ret, sp, cqp) \<Rightarrow>
    (ret = 0 \<longleftrightarrow> accepted state = 0 \<and> reply_first_error state = 0 \<and> 75 \<le> len \<and> reply_session state \<le> 255 \<and>
      ucast (p ! 0) = reply_session state \<and> le32 (drop 1 p) = reply_cookie state \<and> ucast (p ! 5) = CAM_CMD_ACK \<and>
      ucast (p ! 6) = CAM_CMD_FRAME \<and> le32 (drop 7 p) = 0 \<and> \<not> foreign_result p \<and>
      mt6878_camsv_range work (buffer_size work) = 0 \<and> 0 < unat (le32 (drop 63 p)) \<and> unat (le32 (drop 63 p)) \<le> 0xffff \<and>
      unat (le32 (drop 59 p)) + unat (le32 (drop 63 p)) \<le> unat (buffer_size work)) \<and>
    (if ret = 0
     then sp = At a (state\<lparr> accepted := 1 \<rparr>) \<and>
       cqp = At d \<lparr> dma = dma work + ucast (le32 (drop 59 p)), buffer_size = le32 (drop 63 p), mapped = 1 \<rparr> \<and>
       dma_range (contents cqp) \<subseteq> dma_range work \<and> dma_range work \<subseteq> {..< 2 ^ 34}
     else cqp = At d cq \<and> (sp = At a state \<or> sp = At a (state\<lparr> reply_first_error := ret \<rparr>)))"
proof -
  obtain ret sp cqp where run: "mt6878_camera_ack (At a state) (At b p) len (At c work) (At d cq) = (ret, sp, cqp)" by (metis prod.exhaust)
  note k = ack_cases [OF run]
  have st: "ret = 0 \<longleftrightarrow> accepted state = 0 \<and> reply_first_error state = 0 \<and> 75 \<le> len \<and> reply_session state \<le> 255 \<and>
      ucast (p ! 0) = reply_session state \<and> le32 (drop 1 p) = reply_cookie state \<and> ucast (p ! 5) = CAM_CMD_ACK \<and>
      ucast (p ! 6) = CAM_CMD_FRAME \<and> le32 (drop 7 p) = 0 \<and> \<not> foreign_result p \<and>
      mt6878_camsv_range work (buffer_size work) = 0 \<and> 0 < unat (le32 (drop 63 p)) \<and> unat (le32 (drop 63 p)) \<le> 0xffff \<and>
      unat (le32 (drop 59 p)) + unat (le32 (drop 63 p)) \<le> unat (buffer_size work)"
    using ack_status [of a state b p len c work d cq] slice_test [where offset = "le32 (drop 59 p)" and cap = "buffer_size work" and sz = "le32 (drop 63 p)"]
    unfolding run by (simp add: unat_gt_0 not_less word_less_nat_alt [of "0xffff"])
  have "dma_range work \<subseteq> {..< 2 ^ 34}" if "ret = 0" using k that by (auto simp: range_result dma_range_def)
  moreover have "dma_range (contents cqp) \<subseteq> dma_range work" if "ret = 0"
    using k [unfolded if_P [OF that]] slice_range [of work "le32 (drop 59 p)" "le32 (drop 63 p)" 1] by simp
  ultimately have "if ret = 0
     then sp = At a (state\<lparr> accepted := 1 \<rparr>) \<and>
       cqp = At d \<lparr> dma = dma work + ucast (le32 (drop 59 p)), buffer_size = le32 (drop 63 p), mapped = 1 \<rparr> \<and>
       dma_range (contents cqp) \<subseteq> dma_range work \<and> dma_range work \<subseteq> {..< 2 ^ 34}
     else cqp = At d cq \<and> (sp = At a state \<or> sp = At a (state\<lparr> reply_first_error := ret \<rparr>))"
    using k by (cases "ret = 0") (simp_all only: if_True if_False simp_thms)
  with st show ?thesis unfolding run prod.case by (rule conjI)
qed

end
