(* ===== verification/Spec2Isabelle.thy ===== *)
theory Spec2Isabelle
  imports Nav_Epoch Nav_Host Dsp_Download Native_Session Gpueb_Io Gpueb_Segments Modem_Metadata Md_Cert Seninf_Mux Camsv_Recipe Camera_Composer
begin

text \<open>
  \<^bold>\<open>Verification of the control software of the Nothing Phone (tetris) port.\<close>

  The repository ports a mainline kernel to a MediaTek MT6878 phone. Its own logic is C code
  that stands between user space or kernel frameworks and firmware that is not under its control:
  the satellite receiver and its DSP, the GPU controller, the modem, and the camera receiver
  with its composer. Each part takes untrusted or fallible input (frames, acknowledgements,
  metadata tables, firmware images, callbacks of a driver) and must refuse it with the right
  error, keep its own state consistent and touch the hardware in one order only. The theories
  model these parts from the sources under \<^verbatim>\<open>src/\<close>, function by function, and prove what each promises.

  \<^bold>\<open>Conventions.\<close> \<^verbatim>\<open>Tetris_Prelude\<close> holds them. Machine integers are words of their width, sizes
  and indices that cannot wrap are natural numbers. A status is an \<open>int\<close>, zero or a negative
  errno. A pointer argument is \<open>Null\<close> or an address with contents (\<open>ptr\<close>); outputs are returned with
  their new contents, so that an untouched output is an equation. Callbacks are optional
  functions on an arbitrary world \<open>'w\<close> and leave events in a trace; what a callback answers is
  never assumed. Little-endian codecs are instances of the locales \<open>codec\<close> and \<open>fixed_codec\<close>;
  owners that are driven by calls are instances of \<open>invariant_owner\<close>, \<open>refined_owner\<close>,
  \<open>latched_owner\<close> or \<open>reporting_owner\<close> over \<open>run_ops\<close>. \<^verbatim>\<open>Scripts\<close> describes chains of fallible
  hardware steps by the sets of event words they may leave (\<open>follows\<close>).

  \<^bold>\<open>Satellite receiver.\<close>
  \<^item> \<^verbatim>\<open>Mvcd_Wire\<close>: \<^verbatim>\<open>dsp-download/wire.c\<close>, the frames of the DSP loader. The decoder accepts exactly
    the well-formed acknowledgements, the encoder writes exactly the specified frame.
  \<^item> \<^verbatim>\<open>Binary_Float\<close>, \<^verbatim>\<open>Float_Bits\<close>: round-to-nearest-even on rationals, and the bit patterns of
    \<^verbatim>\<open>float\<close> and \<^verbatim>\<open>double\<close>; error bounds, exactness, and that the pattern of a rounded number denotes it.
  \<^item> \<^verbatim>\<open>Dsp_Clock\<close>: \<^verbatim>\<open>dsp-download/clock.c\<close>; rounding and clock synthesis are exact in their domain.
  \<^item> \<^verbatim>\<open>Dsp_Bootstrap\<close>: \<^verbatim>\<open>bootstrap_fields.c\<close> and \<^verbatim>\<open>bootstrap.c\<close>, from board selectors to the bootstrap frame.
  \<^item> \<^verbatim>\<open>Dsp_Download\<close>: \<^verbatim>\<open>download.c\<close>, the download controller. Every call is an edge of the abstract
    protocol \<open>dl_edge\<close>; fragments go out in order, progress needs the expected
    acknowledgement, and the first error is final.
  \<^item> \<^verbatim>\<open>Gnss_Bridge\<close>: the packaged tool \<^verbatim>\<open>nothing-tetris-gnss-bridge.c\<close>; recording is all or nothing.
  \<^item> \<^verbatim>\<open>Nav_Packet\<close>, \<^verbatim>\<open>Nav_Epoch\<close>, \<^verbatim>\<open>Nav_Host\<close>: \<^verbatim>\<open>native-navigation/navigation.c\<close>. Packets are decoded exactly,
    also those of the bridge tool; the epoch owner refines an automaton; time seeds are computed
    without wrap-around and always accepted by the encoder; a position record is admitted only
    when its civil date (\<open>gmtime_r\<close> is the Gregorian calendar, proved inverse to the POSIX formula) and its GPS time
    are one instant.
  \<^item> \<^verbatim>\<open>Native_Session\<close>: \<^verbatim>\<open>native-session/session.c\<close>. The device sees only pieces of the stop frame in order and
    at most one stop command, and a failed session is final.

  \<^bold>\<open>GPU controller.\<close>
  \<^item> \<^verbatim>\<open>Gpueb_Sram\<close>: \<^verbatim>\<open>sram-owner/mt6878-gpueb-sram-core.c\<close> refines a table of leases; ranges stay inside
    leased windows.
  \<^item> \<^verbatim>\<open>Gpueb_Io\<close>: \<^verbatim>\<open>mmio-scope/mt6878-gpueb-io-core.c\<close>; transactions are complete or quarantined, accesses
    are confined, delivery succeeds on a free channel.
  \<^item> \<^verbatim>\<open>Gpueb_Segments\<close>: \<^verbatim>\<open>uboot-segments/tetris_gpueb_segments.c\<close>; a table that is announced is safe to follow.

  \<^bold>\<open>Modem.\<close>
  \<^item> \<^verbatim>\<open>Modem_Layout\<close>: \<^verbatim>\<open>runtime-metadata/layout_model.h\<close>; the block map tiles the firmware window with
    the annotations of the header, and the shared-memory plan is the reference packing.
  \<^item> \<^verbatim>\<open>Modem_Metadata\<close>: \<^verbatim>\<open>semantic.h\<close>, \<^verbatim>\<open>metadata_resources.h\<close> and the decoders of \<^verbatim>\<open>handoff.h\<close>; a snapshot is
    admitted exactly when its tables are the canonical encodings of what the layout gives.
  \<^item> \<^verbatim>\<open>Md_Pss\<close>, \<^verbatim>\<open>Md_Cert\<close>: \<^verbatim>\<open>mt6878_md_pss32.c\<close> and \<^verbatim>\<open>mt6878_md_mtk_cert.c\<close>. The crypto interface of the
    kernel is the record \<open>md_crypto\<close> of arbitrary callbacks, the ASN.1 walker an arbitrary function; the hypothesis
    \<open>crypto_sound\<close> says only what a successful hash or RSA call means. Verification is the PSS check of RFC 8017, and
    firmware hashes are given out exactly for a pinned, delegated and signed chain.

  \<^bold>\<open>Camera.\<close>
  \<^item> \<^verbatim>\<open>Seninf_Mux\<close>: \<^verbatim>\<open>camera-seninf/mt6878-seninf-mux.h\<close>; each register script runs at most once and none
    after a shutdown or a failure.
  \<^item> \<^verbatim>\<open>Camsv_Capture\<close>: \<^verbatim>\<open>camera-camsv/mt6878-camsv-capture.h\<close>; accepted jobs are sound, the hardware sees
    one submission and one bounded stop.
  \<^item> \<^verbatim>\<open>Ccd_Cq\<close>: \<^verbatim>\<open>camera-ccd-cq/mt6878-camera-ccd-cq.h\<close>; the engine that walks a closed queue makes
    exactly the writes of the calls. \<^verbatim>\<open>Camsv_Recipe\<close>: the first-frame recipe composed on it.
  \<^item> \<^verbatim>\<open>Camera_Composer\<close>: \<^verbatim>\<open>camera-composer/mt6878-camera-composer.h\<close> and \<^verbatim>\<open>mt6878-camera-ccd-session.h\<close>; the
    session gate and the acknowledged slice of the work buffer.

  \<^bold>\<open>Bounds and fuel.\<close> Loops of the sources are structural recursions or functions with a
  measure. Polling loops carry the bound of the code (100000 rounds in the camera stop); the
  command-queue engine has as fuel the number of descriptors of the queue, and the theorem
  shows that it ends before the fuel does; the partition loop of the segment inspector is
  bounded by its sixteen segments.

  \<^bold>\<open>Not modelled.\<close> Drivers whose content is calls of kernel frameworks (device tree, clocks,
  regulators, dma-buf, V4L2, interrupts), whose state is not in the repository: the GPU reset
  owner and its boot hooks, the modem power adoption and start scope, the camera pipeline, video node, sensor
  and power owners. Programs over sockets and threads (the assistance receiver) and those that
  inspect a proprietary library in memory. Of \<^verbatim>\<open>mt6878-gpueb-io.c\<close> only the two accessors, of \<^verbatim>\<open>handoff.h\<close>
  only the pure decoders, and of the composer ABI not the message that \<^verbatim>\<open>mt6878_camera_frame\<close>
  fills. Concurrency is modelled as sequences of calls: every modelled owner has a single
  caller or runs under one lock.
\<close>

section \<open>Frames across components\<close>

text \<open>
  The frames that the sources carry as constants are frames of the packet layer: the request
  of the bridge tool and of the host encoder are the same bytes, and the receiver reads them
  and the stop frame of the session back.
\<close>

lemma constant_frames:
  "expected_post_init_frame = post_init_frame"
  "post_init_frame = nav_wire 9 5 [0x32, 0, 0, 1, 0]"
  "stop_frame = nav_wire 6 5 [4, 0]"
  by code_simp+

lemma constant_frames_decode:
  "b41_nav_packet_decode (At a stop_frame) (length stop_frame) (At b old) = (0, At b (packet_of 6 5 [4, 0]))"
  "b41_nav_packet_decode (At a post_init_frame) (length post_init_frame) (At b old) =
     (0, At b (packet_of 9 5 [0x32, 0, 0, 1, 0]))"
  unfolding constant_frames(2,3) decode_iff_nav_wire
  by (rule exI [of _ 6] exI [of _ 9], rule exI [of _ 5], rule exI, intro conjI, rule refl, code_simp, code_simp, rule refl)+

end
